(* ===== verification/Prelude.thy ===== *)
theory Prelude
  imports Main "HOL-Library.Multiset" "HOL-Library.Word"
begin

text \<open>
  Vocabulary shared by all components: undefined behaviour and thrown errors as values, the
  status value of the RPC runtime, the effects a handler has on the outside world, reachability,
  and the generic lemmas on lists and multisets the component proofs share.
\<close>

section \<open>Failures as values\<close>

text \<open>
  What the C++ program must never do. Every operation that can reach one of these returns
  \<open>Inl\<close> of it; every operation that can throw has its own exception type.
\<close>

datatype ub =
    NullDeref        \<comment> \<open>a call through a null pointer or an empty coroutine handle\<close>
  | UseAfterFree     \<comment> \<open>a call on an object whose storage is gone\<close>
  | OutOfBounds      \<comment> \<open>an array read past its end\<close>
  | DivByZero        \<comment> \<open>\<open>x % 0\<close> on an unsigned integer\<close>
  | UninitRead       \<comment> \<open>a read of a member no constructor initialised\<close>
  | AssertFail       \<comment> \<open>an assertion of the source is false\<close>
  | RethrowNull      \<comment> \<open>\<open>std::rethrow_exception\<close> of a null pointer\<close>

definition array_at :: "'a list \<Rightarrow> nat \<Rightarrow> ub + 'a" where
  "array_at xs i = (if i < length xs then Inr (xs ! i) else Inl OutOfBounds)"

section \<open>The status value\<close>

text \<open>
  \<open>::grpc::Status\<close> is a pair of a code and a message; \<open>::grpc::StatusCode\<close> is an enumeration
  over a 32-bit \<open>int\<close> whose enumerators have the documented values below.
\<close>

type_synonym status_code = "32 word"

abbreviation STATUS_OK :: status_code where "STATUS_OK \<equiv> 0"
abbreviation STATUS_UNKNOWN :: status_code where "STATUS_UNKNOWN \<equiv> 2"
abbreviation STATUS_INTERNAL :: status_code where "STATUS_INTERNAL \<equiv> 13"
abbreviation STATUS_UNAUTHENTICATED :: status_code where "STATUS_UNAUTHENTICATED \<equiv> 16"

datatype status = Status (error_code: status_code) (error_message: string)

definition status_ok :: "status \<Rightarrow> bool" where
  "status_ok s \<longleftrightarrow> error_code s = STATUS_OK"

lemma status_ok_Status [simp]: "status_ok (Status c m) \<longleftrightarrow> c = STATUS_OK"
  by (simp add: status_ok_def)

section \<open>Effects of a handler\<close>

text \<open>
  A handler or an awaiter changes its own object and, in program order, calls into the RPC
  runtime (\<open>Issue\<close>), calls user hooks (\<open>RunHook\<close>), resumes or destroys a coroutine frame and
  deletes itself. After one of the last three, or after an operation that carries the object's own
  tag was issued, the object may be gone: another thread may already run its completion.
\<close>

type_synonym coro_handle = nat

datatype ('op, 'hook) eff =
    Issue 'op
  | RunHook 'hook
  | ResumeCoro coro_handle
  | DestroyCoro coro_handle
  | DeleteSelf

fun hands_over :: "('op, 'hook) eff \<Rightarrow> bool" where
  "hands_over (RunHook h) = False"
| "hands_over _ = True"

text \<open>Nothing is done after the first effect that can end the life of the object.\<close>

fun ends_with_handover :: "('op, 'hook) eff list \<Rightarrow> bool" where
  "ends_with_handover [] = False"
| "ends_with_handover [e] = hands_over e"
| "ends_with_handover (e # es) = (\<not> hands_over e \<and> ends_with_handover es)"

fun issued :: "('op, 'hook) eff list \<Rightarrow> 'op list" where
  "issued [] = []"
| "issued (Issue op # es) = op # issued es"
| "issued (_ # es) = issued es"

lemma issued_append [simp]: "issued (xs @ ys) = issued xs @ issued ys"
  by (induction xs rule: issued.induct) auto

text \<open>How many entries of a history satisfy a predicate.\<close>

definition count :: "('a \<Rightarrow> bool) \<Rightarrow> 'a list \<Rightarrow> nat" where
  "count P xs = length (filter P xs)"

lemma count_simps [simp]:
  "count P [] = 0" "count P (x # xs) = (if P x then 1 else 0) + count P xs"
  "count P (xs @ ys) = count P xs + count P ys"
  by (simp_all add: count_def)

section \<open>Reachability\<close>

text \<open>An invariant of the start state that every step keeps holds in every reachable state.\<close>

lemma rtranclp_invariant:
  assumes "R\<^sup>*\<^sup>* s t" and "I s" and "\<And>u v. I u \<Longrightarrow> R u v \<Longrightarrow> I v"
  shows "I t"
  using assms(1,2) by (induction rule: rtranclp_induct) (auto intro: assms(3))

section \<open>Lists and multisets\<close>

lemma map_filter_Cons [simp]:
  "List.map_filter f [] = []"
  "List.map_filter f (x # xs) = (case f x of None \<Rightarrow> List.map_filter f xs | Some y \<Rightarrow> y # List.map_filter f xs)"
  "List.map_filter f (xs @ ys) = List.map_filter f xs @ List.map_filter f ys"
  by (simp_all add: List.map_filter_def split: option.split)

named_theorems mset_norm \<open>rewrites that normalise multisets of outstanding operations\<close>

lemma size_filter_add_mset [mset_norm]:
  "size (filter_mset P (add_mset x M)) = (if P x then 1 else 0) + size (filter_mset P M)"
  by simp

lemma size_filter_remove:
  assumes "x \<in># M"
  shows "size (filter_mset P (M - {#x#})) + (if P x then 1 else 0) = size (filter_mset P M)"
proof -
  obtain N where "M = add_mset x N"
    using assms by (meson multi_member_split)
  then show ?thesis by simp
qed

lemma size_filter_member: "x \<in># M \<Longrightarrow> P x \<Longrightarrow> 0 < size (filter_mset P M)"
  by (metis filter_mset_eq_mempty_iff nonempty_has_size)

end
