(* ===== verification/Exceptions.thy ===== *)
theory Exceptions
  imports Prelude
begin

text \<open>
  Exceptions and their translation to a status: \<open>src/grpc/util.cpp\<close> and
  \<open>include/asyncpp/grpc/grpc_exception.h\<close>. The demangler of the C++ runtime and the
  implementation-defined name of a type are parameters.
\<close>

section \<open>Exception objects\<close>

text \<open>
  An exception in flight, by the handlers that can catch it: a bare \<open>::grpc::Status\<close>, a
  \<open>grpc_exception\<close> (which is a \<open>std::runtime_error\<close>), another \<open>std::exception\<close> of the given
  type with the given \<open>what()\<close>, or an object of any other type. \<open>std::exception_ptr\<close> is an
  option: \<open>None\<close> is the null pointer.
\<close>

datatype type_info =
    TypeStatus
  | TypeGrpcException
  | TypeNamed string              \<comment> \<open>any other type, by its mangled name\<close>
  | UnknownExceptionType          \<comment> \<open>\<open>typeid(unknown_exception_type)\<close>\<close>

datatype exn =
    ThrownStatus status
  | GrpcException string status   \<comment> \<open>the \<open>runtime_error\<close> text and \<open>m_status\<close>\<close>
  | StdException string string    \<comment> \<open>mangled type name and \<open>what()\<close>\<close>
  | OtherThrown string            \<comment> \<open>mangled type name\<close>

type_synonym exception_ptr = "exn option"

section \<open>grpc_exception\<close>

definition grpc_exception_of_status :: "status \<Rightarrow> exn" where
  "grpc_exception_of_status s = GrpcException (error_message s) s"

definition default_strings :: "string list" where
  "default_strings =
     [''OK'', ''CANCELLED'', ''UNKNOWN'', ''INVALID_ARGUMENT'', ''DEADLINE_EXCEEDED'',
      ''NOT_FOUND'', ''ALREADY_EXISTS'', ''PERMISSION_DENIED'', ''RESOURCE_EXHAUSTED'', ''FAILED_PRECONDITION'',
      ''ABORTED'', ''OUT_OF_RANGE'', ''UNIMPLEMENTED'', ''INTERNAL'', ''UNAVAILABLE'',
      ''DATA_LOSS'', ''UNAUTHENTICATED'']"

text \<open>\<open>static_cast<size_t>(c)\<close> of a 32-bit signed value: sign extension to 64 bits.\<close>

definition code_to_size_t :: "status_code \<Rightarrow> 64 word" where
  "code_to_size_t c = scast c"

definition grpc_exception_of_code :: "status_code \<Rightarrow> ub + exn" where
  "grpc_exception_of_code c =
     (case (if code_to_size_t c > code_to_size_t STATUS_UNAUTHENTICATED then Inr ''UNKNOWN''
            else array_at default_strings (unat (code_to_size_t c))) of
        Inl u \<Rightarrow> Inl u
      | Inr m \<Rightarrow> Inr (grpc_exception_of_status (Status c m)))"

fun get_status :: "exn \<Rightarrow> status option" where
  "get_status (GrpcException w s) = Some s"
| "get_status _ = None"

section \<open>Translation functions\<close>

text \<open>\<open>cxa_demangle\<close> is the runtime's demangler: \<open>None\<close> is the null buffer.\<close>

definition demangle_typename :: "(string \<Rightarrow> string option) \<Rightarrow> string \<Rightarrow> string" where
  "demangle_typename cxa_demangle to_demangle =
     (case cxa_demangle to_demangle of None \<Rightarrow> to_demangle | Some buff \<Rightarrow> buff)"

fun dynamic_type :: "exn \<Rightarrow> type_info" where
  "dynamic_type (ThrownStatus s) = TypeStatus"
| "dynamic_type (GrpcException w s) = TypeGrpcException"
| "dynamic_type (StdException n w) = TypeNamed n"
| "dynamic_type (OtherThrown n) = TypeNamed n"

text \<open>\<open>e\<close> is the exception a surrounding \<open>catch\<close> is handling, if there is one.\<close>

definition current_exception_type :: "exception_ptr \<Rightarrow> type_info" where
  "current_exception_type e = (case e of None \<Rightarrow> UnknownExceptionType | Some x \<Rightarrow> dynamic_type x)"

text \<open>
  With \<open>__GLIBCXX__\<close> the type is read off the pointer; otherwise the exception is rethrown
  and \<open>current_exception_type\<close> is asked inside the handler.
\<close>

definition exception_type :: "bool \<Rightarrow> exception_ptr \<Rightarrow> type_info" where
  "exception_type glibcxx e =
     (case e of None \<Rightarrow> UnknownExceptionType
      | Some x \<Rightarrow> if glibcxx then dynamic_type x else current_exception_type (Some x))"

definition exception_message ::
  "(string \<Rightarrow> string option) \<Rightarrow> (type_info \<Rightarrow> string) \<Rightarrow> exception_ptr \<Rightarrow> string" where
  "exception_message cxa_demangle type_name e =
     (case e of None \<Rightarrow> ''unknown''
      | Some (GrpcException w s) \<Rightarrow> w
      | Some (StdException n w) \<Rightarrow> w
      | Some x \<Rightarrow> demangle_typename cxa_demangle (type_name (current_exception_type (Some x))))"

definition current_exception_message ::
  "(string \<Rightarrow> string option) \<Rightarrow> (type_info \<Rightarrow> string) \<Rightarrow> exception_ptr \<Rightarrow> string" where
  "current_exception_message cxa_demangle type_name current =
     exception_message cxa_demangle type_name current"

text \<open>The handlers in the source's order; \<open>ndebug\<close> says whether \<open>NDEBUG\<close> is defined.\<close>

definition exception_to_status :: "bool \<Rightarrow> exception_ptr \<Rightarrow> ub + status" where
  "exception_to_status ndebug e =
     (case e of None \<Rightarrow> Inl RethrowNull
      | Some (ThrownStatus s) \<Rightarrow> Inr s
      | Some (GrpcException w s) \<Rightarrow> Inr s
      | Some (StdException n w) \<Rightarrow>
          Inr (if ndebug then Status STATUS_INTERNAL ''Internal error'' else Status STATUS_INTERNAL w)
      | Some (OtherThrown n) \<Rightarrow> Inr (Status STATUS_INTERNAL ''Unknown exception''))"

section \<open>Properties\<close>

lemma length_default_strings [simp]: "length default_strings = 17"
  by (simp add: default_strings_def)

lemma code_to_size_t_UNAUTHENTICATED [simp]: "code_to_size_t STATUS_UNAUTHENTICATED = 16"
  by (simp add: code_to_size_t_def)

text \<open>
  The conversion in terms of the unsigned reading of the code: a negative enumerator wraps to a
  huge \<open>size_t\<close>, and so do all codes above the table.
\<close>

lemma mod_of_negative:
  assumes "- m \<le> (k::int)" and "k < 0"
  shows "k mod m = k + m"
proof -
  have "(k + m) mod m = k + m" using assms by (intro mod_pos_pos_trivial) simp_all
  then show ?thesis by simp
qed

lemma sint_code_range: "- (2 ^ 31) \<le> sint (c :: status_code)" "sint (c :: status_code) < 2 ^ 31"
  using sint_range_size [of c] by (simp_all add: word_size)

lemma uint_code_to_size_t: "uint (code_to_size_t c) = sint c mod 2 ^ 64"
  unfolding code_to_size_t_def by transfer (simp add: take_bit_eq_mod)

lemma uint_code: "uint (c :: status_code) = sint c mod 2 ^ 32"
proof -
  have "take_bit 32 (uint c) = uint c"
    using uint_lt2p [of c] by (simp add: take_bit_int_eq_self_iff)
  then have "take_bit 32 (sint c) = uint c"
    by (simp add: sint_uint take_bit_signed_take_bit)
  then show ?thesis by (simp add: take_bit_eq_mod)
qed

lemma code_wrap:
  "uint (code_to_size_t c) = (if sint c < 0 then sint c + 2 ^ 64 else sint c)"
  "uint c = (if sint c < 0 then sint c + 2 ^ 32 else sint c)"
  using sint_code_range [of c] by (simp_all add: uint_code_to_size_t uint_code mod_of_negative)

lemma code_above_table: "16 < code_to_size_t c \<longleftrightarrow> 16 < unat c"
proof -
  have "16 < code_to_size_t c \<longleftrightarrow> 16 < uint (code_to_size_t c)"
    by (simp add: word_less_alt)
  also have "\<dots> \<longleftrightarrow> 16 < uint c"
    using sint_code_range [of c] code_wrap [of c] by (auto split: if_splits)
  also have "\<dots> \<longleftrightarrow> 16 < unat c"
    unfolding unat_eq_nat_uint by linarith
  finally show ?thesis .
qed

lemma code_index:
  assumes "unat c \<le> 16"
  shows "unat (code_to_size_t c) = unat c"
proof -
  have "uint c \<le> 16" using assms unfolding unat_eq_nat_uint by linarith
  then have "uint (code_to_size_t c) = uint c"
    using sint_code_range [of c] code_wrap [of c] by (auto split: if_splits)
  then show ?thesis by (simp only: unat_eq_nat_uint)
qed

text \<open>
C38: constructing a \<open>grpc_exception\<close> from any of the \<open>2 ^ 32\<close> values a status code can hold never
reads the string table out of bounds. The exception carries that very code; its message, which is
also its \<open>what()\<close> text, is the table entry of the code, or \<open>UNKNOWN\<close> for a code outside the table.
\<close>

theorem grpc_exception_of_code_total:
  "grpc_exception_of_code c =
     Inr (let m = (if unat c \<le> 16 then default_strings ! unat c else ''UNKNOWN'')
          in GrpcException m (Status c m))"
  by (cases "unat c \<le> 16")
     (simp_all add: grpc_exception_of_code_def code_above_table code_index array_at_def
      grpc_exception_of_status_def Let_def)

text \<open>
C39: a status thrown as a \<open>grpc_exception\<close> comes back unchanged: its getter, the translation to the
status sent to the peer and the exception's message all return what was put in, in debug and in
release builds, and independently of the demangler.
\<close>

theorem grpc_exception_roundtrip:
  "get_status (grpc_exception_of_status s) = Some s \<and>
   exception_to_status ndebug (Some (grpc_exception_of_status s)) = Inr s \<and>
   exception_message cxa_demangle type_name (Some (grpc_exception_of_status s)) = error_message s"
  by (simp add: grpc_exception_of_status_def exception_to_status_def exception_message_def)

text \<open>
An exception is reported to the peer as success only if the program threw an \<open>OK\<close> status itself,
bare or inside a \<open>grpc_exception\<close>; every other exception becomes \<open>INTERNAL\<close>, and in a release
build the text of a \<open>std::exception\<close> does not leak into the status.
\<close>

theorem exception_to_status_safe:
  assumes "exception_to_status ndebug (Some e) = Inr s"
  shows "e = ThrownStatus s \<or> (\<exists>w. e = GrpcException w s) \<or>
         (error_code s = STATUS_INTERNAL \<and> \<not> status_ok s \<and>
          (ndebug \<longrightarrow> error_message s \<in> {''Internal error'', ''Unknown exception''}))"
  using assms by (cases e) (auto simp: exception_to_status_def split: if_splits)

theorem exception_to_status_safe_witness:
  "exception_to_status True (Some (StdException ''St11logic_error'' ''secret'')) =
     Inr (Status STATUS_INTERNAL ''Internal error'') \<and>
   error_code (Status STATUS_INTERNAL ''Internal error'') = STATUS_INTERNAL"
proof -
  have h: "exception_to_status True (Some (StdException ''St11logic_error'' ''secret'')) =
      Inr (Status STATUS_INTERNAL ''Internal error'')"
    by (simp add: exception_to_status_def)
  show ?thesis using h exception_to_status_safe [OF h] by simp
qed

text \<open>
  The two ways \<open>exception_type\<close> is compiled, reading the type off the pointer and rethrowing the
  exception to ask \<open>current_exception_type\<close>, give the same type for every exception pointer, null
  included.
\<close>

lemma exception_type_branches_agree:
  "exception_type glibcxx e = exception_type (\<not> glibcxx) e \<and>
   exception_type glibcxx e = current_exception_type e"
  by (cases e) (auto simp: exception_type_def current_exception_type_def)

end
