(* ===== verification/Traits.thy ===== *)
theory Traits
  imports Prelude
begin

text \<open>
  The method traits of \<open>include/asyncpp/grpc/traits.h\<close>: partial specialisations of a class template
  over the type of a generated member function. A C++ type is a term; a specialisation is a pattern
  with the template parameters as variables; selecting one is first-order matching, which is what
  template argument deduction does for these types.
\<close>

section \<open>C++ types and template argument deduction\<close>

text \<open>
  The type constructors the header mentions. A pointer to member function is \<open>MemFn\<close> applied to
  the result, the class and the parameters; \<open>UserType\<close> is any class of the user's.
\<close>

datatype sym =
    MemFn | Ptr | ConstRef | UniquePtr | VoidType
  | ServerContextT | CompletionQueueT | ServerCompletionQueueT | ClientContextT
  | ServerAsyncResponseWriter | ServerAsyncReader | ServerAsyncWriter | ServerAsyncReaderWriter
  | ClientAsyncResponseReader | ClientAsyncResponseReaderInterface
  | ClientAsyncWriter | ClientAsyncWriterInterface
  | ClientAsyncReader | ClientAsyncReaderInterface
  | ClientAsyncReaderWriter | ClientAsyncReaderWriterInterface
  | UserType string

datatype tvar = TService | TRequest | TResponse

datatype ty = TVar tvar | TApp sym "ty list"

type_synonym subst = "tvar \<rightharpoonup> ty"

fun subst_ty :: "subst \<Rightarrow> ty \<Rightarrow> ty" where
  "subst_ty \<sigma> (TVar v) = (case \<sigma> v of None \<Rightarrow> TVar v | Some t \<Rightarrow> t)"
| "subst_ty \<sigma> (TApp f ts) = TApp f (map (subst_ty \<sigma>) ts)"

fun tvars :: "ty \<Rightarrow> tvar set" where
  "tvars (TVar v) = {v}"
| "tvars (TApp f ts) = (\<Union>t \<in> set ts. tvars t)"

fun match_ty :: "ty \<Rightarrow> ty \<Rightarrow> subst \<Rightarrow> subst option"
and match_tys :: "ty list \<Rightarrow> ty list \<Rightarrow> subst \<Rightarrow> subst option" where
  "match_ty (TVar v) t \<sigma> =
     (case \<sigma> v of None \<Rightarrow> Some (\<sigma>(v \<mapsto> t)) | Some u \<Rightarrow> if u = t then Some \<sigma> else None)"
| "match_ty (TApp f ps) (TApp g ts) \<sigma> = (if f = g then match_tys ps ts \<sigma> else None)"
| "match_ty (TApp f ps) (TVar v) \<sigma> = None"
| "match_tys [] [] \<sigma> = Some \<sigma>"
| "match_tys (p # ps) (t # ts) \<sigma> =
     (case match_ty p t \<sigma> of None \<Rightarrow> None | Some \<tau> \<Rightarrow> match_tys ps ts \<tau>)"
| "match_tys [] (t # ts) \<sigma> = None"
| "match_tys (p # ps) [] \<sigma> = None"

text \<open>Two patterns clash when they disagree on a constructor or an arity at some position.\<close>

fun clash :: "ty \<Rightarrow> ty \<Rightarrow> bool"
and clash_list :: "ty list \<Rightarrow> ty list \<Rightarrow> bool" where
  "clash (TApp f ps) (TApp g qs) = (f \<noteq> g \<or> clash_list ps qs)"
| "clash _ _ = False"
| "clash_list [] [] = False"
| "clash_list (p # ps) (q # qs) = (clash p q \<or> clash_list ps qs)"
| "clash_list _ _ = True"

section \<open>The traits\<close>

datatype rpc_method_type = Unary | ClientStreaming | ServerStreaming | BidiStreaming

record stream_traits =
  is_server_side :: bool
  is_client_streaming :: bool
  is_server_streaming :: bool
  is_streaming :: bool
  rpc_type :: rpc_method_type
  request_type :: ty
  response_type :: ty
  stream_type :: ty

record method_traits = stream_traits +
  service_type :: ty
  call_ptr_type :: ty

definition server_stream_traits :: "rpc_method_type \<Rightarrow> ty \<Rightarrow> ty \<Rightarrow> stream_traits" where
  "server_stream_traits value req resp =
     (let cs = (value = ClientStreaming \<or> value = BidiStreaming);
          ss = (value = ServerStreaming \<or> value = BidiStreaming)
      in \<lparr>is_server_side = True, is_client_streaming = cs, is_server_streaming = ss,
          is_streaming = cs \<or> ss, rpc_type = value, request_type = req, response_type = resp,
          stream_type =
            (if value = Unary then TApp ServerAsyncResponseWriter [resp]
             else if value = ClientStreaming then TApp ServerAsyncReader [resp, req]
             else if value = ServerStreaming then TApp ServerAsyncWriter [resp]
             else TApp ServerAsyncReaderWriter [resp, req])\<rparr>)"

abbreviation "ptr t \<equiv> TApp Ptr [t]"
abbreviation "cref t \<equiv> TApp ConstRef [t]"
abbreviation "uptr t \<equiv> TApp UniquePtr [t]"
abbreviation "void_t \<equiv> TApp VoidType []"
abbreviation "memfn r c ps \<equiv> TApp MemFn (r # c # ps)"
abbreviation "server_context_ptr \<equiv> ptr (TApp ServerContextT [])"
abbreviation "client_context_ptr \<equiv> ptr (TApp ClientContextT [])"
abbreviation "cq_ptr \<equiv> ptr (TApp CompletionQueueT [])"
abbreviation "server_cq_ptr \<equiv> ptr (TApp ServerCompletionQueueT [])"
abbreviation "Svc \<equiv> TVar TService"
abbreviation "Req \<equiv> TVar TRequest"
abbreviation "Resp \<equiv> TVar TResponse"

section \<open>The specialisations, in the order of the header\<close>

definition spec_server_unary :: "ty \<times> method_traits" where
  "spec_server_unary =
     (memfn void_t Svc [server_context_ptr, ptr Req, ptr (TApp ServerAsyncResponseWriter [Resp]),
                        cq_ptr, server_cq_ptr, ptr void_t],
      stream_traits.extend (server_stream_traits Unary Req Resp)
        (method_traits.fields Svc
          (memfn void_t Svc [server_context_ptr, ptr Req, ptr (TApp ServerAsyncResponseWriter [Resp]),
                             cq_ptr, server_cq_ptr, ptr void_t])))"

definition spec_server_client_streaming :: "ty \<times> method_traits" where
  "spec_server_client_streaming =
     (memfn void_t Svc [server_context_ptr, ptr (TApp ServerAsyncReader [Resp, Req]),
                        cq_ptr, server_cq_ptr, ptr void_t],
      stream_traits.extend (server_stream_traits ClientStreaming Req Resp)
        (method_traits.fields Svc
          (memfn void_t Svc [server_context_ptr, ptr (TApp ServerAsyncReader [Resp, Req]),
                             cq_ptr, server_cq_ptr, ptr void_t])))"

definition spec_server_server_streaming :: "ty \<times> method_traits" where
  "spec_server_server_streaming =
     (memfn void_t Svc [server_context_ptr, ptr Req, ptr (TApp ServerAsyncWriter [Resp]),
                        cq_ptr, server_cq_ptr, ptr void_t],
      stream_traits.extend (server_stream_traits ServerStreaming Req Resp)
        (method_traits.fields Svc
          (memfn void_t Svc [server_context_ptr, ptr Req, ptr (TApp ServerAsyncWriter [Resp]),
                             cq_ptr, server_cq_ptr, ptr void_t])))"

definition spec_server_bidi_streaming :: "ty \<times> method_traits" where
  "spec_server_bidi_streaming =
     (memfn void_t Svc [server_context_ptr, ptr (TApp ServerAsyncReaderWriter [Resp, Req]),
                        cq_ptr, server_cq_ptr, ptr void_t],
      stream_traits.extend (server_stream_traits BidiStreaming Req Resp)
        (method_traits.fields Svc
          (memfn void_t Svc [server_context_ptr, ptr (TApp ServerAsyncReaderWriter [Resp, Req]),
                             cq_ptr, server_cq_ptr, ptr void_t])))"

definition spec_client_unary :: "ty \<times> method_traits" where
  "spec_client_unary =
     (memfn (uptr (TApp ClientAsyncResponseReader [Resp])) Svc [client_context_ptr, cref Req, cq_ptr],
      \<lparr>is_server_side = False, is_client_streaming = False, is_server_streaming = False,
       is_streaming = False \<or> False, rpc_type = Unary, request_type = Req, response_type = Resp,
       stream_type = uptr (TApp ClientAsyncResponseReader [Resp]), service_type = Svc,
       call_ptr_type = memfn (uptr (TApp ClientAsyncResponseReader [Resp])) Svc
         [client_context_ptr, cref Req, cq_ptr]\<rparr>)"

definition spec_client_unary_interface :: "ty \<times> method_traits" where
  "spec_client_unary_interface =
     (memfn (uptr (TApp ClientAsyncResponseReaderInterface [Resp])) Svc
        [client_context_ptr, cref Req, cq_ptr],
      \<lparr>is_server_side = False, is_client_streaming = False, is_server_streaming = False,
       is_streaming = False \<or> False, rpc_type = Unary, request_type = Req, response_type = Resp,
       stream_type = uptr (TApp ClientAsyncResponseReaderInterface [Resp]), service_type = Svc,
       call_ptr_type = memfn (uptr (TApp ClientAsyncResponseReaderInterface [Resp])) Svc
         [client_context_ptr, cref Req, cq_ptr]\<rparr>)"

definition spec_client_client_streaming :: "ty \<times> method_traits" where
  "spec_client_client_streaming =
     (memfn (uptr (TApp ClientAsyncWriter [Req])) Svc
        [client_context_ptr, ptr Resp, cq_ptr, ptr void_t],
      \<lparr>is_server_side = False, is_client_streaming = True, is_server_streaming = False,
       is_streaming = True \<or> False, rpc_type = ClientStreaming, request_type = Req,
       response_type = Resp, stream_type = uptr (TApp ClientAsyncWriter [Req]), service_type = Svc,
       call_ptr_type = memfn (uptr (TApp ClientAsyncWriter [Req])) Svc
         [client_context_ptr, ptr Resp, cq_ptr, ptr void_t]\<rparr>)"

definition spec_client_client_streaming_interface :: "ty \<times> method_traits" where
  "spec_client_client_streaming_interface =
     (memfn (uptr (TApp ClientAsyncWriterInterface [Req])) Svc
        [client_context_ptr, ptr Resp, cq_ptr, ptr void_t],
      \<lparr>is_server_side = False, is_client_streaming = True, is_server_streaming = False,
       is_streaming = True \<or> False, rpc_type = ClientStreaming, request_type = Req,
       response_type = Resp, stream_type = uptr (TApp ClientAsyncWriterInterface [Req]),
       service_type = Svc,
       call_ptr_type = memfn (uptr (TApp ClientAsyncWriterInterface [Req])) Svc
         [client_context_ptr, ptr Resp, cq_ptr, ptr void_t]\<rparr>)"

definition spec_client_server_streaming :: "ty \<times> method_traits" where
  "spec_client_server_streaming =
     (memfn (uptr (TApp ClientAsyncReader [Resp])) Svc
        [client_context_ptr, cref Req, cq_ptr, ptr void_t],
      \<lparr>is_server_side = False, is_client_streaming = False, is_server_streaming = True,
       is_streaming = False \<or> True, rpc_type = ServerStreaming, request_type = Req,
       response_type = Resp, stream_type = uptr (TApp ClientAsyncReader [Resp]), service_type = Svc,
       call_ptr_type = memfn (uptr (TApp ClientAsyncReader [Resp])) Svc
         [client_context_ptr, cref Req, cq_ptr, ptr void_t]\<rparr>)"

definition spec_client_server_streaming_interface :: "ty \<times> method_traits" where
  "spec_client_server_streaming_interface =
     (memfn (uptr (TApp ClientAsyncReaderInterface [Resp])) Svc
        [client_context_ptr, cref Req, cq_ptr, ptr void_t],
      \<lparr>is_server_side = False, is_client_streaming = False, is_server_streaming = True,
       is_streaming = False \<or> True, rpc_type = ServerStreaming, request_type = Req,
       response_type = Resp, stream_type = uptr (TApp ClientAsyncReaderInterface [Resp]),
       service_type = Svc,
       call_ptr_type = memfn (uptr (TApp ClientAsyncReaderInterface [Resp])) Svc
         [client_context_ptr, cref Req, cq_ptr, ptr void_t]\<rparr>)"

definition spec_client_bidi_streaming :: "ty \<times> method_traits" where
  "spec_client_bidi_streaming =
     (memfn (uptr (TApp ClientAsyncReaderWriter [Req, Resp])) Svc
        [client_context_ptr, cq_ptr, ptr void_t],
      \<lparr>is_server_side = False, is_client_streaming = True, is_server_streaming = True,
       is_streaming = True \<or> True, rpc_type = BidiStreaming, request_type = Req,
       response_type = Resp, stream_type = uptr (TApp ClientAsyncReaderWriter [Req, Resp]),
       service_type = Svc,
       call_ptr_type = memfn (uptr (TApp ClientAsyncReaderWriter [Req, Resp])) Svc
         [client_context_ptr, cq_ptr, ptr void_t]\<rparr>)"

definition spec_client_bidi_streaming_interface :: "ty \<times> method_traits" where
  "spec_client_bidi_streaming_interface =
     (memfn (uptr (TApp ClientAsyncReaderWriterInterface [Req, Resp])) Svc
        [client_context_ptr, cq_ptr, ptr void_t],
      \<lparr>is_server_side = False, is_client_streaming = True, is_server_streaming = True,
       is_streaming = True \<or> True, rpc_type = BidiStreaming, request_type = Req,
       response_type = Resp, stream_type = uptr (TApp ClientAsyncReaderWriterInterface [Req, Resp]),
       service_type = Svc,
       call_ptr_type = memfn (uptr (TApp ClientAsyncReaderWriterInterface [Req, Resp])) Svc
         [client_context_ptr, cq_ptr, ptr void_t]\<rparr>)"

definition specialisations :: "(ty \<times> method_traits) list" where
  "specialisations =
     [spec_server_unary, spec_server_client_streaming,
      spec_server_server_streaming, spec_server_bidi_streaming,
      spec_client_unary, spec_client_unary_interface,
      spec_client_client_streaming, spec_client_client_streaming_interface,
      spec_client_server_streaming, spec_client_server_streaming_interface,
      spec_client_bidi_streaming, spec_client_bidi_streaming_interface]"

definition inst_traits :: "subst \<Rightarrow> method_traits \<Rightarrow> method_traits" where
  "inst_traits \<sigma> t =
     t\<lparr>request_type := subst_ty \<sigma> (request_type t), response_type := subst_ty \<sigma> (response_type t),
       stream_type := subst_ty \<sigma> (stream_type t), service_type := subst_ty \<sigma> (service_type t),
       call_ptr_type := subst_ty \<sigma> (call_ptr_type t)\<rparr>"

text \<open>
  \<open>method_traits<FN>\<close>: the primary template is only declared, so a type no specialisation matches
  has no traits, and neither has one that two of them match.
\<close>

definition matching :: "ty \<Rightarrow> (ty \<times> method_traits) list" where
  "matching fn = filter (\<lambda>(p, t). match_ty p fn Map.empty \<noteq> None) specialisations"

definition method_traits_of :: "ty \<Rightarrow> method_traits option" where
  "method_traits_of fn =
     (case matching fn of
        [(p, t)] \<Rightarrow> map_option (\<lambda>\<sigma>. inst_traits \<sigma> t) (match_ty p fn Map.empty)
      | _ \<Rightarrow> None)"

text \<open>\<open>call<FN>\<close> of \<open>call.h\<close>, \<open>std::conditional_t<is_streaming, streaming_call, unary_call>\<close>.\<close>

datatype call_class = StreamingCall | UnaryCall

definition call_alias :: "method_traits \<Rightarrow> call_class" where
  "call_alias t = (if is_streaming t then StreamingCall else UnaryCall)"

section \<open>Matching\<close>

lemma match_extends:
  "match_ty p t \<sigma> = Some \<tau> \<Longrightarrow> \<sigma> \<subseteq>\<^sub>m \<tau> \<and> tvars p \<subseteq> dom \<tau>"
  "match_tys ps ts \<sigma> = Some \<tau> \<Longrightarrow> \<sigma> \<subseteq>\<^sub>m \<tau> \<and> (\<Union>p \<in> set ps. tvars p) \<subseteq> dom \<tau>"
proof (induction p t \<sigma> and ps ts \<sigma> arbitrary: \<tau> and \<tau> rule: match_ty_match_tys.induct)
  case (1 v t \<sigma>)
  then show ?case by (auto simp: map_le_def split: option.splits if_splits)
next
  case (5 p ps t ts \<sigma>)
  then obtain \<rho> where \<rho>: "match_ty p t \<sigma> = Some \<rho>" "match_tys ps ts \<rho> = Some \<tau>"
    by (auto split: option.splits)
  have le: "\<sigma> \<subseteq>\<^sub>m \<rho>" "\<rho> \<subseteq>\<^sub>m \<tau>" and vars: "tvars p \<subseteq> dom \<rho>" "(\<Union>p \<in> set ps. tvars p) \<subseteq> dom \<tau>"
    using 5 \<rho> by blast+
  have "\<sigma> \<subseteq>\<^sub>m \<tau>" using le by (rule map_le_trans)
  moreover have "dom \<rho> \<subseteq> dom \<tau>" using le(2) by (rule map_le_implies_dom_le)
  ultimately show ?case using vars by auto
qed (auto split: if_splits)

lemma subst_mono: "\<sigma> \<subseteq>\<^sub>m \<tau> \<Longrightarrow> tvars p \<subseteq> dom \<sigma> \<Longrightarrow> subst_ty \<tau> p = subst_ty \<sigma> p"
proof (induction p)
  case (TVar v)
  then show ?case by (auto simp: map_le_def dom_def split: option.splits)
next
  case (TApp f ts)
  then show ?case by (simp add: UN_subset_iff)
qed

text \<open>Deduction is sound: the pattern, instantiated, is the type it was matched against.\<close>

lemma match_sound:
  "match_ty p t \<sigma> = Some \<tau> \<Longrightarrow> subst_ty \<tau> p = t"
  "match_tys ps ts \<sigma> = Some \<tau> \<Longrightarrow> map (subst_ty \<tau>) ps = ts"
proof (induction p t \<sigma> and ps ts \<sigma> arbitrary: \<tau> and \<tau> rule: match_ty_match_tys.induct)
  case (5 p ps t ts \<sigma>)
  then obtain \<rho> where \<rho>: "match_ty p t \<sigma> = Some \<rho>" "match_tys ps ts \<rho> = Some \<tau>"
    by (auto split: option.splits)
  have "subst_ty \<tau> p = subst_ty \<rho> p"
    using match_extends(1) [OF \<rho>(1)] match_extends(2) [OF \<rho>(2)] by (blast intro: subst_mono)
  then show ?case using 5 \<rho> by simp
qed (auto split: if_splits option.splits)

lemma clash_subst:
  "clash p q \<Longrightarrow> subst_ty \<sigma> p \<noteq> subst_ty \<tau> q"
  "clash_list ps qs \<Longrightarrow> map (subst_ty \<sigma>) ps \<noteq> map (subst_ty \<tau>) qs"
  by (induction p q and ps qs rule: clash_clash_list.induct) auto

lemma clash_excludes:
  assumes "clash p q" and "match_ty p t \<sigma> = Some \<sigma>'"
  shows "match_ty q t \<tau> = None"
  using assms match_sound(1) clash_subst(1) by (metis not_Some_eq)

fun pairwise_clash :: "ty list \<Rightarrow> bool" where
  "pairwise_clash [] = True"
| "pairwise_clash (p # ps) = (list_all (clash p) ps \<and> pairwise_clash ps)"

lemma pairwise_clash_unique:
  "pairwise_clash (map fst ss) \<Longrightarrow> length (filter (\<lambda>(p, t). match_ty p fn \<sigma> \<noteq> None) ss) \<le> 1"
proof (induction ss)
  case (Cons s ss)
  show ?case
  proof (cases "match_ty (fst s) fn \<sigma>")
    case None
    with Cons show ?thesis by (auto split: prod.splits)
  next
    case (Some \<tau>)
    have "match_ty p fn \<sigma> = None" if "(p, t) \<in> set ss" for p t
      using Cons.prems that Some by (force simp: list_all_iff intro: clash_excludes)
    then have "filter (\<lambda>(p, t). match_ty p fn \<sigma> \<noteq> None) ss = []"
      by (auto simp: filter_empty_conv)
    then show ?thesis by (simp split: prod.splits)
  qed
qed simp

lemmas spec_defs =
  spec_server_unary_def spec_server_client_streaming_def
  spec_server_server_streaming_def spec_server_bidi_streaming_def
  spec_client_unary_def spec_client_unary_interface_def
  spec_client_client_streaming_def spec_client_client_streaming_interface_def
  spec_client_server_streaming_def spec_client_server_streaming_interface_def
  spec_client_bidi_streaming_def spec_client_bidi_streaming_interface_def

lemmas traits_record_defs =
  stream_traits.defs method_traits.defs server_stream_traits_def Let_def

lemma specialisations_clash: "pairwise_clash (map fst specialisations)"
  by (simp add: specialisations_def spec_defs)

lemma matching_at_most_one: "length (matching fn) \<le> 1"
  unfolding matching_def by (rule pairwise_clash_unique [OF specialisations_clash])

lemma method_traits_of_iff:
  "method_traits_of fn = Some tr \<longleftrightarrow>
     (\<exists>p t \<sigma>. (p, t) \<in> set specialisations \<and> match_ty p fn Map.empty = Some \<sigma> \<and> tr = inst_traits \<sigma> t)"
  (is "?L \<longleftrightarrow> ?R")
proof
  assume ?L
  then obtain p t where m: "matching fn = [(p, t)]"
      and "map_option (\<lambda>\<sigma>. inst_traits \<sigma> t) (match_ty p fn Map.empty) = Some tr"
    by (auto simp: method_traits_of_def split: list.splits prod.splits)
  moreover have "(p, t) \<in> set (matching fn)" by (simp add: m)
  then have "(p, t) \<in> set specialisations" by (simp add: matching_def)
  ultimately show ?R by auto
next
  assume ?R
  then obtain p t \<sigma> where s: "(p, t) \<in> set specialisations" "match_ty p fn Map.empty = Some \<sigma>"
      "tr = inst_traits \<sigma> t" by blast
  then have "(p, t) \<in> set (matching fn)" by (simp add: matching_def)
  with matching_at_most_one [of fn] have "matching fn = [(p, t)]"
    by (cases "matching fn") auto
  with s show ?L by (simp add: method_traits_of_def)
qed

section \<open>Properties\<close>

text \<open>
The specialisations of \<open>method_traits\<close> are unambiguous: no type of a generated method, or any
other type, is matched by two of them, so \<open>method_traits<decltype(FN)>\<close> never fails to compile for
being ambiguous.
\<close>

theorem method_traits_unambiguous:
  "length (matching fn) \<le> 1 \<and> (method_traits_of fn = None \<longleftrightarrow> matching fn = [])"
proof
  show "length (matching fn) \<le> 1" by (rule matching_at_most_one)
  show "method_traits_of fn = None \<longleftrightarrow> matching fn = []"
  proof
    assume "method_traits_of fn = None"
    then have "match_ty p fn Map.empty = None" if "(p, t) \<in> set specialisations" for p t
      using that method_traits_of_iff [of fn] by (metis not_Some_eq)
    then show "matching fn = []" by (auto simp: matching_def filter_empty_conv)
  qed (simp add: method_traits_of_def)
qed

lemma specialisation_call_ptr: "(p, t) \<in> set specialisations \<Longrightarrow> call_ptr_type t = p"
  by (auto simp: specialisations_def spec_defs traits_record_defs)

text \<open>
The member-pointer type every specialisation writes out again as \<open>call_ptr_type\<close> is the very type
the traits were asked for: deducing the template parameters of a method and substituting them back
gives the method's type.
\<close>

theorem call_ptr_type_roundtrip:
  assumes "method_traits_of fn = Some tr"
  shows "call_ptr_type tr = fn"
  using assms
  by (auto simp: method_traits_of_iff inst_traits_def specialisation_call_ptr match_sound)

definition stub_unary :: ty where
  "stub_unary = memfn (uptr (TApp ClientAsyncResponseReader [TApp (UserType ''Resp'') []]))
     (TApp (UserType ''Stub'') []) [client_context_ptr, cref (TApp (UserType ''Req'') []), cq_ptr]"

lemma stub_unary_traits: "\<exists>tr. method_traits_of stub_unary = Some tr"
  unfolding method_traits_of_iff
  by (rule exI, rule exI [of _ "fst spec_client_unary"], rule exI [of _ "snd spec_client_unary"])
     (simp add: specialisations_def spec_client_unary_def stub_unary_def)

theorem call_ptr_type_roundtrip_witness:
  "\<exists>tr. method_traits_of stub_unary = Some tr \<and> call_ptr_type tr = stub_unary"
proof -
  obtain tr where h: "method_traits_of stub_unary = Some tr" using stub_unary_traits by blast
  show ?thesis using h call_ptr_type_roundtrip [OF h] by blast
qed

definition consistent_flags :: "method_traits \<Rightarrow> bool" where
  "consistent_flags t \<longleftrightarrow>
     (is_client_streaming t \<longleftrightarrow> rpc_type t \<in> {ClientStreaming, BidiStreaming}) \<and>
     (is_server_streaming t \<longleftrightarrow> rpc_type t \<in> {ServerStreaming, BidiStreaming}) \<and>
     (is_streaming t \<longleftrightarrow> rpc_type t \<noteq> Unary)"

lemma specialisations_consistent: "(p, t) \<in> set specialisations \<Longrightarrow> consistent_flags t"
  by (auto simp: specialisations_def spec_defs traits_record_defs consistent_flags_def)

text \<open>
The booleans the client specialisations write out by hand agree with the ones the server base
class computes from the method kind, for every method that has traits; so \<open>call\<close> selects
\<open>unary_call\<close> for exactly the unary methods.
\<close>

theorem method_traits_flags_consistent:
  assumes "method_traits_of fn = Some tr"
  shows "(is_client_streaming tr \<longleftrightarrow> rpc_type tr \<in> {ClientStreaming, BidiStreaming}) \<and>
         (is_server_streaming tr \<longleftrightarrow> rpc_type tr \<in> {ServerStreaming, BidiStreaming}) \<and>
         (call_alias tr = UnaryCall \<longleftrightarrow> rpc_type tr = Unary)"
proof -
  obtain p t \<sigma> where "(p, t) \<in> set specialisations" and tr: "tr = inst_traits \<sigma> t"
    using assms by (auto simp: method_traits_of_iff)
  then have "consistent_flags t" by (blast dest: specialisations_consistent)
  with tr show ?thesis by (auto simp: consistent_flags_def inst_traits_def call_alias_def)
qed

theorem method_traits_flags_consistent_witness:
  "\<exists>tr. method_traits_of stub_unary = Some tr \<and>
        (call_alias tr = UnaryCall \<longleftrightarrow> rpc_type tr = Unary)"
proof -
  obtain tr where h: "method_traits_of stub_unary = Some tr" using stub_unary_traits by blast
  show ?thesis using h method_traits_flags_consistent [OF h] by blast
qed

text \<open>The specialisation for each kind of method of a service, a stub and its mockable interface.\<close>

fun service_spec :: "rpc_method_type \<Rightarrow> ty \<times> method_traits" where
  "service_spec Unary = spec_server_unary"
| "service_spec ClientStreaming = spec_server_client_streaming"
| "service_spec ServerStreaming = spec_server_server_streaming"
| "service_spec BidiStreaming = spec_server_bidi_streaming"

fun stub_spec :: "rpc_method_type \<Rightarrow> ty \<times> method_traits" where
  "stub_spec Unary = spec_client_unary"
| "stub_spec ClientStreaming = spec_client_client_streaming"
| "stub_spec ServerStreaming = spec_client_server_streaming"
| "stub_spec BidiStreaming = spec_client_bidi_streaming"

fun stub_interface_spec :: "rpc_method_type \<Rightarrow> ty \<times> method_traits" where
  "stub_interface_spec Unary = spec_client_unary_interface"
| "stub_interface_spec ClientStreaming = spec_client_client_streaming_interface"
| "stub_interface_spec ServerStreaming = spec_client_server_streaming_interface"
| "stub_interface_spec BidiStreaming = spec_client_bidi_streaming_interface"

text \<open>
  The methods the gRPC plugin of the protocol compiler documents for a method of kind \<open>k\<close>, written out from
  that documentation and not from the header: \<open>RequestX\<close> of the asynchronous service, \<open>AsyncX\<close> of the stub and
  \<open>AsyncX\<close> of the stub interface, which a mock implements.
\<close>

fun service_sig :: "rpc_method_type \<Rightarrow> ty \<Rightarrow> ty \<Rightarrow> ty \<Rightarrow> ty" where
  "service_sig Unary svc req resp = memfn void_t svc
     [server_context_ptr, ptr req, ptr (TApp ServerAsyncResponseWriter [resp]), cq_ptr, server_cq_ptr, ptr void_t]"
| "service_sig ClientStreaming svc req resp = memfn void_t svc
     [server_context_ptr, ptr (TApp ServerAsyncReader [resp, req]), cq_ptr, server_cq_ptr, ptr void_t]"
| "service_sig ServerStreaming svc req resp = memfn void_t svc
     [server_context_ptr, ptr req, ptr (TApp ServerAsyncWriter [resp]), cq_ptr, server_cq_ptr, ptr void_t]"
| "service_sig BidiStreaming svc req resp = memfn void_t svc
     [server_context_ptr, ptr (TApp ServerAsyncReaderWriter [resp, req]), cq_ptr, server_cq_ptr, ptr void_t]"

fun stub_sig :: "rpc_method_type \<Rightarrow> ty \<Rightarrow> ty \<Rightarrow> ty \<Rightarrow> ty" where
  "stub_sig Unary svc req resp = memfn (uptr (TApp ClientAsyncResponseReader [resp])) svc
     [client_context_ptr, cref req, cq_ptr]"
| "stub_sig ClientStreaming svc req resp = memfn (uptr (TApp ClientAsyncWriter [req])) svc
     [client_context_ptr, ptr resp, cq_ptr, ptr void_t]"
| "stub_sig ServerStreaming svc req resp = memfn (uptr (TApp ClientAsyncReader [resp])) svc
     [client_context_ptr, cref req, cq_ptr, ptr void_t]"
| "stub_sig BidiStreaming svc req resp = memfn (uptr (TApp ClientAsyncReaderWriter [req, resp])) svc
     [client_context_ptr, cq_ptr, ptr void_t]"

fun stub_interface_sig :: "rpc_method_type \<Rightarrow> ty \<Rightarrow> ty \<Rightarrow> ty \<Rightarrow> ty" where
  "stub_interface_sig Unary svc req resp = memfn (uptr (TApp ClientAsyncResponseReaderInterface [resp])) svc
     [client_context_ptr, cref req, cq_ptr]"
| "stub_interface_sig ClientStreaming svc req resp = memfn (uptr (TApp ClientAsyncWriterInterface [req])) svc
     [client_context_ptr, ptr resp, cq_ptr, ptr void_t]"
| "stub_interface_sig ServerStreaming svc req resp = memfn (uptr (TApp ClientAsyncReaderInterface [resp])) svc
     [client_context_ptr, cref req, cq_ptr, ptr void_t]"
| "stub_interface_sig BidiStreaming svc req resp = memfn (uptr (TApp ClientAsyncReaderWriterInterface [req, resp])) svc
     [client_context_ptr, cq_ptr, ptr void_t]"

text \<open>A specialisation is selected for each of its instances.\<close>

definition params :: "ty \<Rightarrow> ty \<Rightarrow> ty \<Rightarrow> subst" where
  "params svc req resp = [TService \<mapsto> svc, TRequest \<mapsto> req, TResponse \<mapsto> resp]"

lemma specialisation_matches_instance:
  "(p, t) \<in> set specialisations \<Longrightarrow>
     \<exists>\<tau>. match_ty p (subst_ty (params svc req resp) p) Map.empty = Some \<tau> \<and>
         inst_traits \<tau> t = inst_traits (params svc req resp) t"
  by (auto simp: specialisations_def spec_defs traits_record_defs inst_traits_def params_def)

lemma traits_of_instance:
  assumes "s \<in> set specialisations"
  shows "method_traits_of (subst_ty (params svc req resp) (fst s)) =
     Some (inst_traits (params svc req resp) (snd s))"
  using assms specialisation_matches_instance [of "fst s" "snd s"]
  by (metis method_traits_of_iff prod.collapse)

text \<open>The header's patterns, instantiated, are the documented types.\<close>

lemma sig_instances:
  "service_sig k svc req resp = subst_ty (params svc req resp) (fst (service_spec k))"
  "stub_sig k svc req resp = subst_ty (params svc req resp) (fst (stub_spec k))"
  "stub_interface_sig k svc req resp = subst_ty (params svc req resp) (fst (stub_interface_spec k))"
  by (cases k; simp add: spec_defs params_def)+

lemma sig_traits:
  "method_traits_of (service_sig k svc req resp) =
     Some (inst_traits (params svc req resp) (snd (service_spec k)))"
  "method_traits_of (stub_sig k svc req resp) =
     Some (inst_traits (params svc req resp) (snd (stub_spec k)))"
  "method_traits_of (stub_interface_sig k svc req resp) =
     Some (inst_traits (params svc req resp) (snd (stub_interface_spec k)))"
  unfolding sig_instances
  by (rule traits_of_instance, cases k, simp_all add: specialisations_def)+

lemma instance_types [simp]:
  "rpc_type (inst_traits (params svc req resp) t) = rpc_type t"
  "is_server_side (inst_traits (params svc req resp) t) = is_server_side t"
  "service_type t = Svc \<Longrightarrow> service_type (inst_traits (params svc req resp) t) = svc"
  "request_type t = Req \<Longrightarrow> request_type (inst_traits (params svc req resp) t) = req"
  "response_type t = Resp \<Longrightarrow> response_type (inst_traits (params svc req resp) t) = resp"
  "stream_type (inst_traits (params svc req resp) t) = subst_ty (params svc req resp) (stream_type t)"
  by (simp_all add: inst_traits_def params_def)

lemma spec_of_kind:
  "s \<in> {service_spec k, stub_spec k, stub_interface_spec k} \<Longrightarrow>
     rpc_type (snd s) = k \<and> service_type (snd s) = Svc \<and> request_type (snd s) = Req \<and>
     response_type (snd s) = Resp"
  "is_server_side (snd (service_spec k))"
  "\<not> is_server_side (snd (stub_spec k))" "\<not> is_server_side (snd (stub_interface_spec k))"
  by (cases k; auto simp: spec_defs traits_record_defs)+

lemmas kind_of_spec = spec_of_kind(1) [OF insertI1]
  spec_of_kind(1) [OF insertI2, OF insertI1] spec_of_kind(1) [OF insertI2, OF insertI2, OF singletonI]

definition recovers :: "rpc_method_type \<Rightarrow> ty \<Rightarrow> ty \<Rightarrow> ty \<Rightarrow> method_traits \<Rightarrow> bool" where
  "recovers k svc req resp tr \<longleftrightarrow>
     rpc_type tr = k \<and> service_type tr = svc \<and> request_type tr = req \<and> response_type tr = resp"

fun result_type :: "ty \<Rightarrow> ty" where
  "result_type (TApp MemFn (r # c # ps)) = r"
| "result_type t = t"

fun param_types :: "ty \<Rightarrow> ty list" where
  "param_types (TApp MemFn (r # c # ps)) = ps"
| "param_types t = []"

text \<open>The object a service's method fills in, and the one a stub's method returns.\<close>

lemma spec_streams:
  "stream_type (snd (service_spec k)) = (case k of
     Unary \<Rightarrow> TApp ServerAsyncResponseWriter [Resp] | ClientStreaming \<Rightarrow> TApp ServerAsyncReader [Resp, Req]
   | ServerStreaming \<Rightarrow> TApp ServerAsyncWriter [Resp] | BidiStreaming \<Rightarrow> TApp ServerAsyncReaderWriter [Resp, Req])"
  "stream_type (snd (stub_spec k)) = result_type (fst (stub_spec k))"
  "stream_type (snd (stub_interface_spec k)) = result_type (fst (stub_interface_spec k))"
  by (cases k; simp add: spec_defs traits_record_defs)+

lemma result_type_instance: "result_type (subst_ty \<sigma> (memfn r c ps)) = subst_ty \<sigma> (result_type (memfn r c ps))"
  by simp

lemma stub_memfn: "\<exists>r c ps. fst (stub_spec k) = memfn r c ps" "\<exists>r c ps. fst (stub_interface_spec k) = memfn r c ps"
  by (cases k; simp add: spec_defs)+

lemma sig_streams:
  "ptr (stream_type (inst_traits (params svc req resp) (snd (service_spec k)))) \<in> set (param_types (service_sig k svc req resp))"
  "stream_type (inst_traits (params svc req resp) (snd (stub_spec k))) = result_type (stub_sig k svc req resp)"
  "stream_type (inst_traits (params svc req resp) (snd (stub_interface_spec k))) = result_type (stub_interface_sig k svc req resp)"
proof -
  show "ptr (stream_type (inst_traits (params svc req resp) (snd (service_spec k)))) \<in> set (param_types (service_sig k svc req resp))"
    unfolding instance_types(6) spec_streams(1) by (cases k) (simp_all add: params_def)
  show "stream_type (inst_traits (params svc req resp) (snd (stub_spec k))) = result_type (stub_sig k svc req resp)"
    unfolding instance_types(6) spec_streams(2) sig_instances using stub_memfn(1) [of k] result_type_instance by metis
  show "stream_type (inst_traits (params svc req resp) (snd (stub_interface_spec k))) = result_type (stub_interface_sig k svc req resp)"
    unfolding instance_types(6) spec_streams(3) sig_instances using stub_memfn(2) [of k] result_type_instance by metis
qed

text \<open>What a specialisation matches is one of the documented types.\<close>

lemma matched_sig:
  assumes "s \<in> set specialisations"
  shows "\<exists>k. subst_ty \<sigma> (fst s) \<in> {service_sig k (subst_ty \<sigma> Svc) (subst_ty \<sigma> Req) (subst_ty \<sigma> Resp),
    stub_sig k (subst_ty \<sigma> Svc) (subst_ty \<sigma> Req) (subst_ty \<sigma> Resp),
    stub_interface_sig k (subst_ty \<sigma> Svc) (subst_ty \<sigma> Req) (subst_ty \<sigma> Resp)}"
proof -
  have "specialisations = [service_spec Unary, service_spec ClientStreaming, service_spec ServerStreaming,
      service_spec BidiStreaming, stub_spec Unary, stub_interface_spec Unary, stub_spec ClientStreaming,
      stub_interface_spec ClientStreaming, stub_spec ServerStreaming, stub_interface_spec ServerStreaming,
      stub_spec BidiStreaming, stub_interface_spec BidiStreaming]"
    by (simp add: specialisations_def)
  then have "\<exists>k. s \<in> {service_spec k, stub_spec k, stub_interface_spec k}"
    using assms unfolding \<open>specialisations = _\<close> list.set insert_iff empty_iff by blast
  then obtain k where "s \<in> {service_spec k, stub_spec k, stub_interface_spec k}" by blast
  then have "subst_ty \<sigma> (fst s) \<in> {service_sig k (subst_ty \<sigma> Svc) (subst_ty \<sigma> Req) (subst_ty \<sigma> Resp),
      stub_sig k (subst_ty \<sigma> Svc) (subst_ty \<sigma> Req) (subst_ty \<sigma> Resp),
      stub_interface_sig k (subst_ty \<sigma> Svc) (subst_ty \<sigma> Req) (subst_ty \<sigma> Resp)}"
    by (cases k) (auto simp: spec_defs)
  then show ?thesis by blast
qed

text \<open>
C40: the traits are defined for exactly the methods that the protocol compiler is documented to generate,
for asynchronous services, stubs and stub interfaces, and recover from each of them the kind, the side, the
three types and the stream: the object a service's method takes a pointer to, or the one a stub's method
returns. A mock of the interface is called through the same wrapper as the real stub.
\<close>

theorem method_traits_complete:
  "((\<exists>tr. method_traits_of fn = Some tr) \<longleftrightarrow>
      (\<exists>k svc req resp. fn \<in> {service_sig k svc req resp, stub_sig k svc req resp, stub_interface_sig k svc req resp})) \<and>
   (\<exists>srv stub iface.
     method_traits_of (service_sig k svc req resp) = Some srv \<and>
     method_traits_of (stub_sig k svc req resp) = Some stub \<and>
     method_traits_of (stub_interface_sig k svc req resp) = Some iface \<and>
     is_server_side srv \<and> \<not> is_server_side stub \<and> \<not> is_server_side iface \<and>
     recovers k svc req resp srv \<and> recovers k svc req resp stub \<and> recovers k svc req resp iface \<and>
     ptr (stream_type srv) \<in> set (param_types (service_sig k svc req resp)) \<and>
     stream_type stub = result_type (stub_sig k svc req resp) \<and>
     stream_type iface = result_type (stub_interface_sig k svc req resp))"
proof (rule conjI)
  show "(\<exists>tr. method_traits_of fn = Some tr) \<longleftrightarrow>
      (\<exists>k svc req resp. fn \<in> {service_sig k svc req resp, stub_sig k svc req resp, stub_interface_sig k svc req resp})"
    (is "?L \<longleftrightarrow> ?R")
  proof
    assume ?L
    then obtain p t \<sigma> where s: "(p, t) \<in> set specialisations" and m: "match_ty p fn Map.empty = Some \<sigma>"
      by (auto simp: method_traits_of_iff)
    have "subst_ty \<sigma> (fst (p, t)) = fn" using match_sound(1) [OF m] by simp
    with matched_sig [OF s, of \<sigma>] show ?R by metis
  qed (auto simp: sig_traits)
qed (simp add: sig_traits sig_streams spec_of_kind(2-) kind_of_spec recovers_def del: instance_types(6))

end
