(* ===== verification/Dispatch_Loop.thy ===== *)
theory Dispatch_Loop
  imports Prelude
begin

text \<open>
  How a completion reaches the object that asked for it: \<open>calldata_interface.h\<close>, the pointer tags
  of the \<open>asyncpp\<close> library and the two loops that drain a completion queue, in \<open>server.cpp\<close> and
  \<open>client_cq.cpp\<close>. The tag functions and the virtual \<open>handle_event\<close> of the objects are parameters.
\<close>

section \<open>Tagged pointers\<close>

text \<open>
  The contract of \<open>asyncpp::ptr_tag\<close> and \<open>ptr_untag\<close> the code relies on. An object that can be
  tagged (\<open>taggable\<close>) has room for the indices below \<open>n_tags\<close>; a tagged pointer gives back both
  parts. The code also passes plain pointers (\<open>this\<close>, converted to \<open>void*\<close>) where the index is 0.
\<close>

locale tagged_pointers =
  fixes ptr_tag :: "nat \<Rightarrow> 'p \<Rightarrow> 'tag"
    and as_void :: "'p \<Rightarrow> 'tag"
    and ptr_untag :: "'tag \<Rightarrow> 'p option \<times> nat"
    and taggable :: "'p \<Rightarrow> bool"
    and n_tags :: nat
  assumes untag_tag: "taggable p \<Longrightarrow> i < n_tags \<Longrightarrow> ptr_untag (ptr_tag i p) = (Some p, i)"
    and plain_is_index_0: "taggable p \<Longrightarrow> as_void p = ptr_tag 0 p"
    and two_tags: "2 \<le> n_tags"
begin

lemma untag_plain: "taggable p \<Longrightarrow> ptr_untag (as_void p) = (Some p, 0)"
  using two_tags by (simp add: plain_is_index_0 untag_tag)

lemma ptr_tag_inj:
  "taggable p \<Longrightarrow> taggable q \<Longrightarrow> i < n_tags \<Longrightarrow> j < n_tags \<Longrightarrow>
     ptr_tag i p = ptr_tag j q \<longleftrightarrow> i = j \<and> p = q"
  by (metis untag_tag option.inject prod.inject)

end

section \<open>The loops\<close>

text \<open>
  \<open>cq->Next(&tag, &ok)\<close> is the environment: the list holds the results it delivers before it
  returns false, which it does only once the queue is shut down and drained. \<open>handle p idx ok\<close> is
  the call \<open>p->handle_event(idx, ok)\<close> as a transformation of the program's state.
\<close>

type_synonym ('p, 's) handlers = "'p \<Rightarrow> nat \<Rightarrow> bool \<Rightarrow> 's \<Rightarrow> 's"

fun server_event_loop ::
  "('tag \<Rightarrow> 'p option \<times> nat) \<Rightarrow> ('p, 's) handlers \<Rightarrow> ('tag \<times> bool) list \<Rightarrow> 's \<Rightarrow> 's" where
  "server_event_loop ptr_untag handle [] s = s"
| "server_event_loop ptr_untag handle ((tag, ok) # next) s =
     (case ptr_untag tag of (i, t) \<Rightarrow>
        server_event_loop ptr_untag handle next
          (case i of None \<Rightarrow> s | Some p \<Rightarrow> handle p t ok s))"

fun client_event_loop ::
  "('tag \<Rightarrow> 'p option \<times> nat) \<Rightarrow> ('p, 's) handlers \<Rightarrow> ('tag \<times> bool) list \<Rightarrow> 's \<Rightarrow> 's" where
  "client_event_loop ptr_untag handle [] s = s"
| "client_event_loop ptr_untag handle ((tag, ok) # next) s =
     (case ptr_untag tag of
        (None, t) \<Rightarrow> client_event_loop ptr_untag handle next s
      | (Some i, t) \<Rightarrow> client_event_loop ptr_untag handle next (handle i t ok s))"

text \<open>A completion: the object and index the operation was issued with, and its outcome.\<close>

type_synonym 'p completion = "'p \<times> nat \<times> bool"

definition tag_of :: "(nat \<Rightarrow> 'p \<Rightarrow> 'tag) \<Rightarrow> 'p completion \<Rightarrow> 'tag \<times> bool" where
  "tag_of ptr_tag c = (case c of (p, i, ok) \<Rightarrow> (ptr_tag i p, ok))"

definition run_handlers :: "('p, 's) handlers \<Rightarrow> 'p completion list \<Rightarrow> 's \<Rightarrow> 's" where
  "run_handlers handle cs s = fold (\<lambda>(p, i, ok). handle p i ok) cs s"

lemma loops_equal: "client_event_loop u h evs s = server_event_loop u h evs s"
  by (induction evs arbitrary: s) (auto split: prod.splits option.splits)

context tagged_pointers
begin

lemma server_loop_dispatches:
  "\<forall>(p, i, ok) \<in> set cs. taggable p \<and> i < n_tags \<Longrightarrow>
     server_event_loop ptr_untag handle (map (tag_of ptr_tag) cs) s = run_handlers handle cs s"
  by (induction cs arbitrary: s) (auto simp: tag_of_def run_handlers_def untag_tag)

end

section \<open>An instance on 64-bit addresses\<close>

text \<open>
  The contract can be met on the machine: objects are aligned to eight bytes and the index is kept
  in the three low bits of the address; the null address gives no object.
\<close>

definition word_tag :: "nat \<Rightarrow> 64 word \<Rightarrow> 64 word" where
  "word_tag i p = p + word_of_nat i"

definition word_untag :: "64 word \<Rightarrow> 64 word option \<times> nat" where
  "word_untag t =
     (let p = t - t mod 8 in (if p = 0 then None else Some p, unat (t mod 8)))"

definition word_taggable :: "64 word \<Rightarrow> bool" where
  "word_taggable p \<longleftrightarrow> p \<noteq> 0 \<and> p mod 8 = 0"

lemma unat_word_tag:
  assumes "p mod 8 = 0" and "i < 8"
  shows "unat (word_tag i p) = unat p + i"
proof -
  have "unat p mod 8 = unat (p mod 8)" by (simp add: unat_mod)
  then have "unat p mod 8 = 0" using assms(1) by simp
  moreover have "unat p < 2 ^ 64" using unsigned_less [where w = p] by simp
  ultimately have "unat p + i < 2 ^ 64" using assms(2) by (simp add: mod_eq_0_iff_dvd) presburger
  moreover have "unat (word_of_nat i :: 64 word) = i"
    using assms(2) by (simp add: unat_of_nat)
  ultimately show ?thesis by (simp add: word_tag_def unat_word_ariths)
qed

lemma word_untag_tag:
  assumes "word_taggable p" and "i < 8"
  shows "word_untag (word_tag i p) = (Some p, i)"
proof -
  have p: "p mod 8 = 0" "p \<noteq> 0" using assms(1) by (simp_all add: word_taggable_def)
  have "unat p mod 8 = 0" using p(1) unat_mod [of p 8] by simp
  then have "(unat p + i) mod 8 = i" using assms(2) by presburger
  then have idx: "unat (word_tag i p mod 8) = i"
    by (simp add: unat_mod unat_word_tag [OF p(1) assms(2)])
  then have "word_tag i p mod 8 = word_of_nat i" by (metis of_nat_unat ucast_id)
  then have "word_tag i p - word_tag i p mod 8 = p" by (simp add: word_tag_def)
  with idx p(2) show ?thesis by (simp add: word_untag_def Let_def)
qed

interpretation word_tags: tagged_pointers word_tag "word_tag 0" word_untag word_taggable 8
  by unfold_locales (simp_all add: word_untag_tag)

section \<open>Properties\<close>

text \<open>
  The worker loops of the server and of the client queue treat every sequence of completions in
  the same way, null tags included, although one tests the pointer and the other skips the round.
\<close>

lemma event_loops_agree:
  "client_event_loop ptr_untag handle evs s = server_event_loop ptr_untag handle evs s"
  by (rule loops_equal)

text \<open>
Every completion reaches the object that issued the operation: for the events of operations
issued with \<open>ptr_tag<i>(p)\<close>, a loop runs exactly the calls \<open>p->handle_event(i, ok)\<close>, in the order the
queue delivers them, once each.
\<close>

theorem event_loop_dispatches:
  assumes "tagged_pointers ptr_tag as_void ptr_untag taggable n_tags"
    and "\<forall>(p, i, ok) \<in> set cs. taggable p \<and> i < n_tags"
  shows "server_event_loop ptr_untag handle (map (tag_of ptr_tag) cs) s =
         fold (\<lambda>(p, i, ok). handle p i ok) cs s"
  using tagged_pointers.server_loop_dispatches [OF assms] by (simp add: run_handlers_def)

theorem event_loop_dispatches_witness:
  "server_event_loop word_untag (\<lambda>p i ok log. log @ [(p, i, ok)])
     (map (tag_of word_tag) [(64, 1, True), (128, 0, False)]) [] =
     [(64, 1, True), (128, 0, False)]"
proof -
  have "\<forall>(p, i, ok) \<in> set [(64 :: 64 word, 1, True), (128, 0, False)]. word_taggable p \<and> i < (8::nat)"
    by (simp add: word_taggable_def)
  from event_loop_dispatches [OF word_tags.tagged_pointers_axioms this,
      of "\<lambda>p i ok log. log @ [(p, i, ok)]" "[]"]
  show ?thesis by simp
qed

end
