(* ===== verification/Current_Dispatcher.thy ===== *)
theory Current_Dispatcher
  imports Dispatch_Loop
begin

text \<open>
  The dispatcher registered for the current thread on the workers of a server and of a client queue
  (\<open>src/grpc/server.cpp\<close>, \<open>src/grpc/client_cq.cpp\<close>): the thread functions around their loops.
\<close>

section \<open>The thread functions\<close>

text \<open>
  \<open>dispatcher::current()\<close> is a variable of the thread, null when the thread starts; \<open>'s\<close> is all other state.
  \<open>comes_online\<close> stands for the counter of the workers that are online, which the theory of the worker
  threads models.
\<close>

record ('d, 's) worker_thread =
  current :: "'d option"
  rest :: 's

definition set_current :: "'d option \<Rightarrow> ('d, 's) worker_thread \<Rightarrow> ('d, 's) worker_thread" where
  "set_current d th = th\<lparr>current := d\<rparr>"

definition server_thread ::
  "('t \<Rightarrow> 'p option \<times> nat) \<Rightarrow> ('p \<Rightarrow> nat \<Rightarrow> bool \<Rightarrow> ('d, 's) worker_thread \<Rightarrow> ('d, 's) worker_thread) \<Rightarrow>
     ('i \<Rightarrow> ('d, 's) worker_thread \<Rightarrow> ('d, 's) worker_thread) \<Rightarrow> ('s \<Rightarrow> 's) \<Rightarrow> 'd \<Rightarrow> 'i list \<Rightarrow>
     ('t \<times> bool) list \<Rightarrow> ('d, 's) worker_thread \<Rightarrow> ('d, 's) worker_thread" where
  "server_thread untag handle initialise comes_online this inits evs th =
     (let th = set_current (Some this) th;
          th = fold initialise inits th;
          th = th\<lparr>rest := comes_online (rest th)\<rparr>;
          th = server_event_loop untag handle evs th
      in set_current None th)"

text \<open>The worker of a client queue does not register the queue, though that is a dispatcher as well.\<close>

definition client_thread ::
  "('t \<Rightarrow> 'p option \<times> nat) \<Rightarrow> ('p \<Rightarrow> nat \<Rightarrow> bool \<Rightarrow> ('d, 's) worker_thread \<Rightarrow> ('d, 's) worker_thread) \<Rightarrow>
     ('t \<times> bool) list \<Rightarrow> ('d, 's) worker_thread \<Rightarrow> ('d, 's) worker_thread" where
  "client_thread untag handle evs th = client_event_loop untag handle evs th"

section \<open>What runs on a worker sees its dispatcher\<close>

text \<open>User code that reads the variable and leaves it as it found it.\<close>

definition reads_current ::
  "('d option \<Rightarrow> 'e \<Rightarrow> 's \<Rightarrow> 's) \<Rightarrow> 'e \<Rightarrow> ('d, 's) worker_thread \<Rightarrow> ('d, 's) worker_thread" where
  "reads_current f e th = th\<lparr>rest := f (current th) e (rest th)\<rparr>"

lemma fold_reads_current:
  "fold (reads_current f) es th = th\<lparr>rest := fold (f (current th)) es (rest th)\<rparr>"
  by (induction es arbitrary: th) (simp_all add: reads_current_def)

lemma loop_reads_current:
  "server_event_loop untag (\<lambda>p i ok. reads_current f (p, i, ok)) evs th =
     th\<lparr>rest := server_event_loop untag (\<lambda>p i ok. f (current th) (p, i, ok)) evs (rest th)\<rparr>"
  by (induction evs arbitrary: th)
     (auto simp: reads_current_def split: prod.split option.split)

text \<open>
  Everything on the worker of a server, the initializers and the handlers, runs with the server as its
  current dispatcher, which is unset again at the end; on the worker of a client queue nothing is
  registered, so that a handler sees what the thread started with, which is nothing.
\<close>

lemma current_on_workers:
  "rest (server_thread untag (\<lambda>p i ok. reads_current f (p, i, ok)) (reads_current g) comes_online this inits evs th) =
     server_event_loop untag (\<lambda>p i ok. f (Some this) (p, i, ok)) evs (comes_online (fold (g (Some this)) inits (rest th)))"
  "current (server_thread untag (\<lambda>p i ok. reads_current f (p, i, ok)) (reads_current g) comes_online this inits evs th) = None"
  "client_thread untag (\<lambda>p i ok. reads_current f (p, i, ok)) evs th =
     th\<lparr>rest := client_event_loop untag (\<lambda>p i ok. f (current th) (p, i, ok)) evs (rest th)\<rparr>"
  by (simp_all add: server_thread_def client_thread_def set_current_def fold_reads_current loop_reads_current
      event_loops_agree Let_def)

end
