(* ===== verification/Awaiters.thy ===== *)
theory Awaiters
  imports Prelude
begin

text \<open>
  The protocol of an awaiter for one asynchronous operation, as an interface, and
  \<open>grpc_generic_method_awaiter\<close> of \<open>generic_method_awaiter.h\<close>, which provides it for any method.
\<close>

section \<open>The interface of a single-operation awaiter\<close>

text \<open>
  \<open>await_suspend h\<close> stores the handle of the suspended coroutine, may run hooks, and issues one
  operation that carries the awaiter's tag, as its last action: the completion may run on another
  thread before \<open>await_suspend\<close> returns. The runtime may then write into the awaiter's message
  (\<open>store\<close>). \<open>handle_event\<close> records the outcome, may run hooks and resumes the stored handle, again
  as its last action, since that may end the life of the awaiter; \<open>await_resume\<close> is the outcome.
\<close>

locale single_shot =
  fixes can_issue :: "'a \<Rightarrow> bool"
    and await_suspend :: "coro_handle \<Rightarrow> 'a \<Rightarrow> ub + 'a \<times> ('op, 'hook) eff list"
    and store :: "'m \<Rightarrow> 'a \<Rightarrow> 'a"
    and handle_event :: "bool \<Rightarrow> 'a \<Rightarrow> ub + 'a \<times> ('op, 'hook) eff list"
    and await_resume :: "'a \<Rightarrow> ub + bool"
    and own_op :: "'op \<Rightarrow> bool"
    and armed :: "coro_handle \<Rightarrow> 'a \<Rightarrow> bool"
  assumes suspend_issues: "can_issue a \<Longrightarrow> \<exists>a' hs op.
      await_suspend h a = Inr (a', map RunHook hs @ [Issue op]) \<and> own_op op \<and> armed h a'"
    and store_armed: "armed h a \<Longrightarrow> armed h (store m a)"
    and event_resumes: "armed h a \<Longrightarrow> \<exists>a' hs.
      handle_event ok a = Inr (a', map RunHook hs @ [ResumeCoro h]) \<and> await_resume a' = Inr ok"
begin

lemma hooks_then_handover: "hands_over e \<Longrightarrow> ends_with_handover (map RunHook hs @ [e])"
proof (induction hs)
  case (Cons x hs)
  then show ?case by (cases "map RunHook hs @ [e]") auto
qed simp

lemma issued_hooks: "issued (map RunHook hs) = []"
  by (induction hs) auto

text \<open>One \<open>co_await\<close>, from the suspension to the value of the expression.\<close>

lemma co_await_roundtrip:
  assumes "can_issue a"
  shows "\<exists>a1 e1 op a2 e2. await_suspend h a = Inr (a1, e1) \<and> issued e1 = [op] \<and> own_op op \<and>
    ends_with_handover e1 \<and> handle_event ok (store m a1) = Inr (a2, e2) \<and> last e2 = ResumeCoro h \<and>
    issued e2 = [] \<and> ends_with_handover e2 \<and> await_resume a2 = Inr ok"
proof -
  obtain a1 hs op where s: "await_suspend h a = Inr (a1, map RunHook hs @ [Issue op])" "own_op op"
      and "armed h a1"
    using suspend_issues [OF assms] by blast
  then have "armed h (store m a1)" by (simp add: store_armed)
  then obtain a2 hs2 where
      "handle_event ok (store m a1) = Inr (a2, map RunHook hs2 @ [ResumeCoro h])"
      "await_resume a2 = Inr ok"
    using event_resumes by blast
  with s show ?thesis by (auto simp: issued_hooks intro!: hooks_then_handover)
qed

end

section \<open>The generic awaiter\<close>

text \<open>
  \<open>std::apply(m_function, std::tuple_cat(m_args, std::tuple{this}))\<close> calls the given function with
  the stored arguments and the awaiter's address as its last one.
\<close>

datatype ('fn, 'arg) generic_op = Apply 'fn "'arg list"

record ('fn, 'arg) generic_awaiter =
  m_function :: 'fn
  m_args :: "'arg list"
  m_was_ok :: bool
  m_handle :: "coro_handle option"

definition generic_method_awaiter :: "'fn \<Rightarrow> 'arg list \<Rightarrow> ('fn, 'arg) generic_awaiter" where
  "generic_method_awaiter fn args =
     \<lparr>m_function = fn, m_args = args, m_was_ok = False, m_handle = None\<rparr>"

definition generic_await_suspend ::
  "'arg \<Rightarrow> coro_handle \<Rightarrow> ('fn, 'arg) generic_awaiter \<Rightarrow>
     ('fn, 'arg) generic_awaiter \<times> (('fn, 'arg) generic_op, 'hook) eff list" where
  "generic_await_suspend this h a =
     (let a = a\<lparr>m_handle := Some h\<rparr>
      in (a, [Issue (Apply (m_function a) (m_args a @ [this]))]))"

definition generic_handle_event ::
  "nat \<Rightarrow> bool \<Rightarrow> ('fn, 'arg) generic_awaiter \<Rightarrow>
     ub + ('fn, 'arg) generic_awaiter \<times> (('fn, 'arg) generic_op, 'hook) eff list" where
  "generic_handle_event evt ok a =
     (if evt \<noteq> 0 then Inl AssertFail
      else case m_handle a of None \<Rightarrow> Inl AssertFail
        | Some h \<Rightarrow> Inr (a\<lparr>m_was_ok := ok\<rparr>, [ResumeCoro h]))"

definition generic_await_resume :: "('fn, 'arg) generic_awaiter \<Rightarrow> bool" where
  "generic_await_resume a = m_was_ok a"

interpretation generic_awaiter: single_shot
  "\<lambda>a. True"
  "\<lambda>h a. Inr (generic_await_suspend this h a)"
  "\<lambda>_ :: unit. id"
  "generic_handle_event 0"
  "\<lambda>a. Inr (generic_await_resume a)"
  "\<lambda>op. case op of Apply f args \<Rightarrow> args \<noteq> [] \<and> last args = this"
  "\<lambda>h a. m_handle a = Some h"
  by unfold_locales
     (auto simp: generic_await_suspend_def generic_handle_event_def generic_await_resume_def
      Let_def intro: exI [of _ "[]"])

text \<open>
\<open>co_await grpc_generic_method_awaiter{fn, args...}\<close> calls \<open>fn(args..., awaiter)\<close> exactly once,
as the last thing it does before the coroutine is suspended; the completion of that call resumes
exactly the coroutine that awaits, as the last thing the handler does, no assertion fails, and the
expression's value is the outcome of the operation.
\<close>

theorem generic_awaiter_roundtrip:
  "\<exists>a1 e1 a2 e2.
     generic_await_suspend this h (generic_method_awaiter fn args) = (a1, e1) \<and>
     issued e1 = [Apply fn (args @ [this])] \<and> ends_with_handover e1 \<and>
     generic_handle_event 0 ok a1 = Inr (a2, e2) \<and> e2 = [ResumeCoro h] \<and>
     generic_await_resume a2 = ok"
  by (simp add: generic_await_suspend_def generic_method_awaiter_def generic_handle_event_def
      generic_await_resume_def Let_def)

end
