(* ===== verification/Task_Context.thy ===== *)
theory Task_Context
  imports Awaiters Traits Exceptions
begin

text \<open>
  The context of a server task (\<open>task_rpc_context\<close> of \<open>include/asyncpp/grpc/task.h\<close>): its state, the
  hooks called around each operation, and the awaiters of the three operations a task can perform
  on its stream.
\<close>

section \<open>Operations issued by a task\<close>

text \<open>
  The objects inside one coroutine frame that receive completions, and the operations the frame
  issues, each with the server context it is bound to and the index and object of its tag. A plain
  \<open>this\<close> is index 0.
\<close>

datatype calldata = PromiseObj | InitialAwaiter | OpAwaiter | FinalAwaiter

type_synonym tag = "nat \<times> calldata"

type_synonym context_id = nat

datatype 'resp server_op =
    AsyncNotifyWhenDone context_id tag
  | RequestStreamingCall context_id context_id tag  \<comment> \<open>context, the stream's context\<close>
  | RequestCall context_id context_id tag
  | SendInitialMetadata context_id tag
  | ReadOp context_id tag
  | WriteOp context_id 'resp tag
  | Finish context_id status tag
  | FinishMessage context_id 'resp status tag
  | FinishWithError context_id status tag

datatype ('req, 'resp) hook =
    OnAuthenticate
  | OnStart
  | OnFinish status
  | OnFinishMessage status 'resp
  | OnSendInitialMetadataStart
  | OnSendInitialMetadataDone bool
  | OnReadStart
  | OnReadDone 'req bool
  | OnWriteStart 'resp
  | OnWriteDone bool

type_synonym ('req, 'resp) effs = "('resp server_op, ('req, 'resp) hook) eff list"

section \<open>State\<close>

text \<open>
  A \<open>ServerContext\<close> object is its number in the order of construction; \<open>m_stream\<close> is the context
  the stream was constructed with.
\<close>

record ('req, 'resp) task_rpc_context =
  m_is_cancelled :: bool
  m_context :: context_id
  m_status :: status
  m_stream :: context_id
  m_request :: 'req
  m_response :: 'resp

record 'm op_awaiter =
  m_handle :: "coro_handle option"
  m_ok :: bool
  m_msg :: 'm

definition new_awaiter :: "'m \<Rightarrow> 'm op_awaiter" where
  "new_awaiter msg = \<lparr>m_handle = None, m_ok = False, m_msg = msg\<rparr>"

text \<open>\<open>m_handle.resume()\<close>, and what it means for a handle that was never set.\<close>

definition then_resume :: "coro_handle option \<Rightarrow> 'a \<Rightarrow> ('op, 'hook) eff list \<Rightarrow>
     ub + 'a \<times> ('op, 'hook) eff list" where
  "then_resume h a es = (case h of None \<Rightarrow> Inl NullDeref | Some h \<Rightarrow> Inr (a, es @ [ResumeCoro h]))"

section \<open>The awaiters\<close>

definition metadata_suspend :: "context_id \<Rightarrow> coro_handle \<Rightarrow> unit op_awaiter \<Rightarrow>
     unit op_awaiter \<times> ('req, 'resp) effs" where
  "metadata_suspend stream h a =
     (a\<lparr>m_handle := Some h\<rparr>,
      [RunHook OnSendInitialMetadataStart, Issue (SendInitialMetadata stream (0, OpAwaiter))])"

definition metadata_handle_event :: "bool \<Rightarrow> unit op_awaiter \<Rightarrow>
     ub + unit op_awaiter \<times> ('req, 'resp) effs" where
  "metadata_handle_event ok a =
     (let a = a\<lparr>m_ok := ok\<rparr>
      in then_resume (m_handle a) a [RunHook (OnSendInitialMetadataDone (m_ok a))])"

definition read_suspend :: "context_id \<Rightarrow> coro_handle \<Rightarrow> 'req op_awaiter \<Rightarrow>
     'req op_awaiter \<times> ('req, 'resp) effs" where
  "read_suspend stream h a =
     (a\<lparr>m_handle := Some h\<rparr>, [RunHook OnReadStart, Issue (ReadOp stream (0, OpAwaiter))])"

definition read_handle_event :: "bool \<Rightarrow> 'req op_awaiter \<Rightarrow>
     ub + 'req op_awaiter \<times> ('req, 'resp) effs" where
  "read_handle_event ok a =
     (let a = a\<lparr>m_ok := ok\<rparr>
      in then_resume (m_handle a) a [RunHook (OnReadDone (m_msg a) (m_ok a))])"

definition write_suspend :: "context_id \<Rightarrow> coro_handle \<Rightarrow> 'resp op_awaiter \<Rightarrow>
     'resp op_awaiter \<times> ('req, 'resp) effs" where
  "write_suspend stream h a =
     (let a = a\<lparr>m_handle := Some h\<rparr>
      in (a, [RunHook (OnWriteStart (m_msg a)), Issue (WriteOp stream (m_msg a) (0, OpAwaiter))]))"

definition write_handle_event :: "bool \<Rightarrow> 'resp op_awaiter \<Rightarrow>
     ub + 'resp op_awaiter \<times> ('req, 'resp) effs" where
  "write_handle_event ok a =
     (let a = a\<lparr>m_ok := ok\<rparr>
      in then_resume (m_handle a) a [RunHook (OnWriteDone (m_ok a))])"

definition op_await_resume :: "'m op_awaiter \<Rightarrow> bool" where
  "op_await_resume a = m_ok a"

text \<open>The runtime stores a received message in the object the reader was given.\<close>

definition receive_message :: "'req \<Rightarrow> 'req op_awaiter \<Rightarrow> 'req op_awaiter" where
  "receive_message msg a = a\<lparr>m_msg := msg\<rparr>"

lemmas awaiter_defs =
  metadata_suspend_def metadata_handle_event_def read_suspend_def read_handle_event_def
  write_suspend_def write_handle_event_def op_await_resume_def receive_message_def
  then_resume_def Let_def

text \<open>All three provide the interface; the pieces of evidence are the hooks that run.\<close>

interpretation metadata_awaiter: single_shot
  "\<lambda>a. True" "\<lambda>h a. Inr (metadata_suspend stream h a)" "\<lambda>_ :: unit. id"
  metadata_handle_event "\<lambda>a. Inr (op_await_resume a)"
  "\<lambda>op. op = SendInitialMetadata stream (0, OpAwaiter)" "\<lambda>h a. m_handle a = Some h"
  by unfold_locales
     (auto simp: awaiter_defs intro: exI [of _ "[OnSendInitialMetadataStart]"]
       exI [of _ "[OnSendInitialMetadataDone ok]" for ok])

interpretation read_awaiter: single_shot
  "\<lambda>a. True" "\<lambda>h a. Inr (read_suspend stream h a)" receive_message
  read_handle_event "\<lambda>a. Inr (op_await_resume a)"
  "\<lambda>op. op = ReadOp stream (0, OpAwaiter)" "\<lambda>h a. m_handle a = Some h"
  by unfold_locales
     (auto simp: awaiter_defs intro: exI [of _ "[OnReadStart]"] exI [of _ "[OnReadDone m ok]" for m ok])

interpretation write_awaiter: single_shot
  "\<lambda>a. True" "\<lambda>h a. Inr (write_suspend stream h a)" "\<lambda>_ :: unit. id"
  write_handle_event "\<lambda>a. Inr (op_await_resume a)"
  "\<lambda>op. \<exists>msg. op = WriteOp stream msg (0, OpAwaiter)" "\<lambda>h a. m_handle a = Some h"
  by unfold_locales
     (auto simp: awaiter_defs intro: exI [of _ "[OnWriteStart m]" for m] exI [of _ "[OnWriteDone ok]" for ok])

section \<open>Tags and await_transform\<close>

text \<open>
  What a task body can await, by the C++ type of the operand: the tags of \<open>rw_tag.h\<close> (a
  \<open>read_tag\<close> or \<open>write_tag\<close> with the type of its message) or any other expression, by type and
  value category.
\<close>

datatype operand =
    OperandRpcInfo
  | OperandSendInitialMetadata
  | OperandReadTag ty
  | OperandWriteTag ty
  | OperandLvalue ty
  | OperandConstLvalue ty
  | OperandRvalue ty

definition rpc_info :: operand where "rpc_info = OperandRpcInfo"

definition send_initial_metadata :: operand where
  "send_initial_metadata = OperandSendInitialMetadata"

definition read_msg :: "ty \<Rightarrow> operand" where "read_msg t = OperandReadTag t"

definition write_msg :: "ty \<Rightarrow> operand" where "write_msg t = OperandWriteTag t"

datatype transform =
    ToRpcInfo | ToSendInitialMetadata | ToRead | ToWrite
  | PassThrough   \<comment> \<open>the operand itself is the awaitable\<close>

text \<open>
  Overload resolution over the seven \<open>await_transform\<close>s, for a method with traits \<open>tr\<close>. The
  unconstrained template binds a non-constant lvalue and an rvalue more closely than
  \<open>const response_type&\<close> does; for a constant lvalue the two are equally good and the
  non-template wins.
\<close>

fun await_transform :: "'x stream_traits_scheme \<Rightarrow> operand \<Rightarrow> transform" where
  "await_transform tr OperandRpcInfo = ToRpcInfo"
| "await_transform tr OperandSendInitialMetadata = ToSendInitialMetadata"
| "await_transform tr (OperandReadTag t) =
     (if t = request_type tr \<and> is_client_streaming tr then ToRead else PassThrough)"
| "await_transform tr (OperandLvalue t) =
     (if t = request_type tr \<and> is_client_streaming tr then ToRead else PassThrough)"
| "await_transform tr (OperandWriteTag t) =
     (if t = response_type tr \<and> is_server_streaming tr then ToWrite else PassThrough)"
| "await_transform tr (OperandConstLvalue t) =
     (if t = response_type tr \<and> is_server_streaming tr then ToWrite else PassThrough)"
| "await_transform tr (OperandRvalue t) = PassThrough"

section \<open>Properties\<close>

text \<open>
Each of the three operations of a task context does one full round: it runs its start hook,
issues exactly one operation on the stream with its own tag as its last action, and the completion
runs the done hook with the outcome, and for a read with the message received, then resumes exactly
the suspended coroutine, whose \<open>co_await\<close> yields the outcome.
\<close>

theorem task_operations_roundtrip:
  "(\<exists>a1 a2. metadata_suspend stream h (new_awaiter ()) =
       (a1, [RunHook OnSendInitialMetadataStart, Issue (SendInitialMetadata stream (0, OpAwaiter))]) \<and>
     metadata_handle_event ok a1 =
       Inr (a2, [RunHook (OnSendInitialMetadataDone ok), ResumeCoro h]) \<and> op_await_resume a2 = ok) \<and>
   (\<exists>a1 a2. read_suspend stream h (new_awaiter buf) =
       (a1, [RunHook OnReadStart, Issue (ReadOp stream (0, OpAwaiter))]) \<and>
     read_handle_event ok (receive_message msg a1) =
       Inr (a2, [RunHook (OnReadDone msg ok), ResumeCoro h]) \<and> op_await_resume a2 = ok) \<and>
   (\<exists>a1 a2. write_suspend stream h (new_awaiter resp) =
       (a1, [RunHook (OnWriteStart resp), Issue (WriteOp stream resp (0, OpAwaiter))]) \<and>
     write_handle_event ok a1 = Inr (a2, [RunHook (OnWriteDone ok), ResumeCoro h]) \<and>
     op_await_resume a2 = ok)"
  by (simp_all add: awaiter_defs new_awaiter_def)

end
