(* ===== verification/Task.thy ===== *)
theory Task
  imports Task_Context
begin

text \<open>
  The server task of \<open>include/asyncpp/grpc/task.h\<close>: the promise type, its initial and final
  suspension, the completions it handles, and the life of the coroutine frame, in which user code
  may do anything a task body can do. The hooks class is a parameter; \<open>noop_task_hook\<close> is one.
\<close>

section \<open>State of a coroutine frame\<close>

text \<open>
  Where the coroutine is. The awaiter objects are temporaries of the frame: they exist only while
  the coroutine is suspended on them.
\<close>

datatype coro =
    SuspendedInitial | Running | SuspendedOp | SuspendedOther | SuspendedFinal | Destroyed

datatype ('req, 'resp) pending_op =
    MetadataAwaiter "unit op_awaiter"
  | ReadAwaiter "'req op_awaiter"
  | WriteAwaiter "'resp op_awaiter"

text \<open>
  \<open>auth_pending\<close>: the hook holds the callback \<open>on_authenticate\<close> gave it and has not called it.
\<close>

record ('req, 'resp) task =
  m_context_of :: "('req, 'resp) task_rpc_context"
  frame :: coro_handle
  coro :: coro
  initial_handle :: "coro_handle option"
  final_handle :: "coro_handle option"
  op_awaiter_of :: "('req, 'resp) pending_op option"
  auth_pending :: bool

text \<open>
  A hooks object, as far as the task depends on it: what \<open>on_authenticate\<close> passes to its callback
  before it returns (\<open>None\<close>: it keeps the callback for later), and the status for an exception that
  leaves the body. The other hooks return nothing and appear as effects.
\<close>

record ('req, 'resp) task_hooks =
  on_authenticate :: "('req, 'resp) task \<Rightarrow> status option"
  on_unhandled_exception :: "exn \<Rightarrow> ub + status"

definition noop_task_hook :: "bool \<Rightarrow> ('req, 'resp) task_hooks" where
  "noop_task_hook ndebug =
     \<lparr>on_authenticate = (\<lambda>ctx. Some (Status STATUS_OK '''')),
      on_unhandled_exception = (\<lambda>e. exception_to_status ndebug (Some e))\<rparr>"

abbreviation client_streaming :: "rpc_method_type \<Rightarrow> bool" where
  "client_streaming T \<equiv> is_client_streaming (server_stream_traits T Req Resp)"

abbreviation server_streaming :: "rpc_method_type \<Rightarrow> bool" where
  "server_streaming T \<equiv> is_server_streaming (server_stream_traits T Req Resp)"

type_synonym ('req, 'resp) result = "ub + ('req, 'resp) task \<times> ('req, 'resp) effs"

abbreviation ctx_of :: "('req, 'resp) task \<Rightarrow> ('req, 'resp) task_rpc_context" where
  "ctx_of t \<equiv> m_context_of t"

definition update_ctx ::
  "(('req, 'resp) task_rpc_context \<Rightarrow> ('req, 'resp) task_rpc_context) \<Rightarrow>
     ('req, 'resp) task \<Rightarrow> ('req, 'resp) task" where
  "update_ctx f t = t\<lparr>m_context_of := f (m_context_of t)\<rparr>"

section \<open>The promise\<close>

definition promise_type :: "coro_handle \<Rightarrow> 'req \<Rightarrow> 'resp \<Rightarrow> ('req, 'resp) task" where
  "promise_type h req resp =
     \<lparr>m_context_of = \<lparr>m_is_cancelled = False, m_context = 0, m_status = Status STATUS_OK '''',
        m_stream = 0, m_request = req, m_response = resp\<rparr>,
      frame = h, coro = Running, initial_handle = None, final_handle = None,
      op_awaiter_of = None, auth_pending = False\<rparr>"

text \<open>\<open>task(coroutine_handle<> h)\<close> throws for a null handle.\<close>

datatype task_error = InvalidArgument string

definition task_constructor :: "coro_handle option \<Rightarrow> task_error + unit" where
  "task_constructor h =
     (case h of None \<Rightarrow> Inl (InvalidArgument ''handle is invalid'') | Some _ \<Rightarrow> Inr ())"

definition get_return_object :: "('req, 'resp) task \<Rightarrow> coro_handle option" where
  "get_return_object t = Some (frame t)"

definition return_value :: "status \<Rightarrow> ('req, 'resp) task \<Rightarrow> ('req, 'resp) task" where
  "return_value s = update_ctx (\<lambda>c. c\<lparr>m_status := s\<rparr>)"

definition unhandled_exception ::
  "('req, 'resp) task_hooks \<Rightarrow> exn \<Rightarrow> ('req, 'resp) task \<Rightarrow> ub + ('req, 'resp) task" where
  "unhandled_exception hooks e t =
     (case on_unhandled_exception hooks e of Inl u \<Rightarrow> Inl u
      | Inr s \<Rightarrow> Inr (update_ctx (\<lambda>c. c\<lparr>m_status := s\<rparr>) t))"

section \<open>Initial suspension\<close>

definition start_grpc_call ::
  "rpc_method_type \<Rightarrow> 'req \<Rightarrow> ('req, 'resp) task \<Rightarrow> ('req, 'resp) task \<times> ('req, 'resp) effs" where
  "start_grpc_call T cleared t =
     (let notify = Issue (AsyncNotifyWhenDone (m_context (ctx_of t)) (0, PromiseObj))
      in if client_streaming T then
           (t, [notify, Issue (RequestStreamingCall (m_context (ctx_of t)) (m_stream (ctx_of t))
                                 (0, InitialAwaiter))])
         else let t = update_ctx (\<lambda>c. c\<lparr>m_request := cleared\<rparr>) t in
           (t, [notify, Issue (RequestCall (m_context (ctx_of t)) (m_stream (ctx_of t))
                                 (0, InitialAwaiter))]))"

definition initial_await_suspend ::
  "rpc_method_type \<Rightarrow> 'req \<Rightarrow> coro_handle \<Rightarrow> ('req, 'resp) task \<Rightarrow>
     ('req, 'resp) task \<times> ('req, 'resp) effs" where
  "initial_await_suspend T cleared h t = start_grpc_call T cleared (t\<lparr>initial_handle := Some h\<rparr>)"

text \<open>The callback passed to \<open>on_authenticate\<close>.\<close>

definition auth_callback ::
  "rpc_method_type \<Rightarrow> status \<Rightarrow> ('req, 'resp) task \<Rightarrow> ('req, 'resp) result" where
  "auth_callback T result t =
     (if status_ok result then
        (case initial_handle t of None \<Rightarrow> Inl NullDeref
         | Some h \<Rightarrow> Inr (t\<lparr>coro := Running\<rparr>, [RunHook OnStart, ResumeCoro h]))
      else if server_streaming T then
        Inr (t, [Issue (Finish (m_stream (ctx_of t)) result (1, InitialAwaiter))])
      else
        Inr (t, [Issue (FinishWithError (m_stream (ctx_of t)) result (1, InitialAwaiter))]))"

text \<open>Destroying the \<open>ServerContext\<close>, constructing the next one and binding the stream to it.\<close>

definition reset_context :: "('req, 'resp) task \<Rightarrow> ('req, 'resp) task" where
  "reset_context t =
     (let t = update_ctx (\<lambda>c. c\<lparr>m_context := Suc (m_context c)\<rparr>) t
      in update_ctx (\<lambda>c. c\<lparr>m_stream := m_context c\<rparr>) t)"

definition initial_handle_event ::
  "rpc_method_type \<Rightarrow> ('req, 'resp) task_hooks \<Rightarrow> 'req \<Rightarrow> nat \<Rightarrow> bool \<Rightarrow> ('req, 'resp) task \<Rightarrow>
     ('req, 'resp) result" where
  "initial_handle_event T hooks cleared idx ok t =
     (if idx = 0 then
        if \<not> ok then
          (case initial_handle t of None \<Rightarrow> Inl NullDeref
           | Some h \<Rightarrow> Inr (t\<lparr>coro := Destroyed\<rparr>, [DestroyCoro h]))
        else
          (case on_authenticate hooks t of
             None \<Rightarrow> Inr (t\<lparr>auth_pending := True\<rparr>, [RunHook OnAuthenticate])
           | Some result \<Rightarrow>
               (case auth_callback T result t of Inl u \<Rightarrow> Inl u
                | Inr (t, es) \<Rightarrow> Inr (t, RunHook OnAuthenticate # es)))
      else if idx = 1 then Inr (start_grpc_call T cleared (reset_context t))
      else Inr (t, []))"

text \<open>A hook that kept the callback calls it; it must not call it again.\<close>

definition deferred_auth ::
  "rpc_method_type \<Rightarrow> status \<Rightarrow> ('req, 'resp) task \<Rightarrow> ('req, 'resp) result" where
  "deferred_auth T result t = auth_callback T result (t\<lparr>auth_pending := False\<rparr>)"

section \<open>Final suspension and the notification of the promise\<close>

definition final_await_suspend ::
  "rpc_method_type \<Rightarrow> coro_handle \<Rightarrow> ('req, 'resp) task \<Rightarrow>
     ('req, 'resp) task \<times> ('req, 'resp) effs" where
  "final_await_suspend T h t =
     (let c = ctx_of t; t = t\<lparr>final_handle := Some h\<rparr> in
      if server_streaming T then
        (t, [RunHook (OnFinish (m_status c)),
             Issue (Finish (m_stream c) (m_status c) (0, FinalAwaiter))])
      else if status_ok (m_status c) then
        (t, [RunHook (OnFinishMessage (m_status c) (m_response c)),
             Issue (FinishMessage (m_stream c) (m_response c) (m_status c) (0, FinalAwaiter))])
      else
        (t, [RunHook (OnFinish (m_status c)),
             Issue (FinishWithError (m_stream c) (m_status c) (0, FinalAwaiter))]))"

definition final_handle_event :: "nat \<Rightarrow> bool \<Rightarrow> ('req, 'resp) task \<Rightarrow> ('req, 'resp) result" where
  "final_handle_event idx ok t =
     (case final_handle t of None \<Rightarrow> Inl NullDeref
      | Some h \<Rightarrow> Inr (t\<lparr>coro := Destroyed\<rparr>, [DestroyCoro h]))"

text \<open>\<open>is_cancelled\<close> is what \<open>ServerContext::IsCancelled\<close> returns at that moment.\<close>

definition promise_handle_event ::
  "nat \<Rightarrow> bool \<Rightarrow> bool \<Rightarrow> ('req, 'resp) task \<Rightarrow> ('req, 'resp) result" where
  "promise_handle_event idx ok is_cancelled t =
     Inr (if idx = 0 \<and> ok \<and> is_cancelled then update_ctx (\<lambda>c. c\<lparr>m_is_cancelled := True\<rparr>) t else t, [])"

section \<open>The body\<close>

text \<open>
  What the running body does next: it awaits an operation of its context, or an awaitable of
  someone else, assigns to the response message, returns or lets an exception escape. \<open>None\<close>: the
  constraint of the member function excludes it for this kind of method.
\<close>

datatype ('req, 'resp) body_action =
    AwaitRpcInfo
  | AwaitSendInitialMetadata
  | AwaitRead 'req
  | AwaitWrite 'resp
  | YieldValue 'resp
  | AwaitOther
  | SetResponse 'resp
  | CoReturn status
  | Throw exn

definition suspend_on :: "('req, 'resp) pending_op \<Rightarrow> ('req, 'resp) task \<Rightarrow> ('req, 'resp) task" where
  "suspend_on op t = t\<lparr>coro := SuspendedOp, op_awaiter_of := Some op\<rparr>"

definition suspend_final ::
  "rpc_method_type \<Rightarrow> ('req, 'resp) task \<Rightarrow> ('req, 'resp) task \<times> ('req, 'resp) effs" where
  "suspend_final T t = final_await_suspend T (frame t) (t\<lparr>coro := SuspendedFinal\<rparr>)"

definition context_write ::
  "rpc_method_type \<Rightarrow> 'resp \<Rightarrow> ('req, 'resp) task \<Rightarrow> ('req, 'resp) result option" where
  "context_write T msg t =
     (if server_streaming T then
        (case write_suspend (m_stream (ctx_of t)) (frame t) (new_awaiter msg) of
           (a, es) \<Rightarrow> Some (Inr (suspend_on (WriteAwaiter a) t, es)))
      else None)"

fun body_step ::
  "rpc_method_type \<Rightarrow> ('req, 'resp) task_hooks \<Rightarrow> ('req, 'resp) body_action \<Rightarrow>
     ('req, 'resp) task \<Rightarrow> ('req, 'resp) result option" where
  "body_step T hooks AwaitRpcInfo t = Some (Inr (t, []))"
| "body_step T hooks AwaitSendInitialMetadata t =
     (case metadata_suspend (m_stream (ctx_of t)) (frame t) (new_awaiter ()) of
        (a, es) \<Rightarrow> Some (Inr (suspend_on (MetadataAwaiter a) t, es)))"
| "body_step T hooks (AwaitRead msg) t =
     (if client_streaming T then
        (case read_suspend (m_stream (ctx_of t)) (frame t) (new_awaiter msg) of
           (a, es) \<Rightarrow> Some (Inr (suspend_on (ReadAwaiter a) t, es)))
      else None)"
| "body_step T hooks (AwaitWrite msg) t = context_write T msg t"
| "body_step T hooks (YieldValue msg) t = context_write T msg t"
| "body_step T hooks AwaitOther t = Some (Inr (t\<lparr>coro := SuspendedOther\<rparr>, []))"
| "body_step T hooks (SetResponse msg) t =
     (if server_streaming T then None
      else Some (Inr (update_ctx (\<lambda>c. c\<lparr>m_response := msg\<rparr>) t, [])))"
| "body_step T hooks (CoReturn s) t = Some (Inr (suspend_final T (return_value s t)))"
| "body_step T hooks (Throw e) t =
     Some (case unhandled_exception hooks e t of Inl u \<Rightarrow> Inl u | Inr t \<Rightarrow> Inr (suspend_final T t))"

section \<open>Completions\<close>

definition op_handle_event :: "bool \<Rightarrow> ('req, 'resp) task \<Rightarrow> ('req, 'resp) result" where
  "op_handle_event ok t =
     (let resumed = (\<lambda>op es. Inr (t\<lparr>coro := Running, op_awaiter_of := Some op\<rparr>, es)) in
      (case op_awaiter_of t of
         None \<Rightarrow> Inl UseAfterFree
       | Some (MetadataAwaiter a) \<Rightarrow>
           (case metadata_handle_event ok a of Inl u \<Rightarrow> Inl u | Inr (a, es) \<Rightarrow> resumed (MetadataAwaiter a) es)
       | Some (ReadAwaiter a) \<Rightarrow>
           (case read_handle_event ok a of Inl u \<Rightarrow> Inl u | Inr (a, es) \<Rightarrow> resumed (ReadAwaiter a) es)
       | Some (WriteAwaiter a) \<Rightarrow>
           (case write_handle_event ok a of Inl u \<Rightarrow> Inl u | Inr (a, es) \<Rightarrow> resumed (WriteAwaiter a) es)))"

text \<open>Whether the object a completion is for still exists.\<close>

fun object_alive :: "coro \<Rightarrow> calldata \<Rightarrow> bool" where
  "object_alive c PromiseObj = (c \<noteq> Destroyed)"
| "object_alive c InitialAwaiter = (c = SuspendedInitial)"
| "object_alive c OpAwaiter = (c = SuspendedOp)"
| "object_alive c FinalAwaiter = (c = SuspendedFinal)"

text \<open>What the runtime knows or has written when it delivers a completion.\<close>

record 'req delivery =
  d_ok :: bool
  d_cancelled :: bool
  d_message :: 'req

definition runtime_writes ::
  "rpc_method_type \<Rightarrow> tag \<Rightarrow> 'req delivery \<Rightarrow> ('req, 'resp) task \<Rightarrow> ('req, 'resp) task" where
  "runtime_writes T tag d t =
     (if \<not> d_ok d then t
      else if tag = (0, InitialAwaiter) then
        (if client_streaming T then t else update_ctx (\<lambda>c. c\<lparr>m_request := d_message d\<rparr>) t)
      else case (snd tag, op_awaiter_of t) of
          (OpAwaiter, Some (ReadAwaiter a)) \<Rightarrow>
            t\<lparr>op_awaiter_of := Some (ReadAwaiter (receive_message (d_message d) a))\<rparr>
        | _ \<Rightarrow> t)"

definition handle_event ::
  "rpc_method_type \<Rightarrow> ('req, 'resp) task_hooks \<Rightarrow> 'req \<Rightarrow> tag \<Rightarrow> 'req delivery \<Rightarrow>
     ('req, 'resp) task \<Rightarrow> ('req, 'resp) result" where
  "handle_event T hooks cleared tag d t =
     (if \<not> object_alive (coro t) (snd tag) then Inl UseAfterFree
      else case snd tag of
          PromiseObj \<Rightarrow> promise_handle_event (fst tag) (d_ok d) (d_cancelled d) t
        | InitialAwaiter \<Rightarrow> initial_handle_event T hooks cleared (fst tag) (d_ok d) t
        | OpAwaiter \<Rightarrow> op_handle_event (d_ok d) t
        | FinalAwaiter \<Rightarrow> final_handle_event (fst tag) (d_ok d) t)"

end
