(* ===== verification/Task_Life.thy ===== *)
theory Task_Life
  imports Task
begin

text \<open>
  The life of a server task among its environment: the completion queue that returns the tags of the
  operations the task issued, the hook that may answer an authentication late, and the body. The
  life cycle is specified by a small automaton of phases, which the code refines.
\<close>

section \<open>The system\<close>

text \<open>
  \<open>outstanding\<close>: tags whose completion has not been delivered. \<open>registered\<close>: tags given to
  \<open>AsyncNotifyWhenDone\<close> for a call that has not started; the runtime returns such a tag once the
  call it belongs to is over, so it becomes outstanding when the call starts and is never returned
  when the call does not. \<open>trace\<close>: all effects so far. \<open>failure\<close>: the first undefined behaviour.
\<close>

record ('req, 'resp) sys =
  tsk :: "('req, 'resp) task"
  outstanding :: "tag multiset"
  registered :: "tag list"
  trace :: "('req, 'resp) effs"
  failure :: "ub option"

fun op_tag :: "'resp server_op \<Rightarrow> tag option" where
  "op_tag (AsyncNotifyWhenDone c t) = None"
| "op_tag (RequestStreamingCall c s t) = Some t"
| "op_tag (RequestCall c s t) = Some t"
| "op_tag (SendInitialMetadata s t) = Some t"
| "op_tag (ReadOp s t) = Some t"
| "op_tag (WriteOp s m t) = Some t"
| "op_tag (Finish s st t) = Some t"
| "op_tag (FinishMessage s m st t) = Some t"
| "op_tag (FinishWithError s st t) = Some t"

fun notify_tag :: "'resp server_op \<Rightarrow> tag option" where
  "notify_tag (AsyncNotifyWhenDone c t) = Some t"
| "notify_tag _ = None"

definition absorb :: "('req, 'resp) result \<Rightarrow> ('req, 'resp) sys \<Rightarrow> ('req, 'resp) sys" where
  "absorb r s =
     (case r of
        Inl u \<Rightarrow> s\<lparr>failure := Some u\<rparr>
      | Inr (t, es) \<Rightarrow>
          s\<lparr>tsk := t, outstanding := outstanding s + mset (List.map_filter op_tag (issued es)),
            registered := registered s @ List.map_filter notify_tag (issued es),
            trace := trace s @ es\<rparr>)"

definition done_tag :: tag where "done_tag = (0, PromiseObj)"
definition request_tag :: tag where "request_tag = (0, InitialAwaiter)"
definition reject_tag :: tag where "reject_tag = (1, InitialAwaiter)"
definition operation_tag :: tag where "operation_tag = (0, OpAwaiter)"
definition final_tag :: tag where "final_tag = (0, FinalAwaiter)"

definition initial_sys :: "rpc_method_type \<Rightarrow> 'req \<Rightarrow> coro_handle \<Rightarrow> 'req \<Rightarrow> 'resp \<Rightarrow> ('req, 'resp) sys" where
  "initial_sys T cleared h req resp =
     absorb (Inr (initial_await_suspend T cleared h ((promise_type h req resp)\<lparr>coro := SuspendedInitial\<rparr>)))
       \<lparr>tsk = promise_type h req resp, outstanding = {#}, registered = [], trace = [], failure = None\<rparr>"

text \<open>The queue delivers a tag. A call that starts arms its notification; one that does not drops it.\<close>

definition deliver ::
  "rpc_method_type \<Rightarrow> ('req, 'resp) task_hooks \<Rightarrow> 'req \<Rightarrow> tag \<Rightarrow> 'req delivery \<Rightarrow>
     ('req, 'resp) sys \<Rightarrow> ('req, 'resp) sys" where
  "deliver T hooks cleared tag d s =
     absorb (handle_event T hooks cleared tag d (runtime_writes T tag d (tsk s)))
       (if tag = request_tag then
          s\<lparr>outstanding := outstanding s - {#tag#} + (if d_ok d then mset (registered s) else {#}),
            registered := []\<rparr>
        else s\<lparr>outstanding := outstanding s - {#tag#}\<rparr>)"

text \<open>
  The order in which the queue may return tags is a parameter: \<open>any_order\<close>, or the contract
  \<open>done_first\<close>, that the notification of a call comes before the completion of its finish operation.
\<close>

type_synonym queue_order = "tag multiset \<Rightarrow> tag \<Rightarrow> bool"

definition any_order :: queue_order where "any_order out tag \<longleftrightarrow> True"

definition done_first :: queue_order where
  "done_first out tag \<longleftrightarrow> (tag \<in> {reject_tag, final_tag} \<longrightarrow> done_tag \<notin># out)"

inductive task_step ::
  "rpc_method_type \<Rightarrow> ('req, 'resp) task_hooks \<Rightarrow> 'req \<Rightarrow> queue_order \<Rightarrow>
     ('req, 'resp) sys \<Rightarrow> ('req, 'resp) sys \<Rightarrow> bool"
  for T hooks cleared order where
  completion: "failure s = None \<Longrightarrow> tag \<in># outstanding s \<Longrightarrow> order (outstanding s) tag \<Longrightarrow>
     task_step T hooks cleared order s (deliver T hooks cleared tag d s)"
| authenticated: "failure s = None \<Longrightarrow> auth_pending (tsk s) \<Longrightarrow>
     task_step T hooks cleared order s (absorb (deferred_auth T result (tsk s)) s)"
| body: "failure s = None \<Longrightarrow> coro (tsk s) = Running \<Longrightarrow> body_step T hooks act (tsk s) = Some r \<Longrightarrow>
     task_step T hooks cleared order s (absorb r s)"
| other_resumed: "failure s = None \<Longrightarrow> coro (tsk s) = SuspendedOther \<Longrightarrow>
     task_step T hooks cleared order s (s\<lparr>tsk := (tsk s)\<lparr>coro := Running\<rparr>\<rparr>)"

abbreviation "task_run T hooks cleared order \<equiv> (task_step T hooks cleared order)\<^sup>*\<^sup>*"

section \<open>The life cycle\<close>

datatype phase = Requesting | Authenticating | Rejecting | InBody | InOp | InOther | Finishing | Gone

definition phase_of :: "('req, 'resp) sys \<Rightarrow> phase" where
  "phase_of s =
     (case coro (tsk s) of
        SuspendedInitial \<Rightarrow>
          if auth_pending (tsk s) then Authenticating
          else if reject_tag \<in># outstanding s then Rejecting else Requesting
      | Running \<Rightarrow> InBody | SuspendedOp \<Rightarrow> InOp | SuspendedOther \<Rightarrow> InOther
      | SuspendedFinal \<Rightarrow> Finishing | Destroyed \<Rightarrow> Gone)"

text \<open>
  A call is requested; when it arrives it is authenticated, and either rejected, after which the
  frame requests the next call, or handed to the body; the body ends in the final operation, whose
  completion ends the frame. A request that fails ends it too.
\<close>

inductive phase_step :: "phase \<Rightarrow> phase \<Rightarrow> bool" where
  "phase_step Requesting Authenticating"
| "phase_step Requesting InBody"
| "phase_step Requesting Rejecting"
| "phase_step Requesting Gone"
| "phase_step Authenticating InBody"
| "phase_step Authenticating Rejecting"
| "phase_step Rejecting Requesting"
| "phase_step InBody InOp"
| "phase_step InBody InOther"
| "phase_step InBody Finishing"
| "phase_step InOp InBody"
| "phase_step InOther InBody"
| "phase_step Finishing Gone"

inductive_simps phase_step_simps [simp]:
  "phase_step Gone p" "phase_step Requesting p" "phase_step Authenticating p"
  "phase_step Rejecting p" "phase_step InBody p" "phase_step InOp p" "phase_step InOther p"
  "phase_step Finishing p"

text \<open>The one tag, besides notifications, that is outstanding in each phase.\<close>

fun awaited :: "phase \<Rightarrow> tag multiset" where
  "awaited Requesting = {#request_tag#}"
| "awaited Rejecting = {#reject_tag#}"
| "awaited InOp = {#operation_tag#}"
| "awaited Finishing = {#final_tag#}"
| "awaited _ = {#}"

text \<open>An authenticated call that has not been finished.\<close>

fun unfinished :: "phase \<Rightarrow> nat" where
  "unfinished Authenticating = 1"
| "unfinished InBody = 1"
| "unfinished InOp = 1"
| "unfinished InOther = 1"
| "unfinished _ = 0"

fun in_user_code :: "phase \<Rightarrow> nat" where
  "in_user_code InBody = 1"
| "in_user_code InOp = 1"
| "in_user_code InOther = 1"
| "in_user_code _ = 0"

fun is_finish_op :: "('resp server_op, 'hook) eff \<Rightarrow> bool" where
  "is_finish_op (Issue (Finish c st t)) = True"
| "is_finish_op (Issue (FinishMessage c m st t)) = True"
| "is_finish_op (Issue (FinishWithError c st t)) = True"
| "is_finish_op _ = False"

fun is_on_finish :: "('op, ('req, 'resp) hook) eff \<Rightarrow> bool" where
  "is_on_finish (RunHook (OnFinish st)) = True"
| "is_on_finish (RunHook (OnFinishMessage st m)) = True"
| "is_on_finish _ = False"

fun is_destroy :: "('op, 'hook) eff \<Rightarrow> bool" where
  "is_destroy (DestroyCoro h) = True"
| "is_destroy _ = False"

fun op_context :: "'resp server_op \<Rightarrow> context_id" where
  "op_context (AsyncNotifyWhenDone c t) = c"
| "op_context (RequestStreamingCall c s t) = s"
| "op_context (RequestCall c s t) = s"
| "op_context (SendInitialMetadata s t) = s"
| "op_context (ReadOp s t) = s"
| "op_context (WriteOp s m t) = s"
| "op_context (Finish s st t) = s"
| "op_context (FinishMessage s m st t) = s"
| "op_context (FinishWithError s st t) = s"

text \<open>The context a call is requested for, asks to be notified about, and is finished on.\<close>

fun request_context :: "'resp server_op \<Rightarrow> context_id option" where
  "request_context (RequestStreamingCall c s t) = Some c"
| "request_context (RequestCall c s t) = Some c"
| "request_context _ = None"

fun notify_context :: "'resp server_op \<Rightarrow> context_id option" where
  "notify_context (AsyncNotifyWhenDone c t) = Some c"
| "notify_context _ = None"

fun finish_context :: "'resp server_op \<Rightarrow> context_id option" where
  "finish_context (Finish s st t) = Some s"
| "finish_context (FinishMessage s m st t) = Some s"
| "finish_context (FinishWithError s st t) = Some s"
| "finish_context _ = None"

definition contexts :: "('op \<Rightarrow> context_id option) \<Rightarrow> ('op, 'hook) eff list \<Rightarrow> context_id list" where
  "contexts f es = List.map_filter f (issued es)"

section \<open>The invariant\<close>

fun coro_of :: "phase \<Rightarrow> coro" where
  "coro_of Requesting = SuspendedInitial"
| "coro_of Authenticating = SuspendedInitial"
| "coro_of Rejecting = SuspendedInitial"
| "coro_of InBody = Running"
| "coro_of InOp = SuspendedOp"
| "coro_of InOther = SuspendedOther"
| "coro_of Finishing = SuspendedFinal"
| "coro_of Gone = Destroyed"

fun pending_handle :: "('req, 'resp) pending_op \<Rightarrow> coro_handle option" where
  "pending_handle (MetadataAwaiter a) = m_handle a"
| "pending_handle (ReadAwaiter a) = m_handle a"
| "pending_handle (WriteAwaiter a) = m_handle a"

text \<open>
  What holds of the frame, of the operations outstanding and of the history in phase \<open>ph\<close>.
\<close>

definition life_at :: "phase \<Rightarrow> ('req, 'resp) sys \<Rightarrow> bool" where
  "life_at ph s \<longleftrightarrow>
     failure s = None \<and> coro (tsk s) = coro_of ph \<and> auth_pending (tsk s) = (ph = Authenticating) \<and>
     filter_mset (\<lambda>t. t \<noteq> done_tag) (outstanding s) = awaited ph \<and>
     registered s = (if ph = Requesting then [done_tag] else []) \<and>
     initial_handle (tsk s) = Some (frame (tsk s)) \<and>
     (ph = InOp \<longrightarrow> (\<exists>op. op_awaiter_of (tsk s) = Some op \<and> pending_handle op = Some (frame (tsk s)))) \<and>
     (ph = Finishing \<longrightarrow> final_handle (tsk s) = Some (frame (tsk s))) \<and>
     m_stream (ctx_of (tsk s)) = m_context (ctx_of (tsk s))"

text \<open>The calls of a frame that have been finished when its context is number \<open>n\<close>.\<close>

definition finished_at :: "phase \<Rightarrow> context_id \<Rightarrow> context_id list \<Rightarrow> bool" where
  "finished_at ph n ks \<longleftrightarrow>
     (if ph = Gone then ks \<in> {[0..<n], [0..<Suc n]}
      else ks = [0..<(if ph \<in> {Rejecting, Finishing} then Suc n else n)])"

definition counts_at :: "phase \<Rightarrow> ('req, 'resp) sys \<Rightarrow> bool" where
  "counts_at ph s \<longleftrightarrow>
     count (\<lambda>e. e = RunHook OnAuthenticate) (trace s) = count is_finish_op (trace s) + unfinished ph \<and>
     count (\<lambda>e. e = RunHook OnStart) (trace s) = count is_on_finish (trace s) + in_user_code ph \<and>
     count is_destroy (trace s) = (if ph = Gone then 1 else 0) \<and>
     contexts request_context (trace s) = [0..<Suc (m_context (ctx_of (tsk s)))] \<and>
     contexts notify_context (trace s) = [0..<Suc (m_context (ctx_of (tsk s)))] \<and>
     finished_at ph (m_context (ctx_of (tsk s))) (contexts finish_context (trace s))"

definition well_behaved :: "('req, 'resp) task_hooks \<Rightarrow> bool" where
  "well_behaved hooks \<longleftrightarrow> (\<forall>e. \<exists>s. on_unhandled_exception hooks e = Inr s)"

lemma noop_well_behaved: "well_behaved (noop_task_hook ndebug)"
proof -
  have "\<exists>s. exception_to_status ndebug (Some e) = Inr s" for e
    by (cases e) (auto simp: exception_to_status_def)
  then show ?thesis by (simp add: well_behaved_def noop_task_hook_def)
qed

lemmas tag_defs = done_tag_def request_tag_def reject_tag_def operation_tag_def final_tag_def

lemmas life_defs = life_at_def counts_at_def absorb_def update_ctx_def List.map_filter_def

lemma contexts_simps [simp]:
  "contexts f [] = []" "contexts f (xs @ ys) = contexts f xs @ contexts f ys"
  "contexts f (Issue op # es) = (case f op of None \<Rightarrow> contexts f es | Some c \<Rightarrow> c # contexts f es)"
  "contexts f (RunHook hk # es) = contexts f es" "contexts f (ResumeCoro h # es) = contexts f es"
  "contexts f (DestroyCoro h # es) = contexts f es"
  by (simp_all add: contexts_def split: option.split)

lemma finished_at_simps [simp]:
  "finished_at Requesting n ks = (ks = [0..<n])" "finished_at Authenticating n ks = (ks = [0..<n])"
  "finished_at Rejecting n ks = (ks = [0..<Suc n])" "finished_at InBody n ks = (ks = [0..<n])"
  "finished_at InOp n ks = (ks = [0..<n])" "finished_at InOther n ks = (ks = [0..<n])"
  "finished_at Finishing n ks = (ks = [0..<Suc n])"
  "finished_at Gone n ks = (ks = [0..<n] \<or> ks = [0..<Suc n])"
  by (auto simp: finished_at_def)

lemma life_phase: "life_at ph s \<Longrightarrow> phase_of s = ph"
proof -
  assume l: "life_at ph s"
  then have "reject_tag \<in># outstanding s \<longleftrightarrow> reject_tag \<in># awaited ph"
    unfolding life_at_def by (metis (mono_tags, lifting) set_mset_filter mem_Collect_eq
      reject_tag_def done_tag_def prod.inject zero_neq_one)
  then show "phase_of s = ph"
    using l by (cases ph) (auto simp: life_at_def phase_of_def tag_defs)
qed

lemma life_initial:
  "life_at Requesting (initial_sys T cleared h req resp)"
  "counts_at Requesting (initial_sys T cleared h req resp)"
  by (simp_all add: life_defs initial_sys_def initial_await_suspend_def start_grpc_call_def
      promise_type_def Let_def tag_defs)

lemma outstanding_cases:
  assumes "life_at ph s" and "tag \<in># outstanding s"
  shows "tag = done_tag \<or> awaited ph = {#tag#}"
proof (cases "tag = done_tag")
  case False
  then have "tag \<in># awaited ph"
    using assms unfolding life_at_def by (metis (mono_tags, lifting) set_mset_filter mem_Collect_eq)
  then show ?thesis by (cases ph) auto
qed simp

lemma filter_remove1:
  "tag \<in># M \<Longrightarrow> filter_mset P (M - {#tag#}) = filter_mset P M - (if P tag then {#tag#} else {#})"
  by (auto dest!: multi_member_split)

declare filter_mset_eq_mempty_iff [simp del]

section \<open>One step\<close>

text \<open>What a completion does, as a description of the resulting frame and its effects.\<close>

lemma start_call_result:
  "\<exists>c op. start_grpc_call T cleared t =
     (t\<lparr>m_context_of := c\<rparr>, [Issue (AsyncNotifyWhenDone (m_context (ctx_of t)) done_tag), Issue op]) \<and>
     m_context c = m_context (ctx_of t) \<and> m_stream c = m_stream (ctx_of t) \<and>
     op_tag op = Some request_tag \<and> notify_tag op = None \<and>
     \<not> is_finish_op (Issue op :: (_, ('req, 'resp) hook) eff) \<and>
     request_context op = Some (m_context (ctx_of t)) \<and> notify_context op = None \<and> finish_context op = None"
  by (cases "client_streaming T")
     (auto simp: start_grpc_call_def update_ctx_def Let_def tag_defs intro: exI [of _ "ctx_of t"])

lemma auth_callback_result:
  assumes "initial_handle t = Some h"
  shows "status_ok result \<Longrightarrow>
           auth_callback T result t = Inr (t\<lparr>coro := Running\<rparr>, [RunHook OnStart, ResumeCoro h])"
    and "\<not> status_ok result \<Longrightarrow> \<exists>op. auth_callback T result t = Inr (t, [Issue op]) \<and>
           op_tag op = Some reject_tag \<and> notify_tag op = None \<and>
           is_finish_op (Issue op :: (_, ('req, 'resp) hook) eff) \<and>
           request_context op = None \<and> notify_context op = None \<and>
           finish_context op = Some (m_stream (ctx_of t))"
  using assms by (auto simp: auth_callback_def tag_defs)

lemma suspend_final_result:
  "\<exists>hk op. suspend_final T t =
       (t\<lparr>coro := SuspendedFinal, final_handle := Some (frame t)\<rparr>, [RunHook hk, Issue op]) \<and>
     is_on_finish (RunHook hk :: ('resp server_op, ('req, 'resp) hook) eff) \<and>
     hk \<noteq> OnAuthenticate \<and> hk \<noteq> OnStart \<and>
     is_finish_op (Issue op :: ('resp server_op, ('req, 'resp) hook) eff) \<and>
     op_tag op = Some final_tag \<and> notify_tag op = None \<and>
     request_context op = None \<and> notify_context op = None \<and>
     finish_context op = Some (m_stream (ctx_of t))"
  by (auto simp: suspend_final_def final_await_suspend_def Let_def tag_defs)

lemma update_ctx_simps [simp]:
  "coro (update_ctx f t) = coro t" "auth_pending (update_ctx f t) = auth_pending t"
  "initial_handle (update_ctx f t) = initial_handle t" "final_handle (update_ctx f t) = final_handle t"
  "frame (update_ctx f t) = frame t" "op_awaiter_of (update_ctx f t) = op_awaiter_of t"
  "m_context_of (update_ctx f t) = f (m_context_of t)"
  by (simp_all add: update_ctx_def)

lemma runtime_writes_simps [simp]:
  "coro (runtime_writes T tag d t) = coro t" "auth_pending (runtime_writes T tag d t) = auth_pending t"
  "initial_handle (runtime_writes T tag d t) = initial_handle t"
  "final_handle (runtime_writes T tag d t) = final_handle t"
  "frame (runtime_writes T tag d t) = frame t"
  "m_context (m_context_of (runtime_writes T tag d t)) = m_context (m_context_of t)"
  "m_stream (m_context_of (runtime_writes T tag d t)) = m_stream (m_context_of t)"
  "map_option pending_handle (op_awaiter_of (runtime_writes T tag d t)) =
     map_option pending_handle (op_awaiter_of t)"
  by (auto simp: runtime_writes_def receive_message_def split: calldata.splits option.splits pending_op.splits)

lemma absorb_Inr [simp]:
  "failure (absorb (Inr (t, es)) s) = failure s" "tsk (absorb (Inr (t, es)) s) = t"
  "outstanding (absorb (Inr (t, es)) s) = outstanding s + mset (List.map_filter op_tag (issued es))"
  "registered (absorb (Inr (t, es)) s) = registered s @ List.map_filter notify_tag (issued es)"
  "trace (absorb (Inr (t, es)) s) = trace s @ es"
  by (simp_all add: absorb_def)

lemma awaited_not_done [simp]: "done_tag \<noteq> request_tag" "done_tag \<noteq> reject_tag" "done_tag \<noteq> operation_tag" "done_tag \<noteq> final_tag"
  "request_tag \<noteq> done_tag" "reject_tag \<noteq> done_tag" "operation_tag \<noteq> done_tag" "final_tag \<noteq> done_tag"
  "reject_tag \<noteq> request_tag" "operation_tag \<noteq> request_tag" "final_tag \<noteq> request_tag"
  by (simp_all add: tag_defs)

lemma tag_parts [simp]:
  "fst done_tag = 0" "snd done_tag = PromiseObj" "fst request_tag = 0" "snd request_tag = InitialAwaiter"
  "fst reject_tag = 1" "snd reject_tag = InitialAwaiter" "snd operation_tag = OpAwaiter"
  "fst final_tag = 0" "snd final_tag = FinalAwaiter"
  by (simp_all add: tag_defs)

lemma deliver_other:
  assumes "tag \<noteq> request_tag"
    and "handle_event T hooks cleared tag d (runtime_writes T tag d (tsk s)) = Inr (t, es)"
  shows "deliver T hooks cleared tag d s = absorb (Inr (t, es)) (s\<lparr>outstanding := outstanding s - {#tag#}\<rparr>)"
  using assms by (simp add: deliver_def)


lemma promise_result:
  "promise_handle_event idx ok canc t =
     Inr (update_ctx (\<lambda>c. c\<lparr>m_is_cancelled := m_is_cancelled c \<or> (idx = 0 \<and> ok \<and> canc)\<rparr>) t, [])"
  by (cases t; cases "m_context_of t") (auto simp: promise_handle_event_def update_ctx_def)

lemma deliver_done:
  assumes "life_at ph s" and "counts_at ph s" and "ph \<noteq> Gone" and "done_tag \<in># outstanding s"
  shows "life_at ph (deliver T hooks cleared done_tag d s) \<and>
         counts_at ph (deliver T hooks cleared done_tag d s)"
proof -
  have w: "runtime_writes T done_tag d (tsk s) = tsk s"
    by (auto simp: runtime_writes_def done_tag_def request_tag_def)
  have "coro (tsk s) \<noteq> Destroyed" using assms(1,3) by (cases ph) (simp_all add: life_at_def)
  then have "deliver T hooks cleared done_tag d s =
    absorb (Inr (update_ctx (\<lambda>c. c\<lparr>m_is_cancelled := m_is_cancelled c \<or> (d_ok d \<and> d_cancelled d)\<rparr>) (tsk s), []))
      (s\<lparr>outstanding := outstanding s - {#done_tag#}\<rparr>)"
    by (intro deliver_other) (simp_all add: w handle_event_def promise_result)
  then show ?thesis using assms by (simp add: life_at_def counts_at_def filter_remove1)
qed

lemma deliver_final:
  assumes "life_at Finishing s" and "counts_at Finishing s" and "final_tag \<in># outstanding s"
  shows "life_at Gone (deliver T hooks cleared final_tag d s) \<and>
         counts_at Gone (deliver T hooks cleared final_tag d s)"
proof -
  let ?t = "runtime_writes T final_tag d (tsk s)"
  have "deliver T hooks cleared final_tag d s =
    absorb (Inr (?t\<lparr>coro := Destroyed\<rparr>, [DestroyCoro (frame (tsk s))]))
      (s\<lparr>outstanding := outstanding s - {#final_tag#}\<rparr>)"
    using assms(1) by (intro deliver_other)
     (simp_all add: handle_event_def final_handle_event_def life_at_def)
  then show ?thesis using assms by (simp add: life_at_def counts_at_def filter_remove1)
qed

lemma deliver_reject:
  assumes "life_at Rejecting s" and "counts_at Rejecting s" and "reject_tag \<in># outstanding s"
  shows "life_at Requesting (deliver T hooks cleared reject_tag d s) \<and>
         counts_at Requesting (deliver T hooks cleared reject_tag d s)"
proof -
  let ?t = "reset_context (runtime_writes T reject_tag d (tsk s))"
  obtain c op where r: "start_grpc_call T cleared ?t =
      (?t\<lparr>m_context_of := c\<rparr>, [Issue (AsyncNotifyWhenDone (m_context (ctx_of ?t)) done_tag), Issue op])"
      "m_context c = m_context (ctx_of ?t)" "m_stream c = m_stream (ctx_of ?t)"
      "op_tag op = Some request_tag" "notify_tag op = None"
      "\<not> is_finish_op (Issue op :: ('b server_op, ('a, 'b) hook) eff)"
      "request_context op = Some (m_context (ctx_of ?t))" "notify_context op = None" "finish_context op = None"
    using start_call_result [of T cleared ?t] by blast
  then have "deliver T hooks cleared reject_tag d s =
    absorb (Inr (start_grpc_call T cleared ?t)) (s\<lparr>outstanding := outstanding s - {#reject_tag#}\<rparr>)"
    unfolding r(1) using assms(1) by (intro deliver_other)
     (simp_all add: handle_event_def initial_handle_event_def life_at_def r(1))
  then show ?thesis using assms r
    by (simp add: life_at_def counts_at_def filter_remove1 reset_context_def)
qed

lemma deliver_operation:
  assumes "life_at InOp s" and "counts_at InOp s" and "operation_tag \<in># outstanding s"
  shows "life_at InBody (deliver T hooks cleared operation_tag d s) \<and>
         counts_at InBody (deliver T hooks cleared operation_tag d s)"
proof -
  let ?t = "runtime_writes T operation_tag d (tsk s)"
  have "map_option pending_handle (op_awaiter_of ?t) = Some (Some (frame ?t))"
    using assms(1) by (auto simp: life_at_def)
  then obtain op where op: "op_awaiter_of ?t = Some op" "pending_handle op = Some (frame ?t)" by (cases "op_awaiter_of ?t") auto
  obtain op' hk where "op_handle_event (d_ok d) ?t =
      Inr (?t\<lparr>coro := Running, op_awaiter_of := Some op'\<rparr>, [RunHook hk, ResumeCoro (frame ?t)])"
      "\<not> is_on_finish (RunHook hk :: ('b server_op, ('a, 'b) hook) eff)" "hk \<noteq> OnAuthenticate" "hk \<noteq> OnStart"
    using op by (cases op) (auto simp: op_handle_event_def awaiter_defs)
  moreover from this have "deliver T hooks cleared operation_tag d s =
    absorb (op_handle_event (d_ok d) ?t) (s\<lparr>outstanding := outstanding s - {#operation_tag#}\<rparr>)"
    using assms(1) by (simp add: deliver_def handle_event_def life_at_def)
  ultimately show ?thesis using assms by (simp add: life_at_def counts_at_def filter_remove1)
qed

lemma deliver_request:
  assumes "life_at Requesting s" and "counts_at Requesting s" and "request_tag \<in># outstanding s"
  shows "\<exists>ph. phase_step Requesting ph \<and> (ph = Gone \<longleftrightarrow> \<not> d_ok d) \<and>
         life_at ph (deliver T hooks cleared request_tag d s) \<and>
         counts_at ph (deliver T hooks cleared request_tag d s)"
proof -
  let ?t = "runtime_writes T request_tag d (tsk s)"
  let ?s = "s\<lparr>outstanding := outstanding s - {#request_tag#} + (if d_ok d then {#done_tag#} else {#}), registered := []\<rparr>"
  have dl: "deliver T hooks cleared request_tag d s =
      absorb (initial_handle_event T hooks cleared 0 (d_ok d) ?t) ?s"
    using assms(1) by (simp add: deliver_def handle_event_def life_at_def)
  have h: "initial_handle ?t = Some (frame (tsk s))" using assms(1) by (simp add: life_at_def)
  consider "\<not> d_ok d" | "d_ok d" "on_authenticate hooks ?t = None"
    | result where "d_ok d" "on_authenticate hooks ?t = Some result" "status_ok result"
    | result where "d_ok d" "on_authenticate hooks ?t = Some result" "\<not> status_ok result"
    by fastforce
  then show ?thesis
  proof cases
    case 1
    then show ?thesis unfolding dl using assms h
      by (intro exI [of _ Gone])
         (simp add: initial_handle_event_def life_at_def counts_at_def filter_remove1)
  next
    case 2
    then show ?thesis unfolding dl using assms h
      by (intro exI [of _ Authenticating])
         (simp add: initial_handle_event_def life_at_def counts_at_def filter_remove1)
  next
    case (3 result)
    then show ?thesis unfolding dl using assms h auth_callback_result(1) [OF h, of result T]
      by (intro exI [of _ InBody])
         (simp add: initial_handle_event_def life_at_def counts_at_def filter_remove1)
  next
    case (4 result)
    obtain op where "auth_callback T result ?t = Inr (?t, [Issue op])" "op_tag op = Some reject_tag"
       "notify_tag op = None" "is_finish_op (Issue op :: ('b server_op, ('a, 'b) hook) eff)"
       "request_context op = None" "notify_context op = None" "finish_context op = Some (m_stream (ctx_of ?t))"
      using auth_callback_result(2) [OF h 4(3), of T] by blast
    with 4 show ?thesis unfolding dl using assms h
      by (intro exI [of _ Rejecting])
         (simp add: initial_handle_event_def life_at_def counts_at_def filter_remove1)
  qed
qed

lemma auth_life:
  assumes "life_at Authenticating s" and "counts_at Authenticating s"
  shows "\<exists>ph. phase_step Authenticating ph \<and> life_at ph (absorb (deferred_auth T result (tsk s)) s) \<and>
         counts_at ph (absorb (deferred_auth T result (tsk s)) s)"
proof (cases "status_ok result")
  let ?t = "(tsk s)\<lparr>auth_pending := False\<rparr>"
  have h: "initial_handle ?t = Some (frame (tsk s))" using assms(1) by (simp add: life_at_def)
  case True
  then show ?thesis using assms auth_callback_result(1) [OF h True, of T]
    by (intro exI [of _ InBody]) (simp add: deferred_auth_def life_at_def counts_at_def)
next
  let ?t = "(tsk s)\<lparr>auth_pending := False\<rparr>"
  have h: "initial_handle ?t = Some (frame (tsk s))" using assms(1) by (simp add: life_at_def)
  case False
  obtain op where "auth_callback T result ?t = Inr (?t, [Issue op])" "op_tag op = Some reject_tag"
       "notify_tag op = None" "is_finish_op (Issue op :: ('b server_op, ('a, 'b) hook) eff)"
       "request_context op = None" "notify_context op = None" "finish_context op = Some (m_stream (ctx_of ?t))"
      using auth_callback_result(2) [OF h False, of T] by blast
  with False show ?thesis using assms
    by (intro exI [of _ Rejecting]) (simp add: deferred_auth_def life_at_def counts_at_def)
qed

lemma finish_life:
  assumes "life_at InBody s" and "counts_at InBody s"
  shows "life_at Finishing (absorb (Inr (suspend_final T (update_ctx (\<lambda>c. c\<lparr>m_status := st\<rparr>) (tsk s)))) s) \<and>
         counts_at Finishing (absorb (Inr (suspend_final T (update_ctx (\<lambda>c. c\<lparr>m_status := st\<rparr>) (tsk s)))) s)"
proof -
  let ?t = "update_ctx (\<lambda>c. c\<lparr>m_status := st\<rparr>) (tsk s)"
  obtain hk op where "suspend_final T ?t =
       (?t\<lparr>coro := SuspendedFinal, final_handle := Some (frame ?t)\<rparr>, [RunHook hk, Issue op])"
     "is_on_finish (RunHook hk :: ('b server_op, ('a, 'b) hook) eff)"
     "hk \<noteq> OnAuthenticate" "hk \<noteq> OnStart"
     "is_finish_op (Issue op :: ('b server_op, ('a, 'b) hook) eff)"
     "op_tag op = Some final_tag" "notify_tag op = None"
     "request_context op = None" "notify_context op = None" "finish_context op = Some (m_stream (ctx_of ?t))"
    using suspend_final_result [of T ?t] by blast
  with assms show ?thesis by (simp add: life_at_def counts_at_def)
qed

text \<open>The four ways a body can suspend on an operation of its context.\<close>

fun awaits_operation :: "('req, 'resp) body_action \<Rightarrow> bool" where
  "awaits_operation AwaitSendInitialMetadata = True"
| "awaits_operation (AwaitRead msg) = True"
| "awaits_operation (AwaitWrite msg) = True"
| "awaits_operation (YieldValue msg) = True"
| "awaits_operation _ = False"

lemma suspend_on_inj [simp]: "suspend_on op t = suspend_on op' t \<longleftrightarrow> op = op'"
proof
  assume "suspend_on op t = suspend_on op' t"
  then have "op_awaiter_of (suspend_on op t) = op_awaiter_of (suspend_on op' t)" by simp
  then show "op = op'" by (simp add: suspend_on_def)
qed simp

lemma op_body_result:
  assumes "awaits_operation act" and "body_step T hooks act t = Some r"
  shows "\<exists>op hk sop. r = Inr (suspend_on op t, [RunHook hk, Issue sop]) \<and>
     pending_handle op = Some (frame t) \<and> op_tag sop = Some operation_tag \<and> notify_tag sop = None \<and>
     \<not> is_finish_op (Issue sop :: ('b server_op, ('a, 'b) hook) eff) \<and>
     \<not> is_on_finish (RunHook hk :: ('b server_op, ('a, 'b) hook) eff) \<and>
     hk \<noteq> OnAuthenticate \<and> hk \<noteq> OnStart \<and> op_context sop = m_stream (ctx_of t) \<and>
     request_context sop = None \<and> notify_context sop = None \<and> finish_context sop = None"
  using assms
  by (cases act) (auto simp: awaiter_defs new_awaiter_def operation_tag_def context_write_def
      split: if_splits)

lemma op_life:
  assumes "life_at InBody s" and "counts_at InBody s" and "awaits_operation act"
    and "body_step T hooks act (tsk s) = Some r"
  shows "life_at InOp (absorb r s) \<and> counts_at InOp (absorb r s)"
proof -
  obtain op hk sop where "r = Inr (suspend_on op (tsk s), [RunHook hk, Issue sop])"
     "pending_handle op = Some (frame (tsk s))" "op_tag sop = Some operation_tag" "notify_tag sop = None"
     "\<not> is_finish_op (Issue sop :: ('b server_op, ('a, 'b) hook) eff)"
     "\<not> is_on_finish (RunHook hk :: ('b server_op, ('a, 'b) hook) eff)"
     "hk \<noteq> OnAuthenticate" "hk \<noteq> OnStart"
     "request_context sop = None" "notify_context sop = None" "finish_context sop = None"
    using op_body_result [OF assms(3,4)] by blast
  with assms(1,2) show ?thesis by (simp add: life_at_def counts_at_def suspend_on_def)
qed

lemma body_life:
  assumes "life_at InBody s" and "counts_at InBody s" and "well_behaved hooks"
    and "body_step T hooks act (tsk s) = Some r"
  shows "\<exists>ph. (ph = InBody \<or> phase_step InBody ph) \<and> life_at ph (absorb r s) \<and> counts_at ph (absorb r s)"
proof (cases "awaits_operation act")
  case True
  then show ?thesis using op_life [OF assms(1,2) True assms(4)] by auto
next
  case False
  then consider st where "act = CoReturn st" | e where "act = Throw e" | "act = AwaitRpcInfo"
    | "act = AwaitOther" | m where "act = SetResponse m"
    by (cases act) auto
  then show ?thesis
  proof cases
    case (1 st)
    then show ?thesis using assms(4) finish_life [OF assms(1,2)] by (auto simp: return_value_def)
  next
    case (2 e)
    obtain st where "on_unhandled_exception hooks e = Inr st"
      using assms(3) by (auto simp: well_behaved_def)
    with 2 show ?thesis using assms(4) finish_life [OF assms(1,2)]
      by (auto simp: unhandled_exception_def)
  next
    case 3
    with assms show ?thesis by (intro exI [of _ InBody]) (auto simp: life_at_def counts_at_def)
  next
    case 4
    with assms show ?thesis by (intro exI [of _ InOther]) (auto simp: life_at_def counts_at_def)
  next
    case (5 m)
    with assms show ?thesis
      by (intro exI [of _ InBody]) (auto simp: life_at_def counts_at_def split: if_splits)
  qed
qed

definition alive_inv :: "phase \<Rightarrow> ('req, 'resp) sys \<Rightarrow> bool" where
  "alive_inv ph s \<longleftrightarrow> life_at ph s \<and> counts_at ph s"

text \<open>A completion of a frame that is still there.\<close>

lemma completion_life:
  assumes "alive_inv ph s" and "tag \<in># outstanding s" and "ph \<noteq> Gone"
  shows "\<exists>ph'. (if tag = done_tag then ph' = ph else phase_step ph ph') \<and>
         (tag = request_tag \<longrightarrow> (ph' = Gone \<longleftrightarrow> \<not> d_ok d)) \<and>
         alive_inv ph' (deliver T hooks cleared tag d s)"
proof -
  have l: "life_at ph s" and c: "counts_at ph s" using assms(1) by (simp_all add: alive_inv_def)
  consider "tag = done_tag" | "awaited ph = {#tag#}" using outstanding_cases [OF l assms(2)] by blast
  then show ?thesis
  proof cases
    case 1
    then show ?thesis using deliver_done [OF l c assms(3)] assms(2) by (auto simp: alive_inv_def)
  next
    case 2
    then consider "ph = Requesting" "tag = request_tag" | "ph = Rejecting" "tag = reject_tag"
      | "ph = InOp" "tag = operation_tag" | "ph = Finishing" "tag = final_tag"
      by (cases ph) auto
    then show ?thesis
    proof cases
      case 1
      obtain ph' where "phase_step Requesting ph'" "ph' = Gone \<longleftrightarrow> \<not> d_ok d"
          "life_at ph' (deliver T hooks cleared request_tag d s)"
          "counts_at ph' (deliver T hooks cleared request_tag d s)"
        using deliver_request [where s = s and d = d] l c assms(2) unfolding 1 by meson
      then show ?thesis unfolding 1 alive_inv_def by (intro exI [of _ ph']) simp
    next
      case 2
      with l c assms(2) have "alive_inv Requesting (deliver T hooks cleared tag d s)"
        unfolding alive_inv_def by (blast dest: deliver_reject)
      with 2 show ?thesis by auto
    next
      case 3
      with l c assms(2) have "alive_inv InBody (deliver T hooks cleared tag d s)"
        unfolding alive_inv_def by (blast dest: deliver_operation)
      with 3 show ?thesis by auto
    next
      case 4
      with l c assms(2) have "alive_inv Gone (deliver T hooks cleared tag d s)"
        unfolding alive_inv_def by (blast dest: deliver_final)
      with 4 show ?thesis by auto
    qed
  qed
qed

lemma step_life:
  assumes "task_step T hooks cleared order s t" and "alive_inv ph s" and "well_behaved hooks"
    and "ph \<noteq> Gone"
  shows "\<exists>ph'. (ph' = ph \<or> phase_step ph ph') \<and> alive_inv ph' t"
  using assms(1)
proof cases
  case (completion tag d)
  with assms(2,4) completion_life [where ph = ph and s = s and tag = tag and d = d] show ?thesis
    by (metis (full_types))
next
  case (authenticated result)
  then have "ph = Authenticating" using assms(2) by (simp add: alive_inv_def life_at_def)
  with authenticated assms(2) auth_life [of s T result] show ?thesis
    unfolding alive_inv_def by blast
next
  case (body act r)
  then have "ph = InBody" using assms(2) by (cases ph) (auto simp: alive_inv_def life_at_def)
  with body assms(2,3) body_life [of s hooks T act r] show ?thesis
    unfolding alive_inv_def by blast
next
  case other_resumed
  then have "ph = InOther" using assms(2) by (cases ph) (auto simp: alive_inv_def life_at_def)
  with other_resumed assms(2) show ?thesis
    by (auto simp: alive_inv_def life_at_def counts_at_def intro!: exI [of _ InBody])
qed

text \<open>Once the frame is gone, only a notification can still be delivered, and it finds no object.\<close>

lemma step_gone:
  assumes "task_step T hooks cleared order s t" and "alive_inv Gone s"
  shows "done_tag \<in># outstanding s \<and> order (outstanding s) done_tag \<and> failure t = Some UseAfterFree"
  using assms(1)
proof cases
  case (completion tag d)
  then have "tag = done_tag"
    using assms(2) outstanding_cases [of Gone s tag] by (auto simp: alive_inv_def)
  with completion assms(2) show ?thesis
    by (simp add: alive_inv_def life_at_def deliver_def handle_event_def absorb_def)
qed (use assms(2) in \<open>simp_all add: alive_inv_def life_at_def\<close>)

text \<open>Under the ordering contract no notification is left when a frame ends or asks anew.\<close>

definition settled :: "phase \<Rightarrow> ('req, 'resp) sys \<Rightarrow> bool" where
  "settled ph s \<longleftrightarrow> (ph \<in> {Requesting, Gone} \<longrightarrow> done_tag \<notin># outstanding s)"

text \<open>No handler issues an operation with the tag of the notification.\<close>

definition no_done :: "('req, 'resp) result \<Rightarrow> bool" where
  "no_done r \<longleftrightarrow>
     (\<forall>t es. r = Inr (t, es) \<longrightarrow> done_tag \<notin> set (List.map_filter op_tag (issued es)))"

lemma no_done_start: "no_done (Inr (start_grpc_call T cleared t))"
proof -
  obtain c op where "start_grpc_call T cleared t =
      (t\<lparr>m_context_of := c\<rparr>, [Issue (AsyncNotifyWhenDone (m_context (ctx_of t)) done_tag), Issue op])"
      "op_tag op = Some request_tag"
    using start_call_result [of T cleared t] by blast
  then show ?thesis by (simp add: no_done_def)
qed

lemma no_done_auth: "no_done (auth_callback T result t)"
  by (auto simp: no_done_def auth_callback_def tag_defs split: option.splits if_splits)

lemma no_done_initial: "no_done (initial_handle_event T hooks cleared idx ok t)"
  using no_done_start [of T cleared "reset_context t"] no_done_auth [of T _ t]
  unfolding initial_handle_event_def
  by (auto simp: no_done_def split: option.splits sum.splits prod.splits)

lemma no_done_op: "no_done (op_handle_event ok t)"
  by (auto simp: no_done_def op_handle_event_def awaiter_defs split: option.splits pending_op.splits)

lemma no_done_final: "no_done (final_handle_event idx ok t)"
  by (simp add: no_done_def final_handle_event_def split: option.splits)

lemma no_done_Inl: "no_done (Inl u)"
  by (simp add: no_done_def)

lemma no_done_nil: "no_done (Inr (t, []))"
  by (simp add: no_done_def)

lemma no_done_handle_event: "no_done (handle_event T hooks cleared tag d t)"
  by (cases "snd tag")
     (simp_all add: handle_event_def no_done_Inl promise_result no_done_nil no_done_initial
      no_done_op no_done_final)

lemma done_after_deliver:
  assumes "done_tag \<in># outstanding (deliver T hooks cleared tag d s)"
    and "tag = request_tag \<Longrightarrow> \<not> d_ok d"
  shows "done_tag \<in># outstanding s"
proof -
  let ?r = "handle_event T hooks cleared tag d (runtime_writes T tag d (tsk s))"
  have "no_done ?r" by (rule no_done_handle_event)
  then show ?thesis using assms
    by (cases ?r) (auto simp: deliver_def absorb_def no_done_def split: if_splits dest: in_diffD)
qed

lemma step_settled:
  assumes "task_step T hooks cleared done_first s t" and "alive_inv ph s" and "settled ph s"
    and "well_behaved hooks"
  shows "\<exists>ph'. (ph' = ph \<or> phase_step ph ph') \<and> alive_inv ph' t \<and> settled ph' t"
proof -
  have alive: "ph \<noteq> Gone"
    using step_gone [OF assms(1)] assms(2,3) by (auto simp: settled_def)
  show ?thesis
    using assms(1)
  proof cases
    case (completion tag d)
    obtain ph' where ph': "if tag = done_tag then ph' = ph else phase_step ph ph'"
        "tag = request_tag \<longrightarrow> (ph' = Gone \<longleftrightarrow> \<not> d_ok d)" and inv: "alive_inv ph' t"
      using completion_life [OF assms(2) completion(3) alive] completion(1) by blast
    have aw: "tag = done_tag \<or> awaited ph = {#tag#}"
      using outstanding_cases [of ph s tag] assms(2) completion(3) by (simp add: alive_inv_def)
    have "settled ph' t"
    proof (rule ccontr)
      assume "\<not> settled ph' t"
      then have new: "ph' \<in> {Requesting, Gone}" and d: "done_tag \<in># outstanding t"
        by (auto simp: settled_def)
      have ne: "tag \<noteq> done_tag" using ph'(1) new alive assms(3) completion(3) by (auto simp: settled_def)
      with ph'(1) new aw have "tag = reject_tag \<or> tag = final_tag \<or> (ph = Requesting \<and> tag = request_tag \<and> ph' = Gone)"
        by (cases ph) auto
      moreover have "done_tag \<in># outstanding s"
        using done_after_deliver d ph'(2) new completion(1) calculation by (metis awaited_not_done(9,11))
      ultimately show False using completion(4) assms(3) by (auto simp: done_first_def settled_def)
    qed
    with ph'(1) inv show ?thesis by (auto split: if_splits)
  next
    case (authenticated result)
    then have "ph = Authenticating" using assms(2) by (simp add: alive_inv_def life_at_def)
    with step_life [OF assms(1,2,4) alive] show ?thesis by (auto simp: settled_def)
  next
    case (body act r)
    then have "ph = InBody" using assms(2) by (cases ph) (auto simp: alive_inv_def life_at_def)
    with step_life [OF assms(1,2,4) alive] show ?thesis by (auto simp: settled_def)
  next
    case other_resumed
    then have "ph = InOther" using assms(2) by (cases ph) (auto simp: alive_inv_def life_at_def)
    with step_life [OF assms(1,2,4) alive] show ?thesis by (auto simp: settled_def)
  qed
qed

end
