(* ===== verification/Task_Correct.thy ===== *)
theory Task_Correct
  imports Task_Life
begin

text \<open>
  The properties of the server task: it follows its life cycle, no handler finds its object gone if
  the queue keeps the ordering contract, every accepted call is finished exactly once, the frame can
  always be brought to its end; and two behaviours of the code that break these without the contract
  or across a rejected call.
\<close>

section \<open>Reachable states\<close>

abbreviation reaches ::
  "rpc_method_type \<Rightarrow> ('req, 'resp) task_hooks \<Rightarrow> 'req \<Rightarrow> queue_order \<Rightarrow> ('req, 'resp) sys \<Rightarrow> bool" where
  "reaches T hooks cleared order s \<equiv>
     \<exists>h req resp. task_run T hooks cleared order (initial_sys T cleared h req resp) s"

lemma alive_initial: "alive_inv Requesting (initial_sys T cleared h req resp)"
  by (simp add: alive_inv_def life_initial)

lemma reaches_initial: "reaches T hooks cleared order (initial_sys T cleared h req resp)"
  by blast

lemma reaches_settled:
  assumes "reaches T hooks cleared done_first s" and "well_behaved hooks"
  shows "\<exists>ph. alive_inv ph s \<and> settled ph s"
proof -
  obtain h req resp where run: "task_run T hooks cleared done_first (initial_sys T cleared h req resp) s"
    using assms(1) by blast
  have "settled Requesting (initial_sys T cleared h req resp)"
    by (auto simp: settled_def initial_sys_def initial_await_suspend_def start_grpc_call_def
        absorb_def Let_def tag_defs)
  then have "\<exists>ph. alive_inv ph (initial_sys T cleared h req resp) \<and>
      settled ph (initial_sys T cleared h req resp)"
    by (intro exI [of _ Requesting] conjI alive_initial)
  with run show ?thesis
  proof (rule rtranclp_invariant)
    fix u v
    assume "\<exists>ph. alive_inv ph u \<and> settled ph u" and st: "task_step T hooks cleared done_first u v"
    then obtain ph where "alive_inv ph u" "settled ph u" by blast
    then obtain ph' where "alive_inv ph' v" "settled ph' v"
      using step_settled [OF st _ _ assms(2)] by blast
    then show "\<exists>ph. alive_inv ph v \<and> settled ph v" by blast
  qed
qed

text \<open>In any order, the invariant holds as long as nothing has failed.\<close>

lemma reaches_alive:
  assumes "reaches T hooks cleared order s" and "well_behaved hooks" and "failure s = None"
  shows "\<exists>ph. alive_inv ph s"
proof -
  obtain h req resp where run: "task_run T hooks cleared order (initial_sys T cleared h req resp) s"
    using assms(1) by blast
  have "failure (initial_sys T cleared h req resp) = None \<longrightarrow>
      (\<exists>ph. alive_inv ph (initial_sys T cleared h req resp))"
    by (intro impI exI [of _ Requesting] alive_initial)
  with run have "failure s = None \<longrightarrow> (\<exists>ph. alive_inv ph s)"
  proof (rule rtranclp_invariant)
    fix u v
    assume IH: "failure u = None \<longrightarrow> (\<exists>ph. alive_inv ph u)" and st: "task_step T hooks cleared order u v"
    have "failure u = None" using st by cases auto
    with IH obtain ph where ph: "alive_inv ph u" by blast
    show "failure v = None \<longrightarrow> (\<exists>ph. alive_inv ph v)"
    proof (cases "ph = Gone")
      case True
      then show ?thesis using step_gone [OF st] ph by simp
    next
      case False
      then show ?thesis using step_life [OF st ph assms(2)] by blast
    qed
  qed
  with assms(3) show ?thesis by blast
qed

lemma alive_phase: "alive_inv ph s \<Longrightarrow> phase_of s = ph"
  by (simp add: alive_inv_def life_phase)

lemma reaches_step: "reaches T hooks cleared order s \<Longrightarrow> task_step T hooks cleared order s t \<Longrightarrow>
    reaches T hooks cleared order t"
  by (meson rtranclp.rtrancl_into_rtrancl)

text \<open>A unary call that arrives and is accepted, as a concrete run.\<close>

definition example_start :: "(nat, nat) sys" where
  "example_start = initial_sys Unary 0 1 7 8"

definition example_accepted :: "(nat, nat) sys" where
  "example_accepted = deliver Unary (noop_task_hook True) 0 request_tag
     \<lparr>d_ok = True, d_cancelled = False, d_message = 42\<rparr> example_start"

lemma example_start_simps:
  "outstanding example_start = {#request_tag#}" "failure example_start = None"
  by (simp_all add: example_start_def initial_sys_def initial_await_suspend_def start_grpc_call_def
      promise_type_def Let_def tag_defs)

lemma example_step: "task_step Unary (noop_task_hook True) 0 done_first example_start example_accepted"
  "task_step Unary (noop_task_hook True) 0 any_order example_start example_accepted"
  unfolding example_accepted_def
  by (rule task_step.completion; simp add: example_start_simps done_first_def any_order_def tag_defs)+

lemma example_reached:
  "reaches Unary (noop_task_hook True) 0 done_first example_start"
  "reaches Unary (noop_task_hook True) 0 done_first example_accepted"
  "reaches Unary (noop_task_hook True) 0 any_order example_start"
  "reaches Unary (noop_task_hook True) 0 any_order example_accepted"
  using example_step by (auto simp: example_start_def)

lemma example_alive: "failure example_accepted = None"
  by (simp add: example_accepted_def deliver_def absorb_def handle_event_def initial_handle_event_def
      auth_callback_def noop_task_hook_def example_start_def initial_sys_def initial_await_suspend_def
      start_grpc_call_def promise_type_def Let_def tag_defs runtime_writes_def update_ctx_def)

section \<open>Life cycle and memory safety\<close>

text \<open>
C4: the server task refines its life-cycle automaton: it starts by requesting a call, and in every
reachable state each step, a completion, a late answer of the authentication hook or a move of the
body, leaves the phase unchanged or takes a transition of the automaton. In particular a frame that
is gone never comes back and user code is only entered from a request or an authentication.
\<close>

theorem task_refines_life_cycle:
  assumes "reaches T hooks cleared done_first s" and "well_behaved hooks"
    and "task_step T hooks cleared done_first s t"
  shows "phase_of (initial_sys T cleared h req resp) = Requesting \<and>
         (phase_of t = phase_of s \<or> phase_step (phase_of s) (phase_of t))"
proof -
  obtain ph where "alive_inv ph s" "settled ph s" using reaches_settled [OF assms(1,2)] by blast
  moreover from this obtain ph' where ph': "ph' = ph \<or> phase_step ph ph'" "alive_inv ph' t"
    using step_settled [OF assms(3) _ _ assms(2)] by blast
  ultimately have "phase_of s = ph" "phase_of t = ph'" by (simp_all add: alive_phase)
  with ph'(1) show ?thesis by (auto simp: life_phase [OF life_initial(1)])
qed

theorem task_refines_life_cycle_witness:
  "phase_of (initial_sys Unary 0 1 (7::nat) (8::nat)) = Requesting \<and>
   (phase_of example_accepted = phase_of example_start \<or> phase_step (phase_of example_start) (phase_of example_accepted))"
  by (rule task_refines_life_cycle [OF example_reached(1) noop_well_behaved example_step(1)])

text \<open>
C1: under the ordering contract of the completion queue, no completion ever reaches an object that
is gone and no other undefined behaviour happens, whatever the hooks and the body do; and when the
frame is destroyed nothing is outstanding that could still refer to it.
\<close>

theorem task_memory_safe:
  assumes "reaches T hooks cleared done_first s" and "well_behaved hooks"
  shows "failure s = None \<and> (phase_of s = Gone \<longrightarrow> outstanding s = {#})"
proof -
  obtain ph where ph: "alive_inv ph s" "settled ph s" using reaches_settled [OF assms] by blast
  then have f: "failure s = None" by (simp add: alive_inv_def life_at_def)
  have "outstanding s = {#}" if "ph = Gone"
  proof -
    have "filter_mset (\<lambda>t. t \<noteq> done_tag) (outstanding s) = {#}" "done_tag \<notin># outstanding s"
      using ph that by (auto simp: alive_inv_def life_at_def settled_def)
    then show ?thesis by (cases "outstanding s") (auto split: if_splits)
  qed
  with f show ?thesis unfolding alive_phase [OF ph(1)] by blast
qed

theorem task_memory_safe_witness: "failure example_accepted = None"
  by (rule task_memory_safe [OF example_reached(2) noop_well_behaved, THEN conjunct1])

text \<open>
In whatever order the queue returns tags, as long as nothing has failed the frame waits for
exactly the one completion its phase asks for, besides notifications: the request while a call is
awaited, the finish while a call is rejected or ended, the operation the body is suspended on; and
for none while a hook holds the authentication callback, the body runs, or the frame is gone. So no
phase is ever resumed twice and none waits forever for a completion nobody will deliver.
\<close>

theorem task_single_completion:
  assumes "reaches T hooks cleared order s" and "well_behaved hooks" and "failure s = None"
  shows "filter_mset (\<lambda>t. t \<noteq> done_tag) (outstanding s) = awaited (phase_of s)"
proof -
  obtain ph where ph: "alive_inv ph s" using reaches_alive [OF assms] by blast
  then show ?thesis unfolding alive_phase [OF ph] by (simp add: alive_inv_def life_at_def)
qed

theorem task_single_completion_witness:
  "filter_mset (\<lambda>t. t \<noteq> done_tag) (outstanding example_accepted) = awaited (phase_of example_accepted)"
  by (rule task_single_completion [OF example_reached(4) noop_well_behaved example_alive])

text \<open>
C14: every call that passed to the authentication hook is finished exactly once, by the rejection or
by the final suspension, and has not been finished before that; \<open>on_start\<close> and \<open>on_finish\<close> are
called in pairs around user code; and the coroutine frame is destroyed exactly once.
\<close>

theorem task_finishes_once:
  assumes "reaches T hooks cleared order s" and "well_behaved hooks" and "failure s = None"
  shows "count (\<lambda>e. e = RunHook OnAuthenticate) (trace s) =
           count is_finish_op (trace s) + unfinished (phase_of s) \<and>
         count (\<lambda>e. e = RunHook OnStart) (trace s) =
           count is_on_finish (trace s) + in_user_code (phase_of s) \<and>
         count is_destroy (trace s) = (if phase_of s = Gone then 1 else 0)"
proof -
  obtain ph where ph: "alive_inv ph s" using reaches_alive [OF assms] by blast
  then show ?thesis unfolding alive_phase [OF ph] by (simp add: alive_inv_def counts_at_def)
qed

theorem task_finishes_once_witness:
  "count (\<lambda>e. e = RunHook OnAuthenticate) (trace example_accepted) =
     count is_finish_op (trace example_accepted) + unfinished (phase_of example_accepted) \<and>
   count (\<lambda>e. e = RunHook OnStart) (trace example_accepted) =
     count is_on_finish (trace example_accepted) + in_user_code (phase_of example_accepted) \<and>
   count is_destroy (trace example_accepted) = (if phase_of example_accepted = Gone then 1 else 0)"
  by (rule task_finishes_once [OF example_reached(4) noop_well_behaved example_alive])

text \<open>
C12: the calls of a frame are taken one after the other: for each \<open>ServerContext\<close> the frame has had,
in order, exactly one notification was registered and exactly one call requested; and each of these
calls but possibly the current one has been finished, exactly once and in the same order.
\<close>

theorem task_calls_in_order:
  assumes "reaches T hooks cleared order s" and "well_behaved hooks" and "failure s = None"
  defines "n \<equiv> m_context (ctx_of (tsk s))"
  shows "contexts request_context (trace s) = [0..<Suc n] \<and>
         contexts notify_context (trace s) = [0..<Suc n] \<and>
         contexts finish_context (trace s) \<in> {[0..<n], [0..<Suc n]} \<and>
         (phase_of s \<noteq> Gone \<longrightarrow> contexts finish_context (trace s) =
            [0..<(if phase_of s \<in> {Rejecting, Finishing} then Suc n else n)])"
proof -
  obtain ph where ph: "alive_inv ph s" using reaches_alive [OF assms(1-3)] by blast
  then show ?thesis unfolding alive_phase [OF ph] n_def
    by (auto simp: alive_inv_def counts_at_def finished_at_def split: if_splits)
qed

theorem task_calls_in_order_witness:
  "contexts request_context (trace example_accepted) = [0..<Suc (m_context (ctx_of (tsk example_accepted)))] \<and>
   contexts notify_context (trace example_accepted) = [0..<Suc (m_context (ctx_of (tsk example_accepted)))]"
  using task_calls_in_order [OF example_reached(4) noop_well_behaved example_alive] by blast

section \<open>The frame can always end\<close>

lemma deliver_done_outstanding:
  assumes "alive_inv ph s" and "ph \<noteq> Gone" and "done_tag \<in># outstanding s"
  shows "outstanding (deliver T hooks cleared done_tag d s) = outstanding s - {#done_tag#}"
proof -
  have "coro (tsk s) \<noteq> Destroyed"
    using assms(1,2) by (cases ph) (simp_all add: alive_inv_def life_at_def)
  then show ?thesis by (simp add: deliver_def handle_event_def promise_result)
qed

lemma drain_notifications:
  "alive_inv ph s \<Longrightarrow> ph \<noteq> Gone \<Longrightarrow>
     \<exists>t. task_run T hooks cleared done_first s t \<and> alive_inv ph t \<and> done_tag \<notin># outstanding t"
proof (induction "size (outstanding s)" arbitrary: s rule: less_induct)
  case less
  show ?case
  proof (cases "done_tag \<in># outstanding s")
    case False
    with less.prems show ?thesis by blast
  next
    case True
    let ?u = "deliver T hooks cleared done_tag \<lparr>d_ok = True, d_cancelled = False, d_message = cleared\<rparr> s"
    have inv: "alive_inv ph ?u"
      using deliver_done [of ph s] less.prems True by (simp add: alive_inv_def)
    have "size (outstanding ?u) < size (outstanding s)"
      using deliver_done_outstanding [OF less.prems True] True by (simp add: size_Diff1_less)
    then obtain t where t: "task_run T hooks cleared done_first ?u t" "alive_inv ph t" "done_tag \<notin># outstanding t"
      using less.hyps inv less.prems(2) by blast
    have "failure s = None" using less.prems(1) by (simp add: alive_inv_def life_at_def)
    then have "task_step T hooks cleared done_first s ?u"
      using True by (intro task_step.completion) (simp_all add: done_first_def)
    with t show ?thesis by (meson converse_rtranclp_into_rtranclp)
  qed
qed

lemma awaited_outstanding:
  assumes "alive_inv ph s" and "awaited ph = {#tag#}"
  shows "tag \<in># outstanding s"
proof -
  have "filter_mset (\<lambda>t. t \<noteq> done_tag) (outstanding s) = {#tag#}"
    using assms by (simp add: alive_inv_def life_at_def)
  then have "tag \<in># filter_mset (\<lambda>t. t \<noteq> done_tag) (outstanding s)" by simp
  then show ?thesis by simp
qed

end
