(* ===== verification/Task_Ends.thy ===== *)
theory Task_Ends
  imports Task_Correct
begin

text \<open>
  Where runs of a task lead: every reachable state can be brought to the end of the frame; and two
  runs that show what the code does not guard against, a notification that arrives after the end
  and a cancellation that survives the call it belongs to.
\<close>

section \<open>Every run can be completed\<close>

text \<open>How many steps a phase is from the end, notifications aside.\<close>

fun steps_to_end :: "phase \<Rightarrow> nat" where
  "steps_to_end Gone = 0"
| "steps_to_end Requesting = 1"
| "steps_to_end Finishing = 1"
| "steps_to_end InBody = 2"
| "steps_to_end Rejecting = 2"
| "steps_to_end _ = 3"

lemma completion_advances:
  assumes "alive_inv ph s" and "awaited ph = {#tag#}" and "ph \<noteq> Gone" and "done_tag \<notin># outstanding s"
  shows "\<exists>ph' t. task_step T hooks cleared done_first s t \<and> alive_inv ph' t \<and>
         steps_to_end ph' < steps_to_end ph"
proof -
  let ?d = "\<lparr>d_ok = False, d_cancelled = False, d_message = cleared\<rparr>"
  let ?t = "deliver T hooks cleared tag ?d s"
  have out: "tag \<in># outstanding s" by (rule awaited_outstanding [OF assms(1,2)])
  have "failure s = None" using assms(1) by (simp add: alive_inv_def life_at_def)
  then have step: "task_step T hooks cleared done_first s ?t"
    using out assms(4) by (intro task_step.completion) (simp_all add: done_first_def)
  have "tag \<noteq> done_tag" using out assms(4) by auto
  then obtain ph' where "phase_step ph ph'" "tag = request_tag \<longrightarrow> ph' = Gone" "alive_inv ph' ?t"
    using completion_life [OF assms(1) out assms(3), of ?d T hooks cleared] by auto
  with assms(2) have "steps_to_end ph' < steps_to_end ph" by (cases ph) auto
  with step \<open>alive_inv ph' ?t\<close> show ?thesis by blast
qed

lemma phase_advances:
  assumes "alive_inv ph s" and "ph \<noteq> Gone" and "done_tag \<notin># outstanding s" and "well_behaved hooks"
  shows "\<exists>ph' t. task_step T hooks cleared done_first s t \<and> alive_inv ph' t \<and>
         steps_to_end ph' < steps_to_end ph"
proof -
  have l: "life_at ph s" "counts_at ph s" and f: "failure s = None"
    using assms(1) by (simp_all add: alive_inv_def life_at_def)
  consider tag where "awaited ph = {#tag#}" | "ph = Authenticating" | "ph = InBody" | "ph = InOther"
    using assms(2) by (cases ph) auto
  then show ?thesis
  proof cases
    case 1
    then show ?thesis using completion_advances [OF assms(1) _ assms(2,3)] by blast
  next
    case 2
    let ?t = "absorb (deferred_auth T (Status STATUS_OK []) (tsk s)) s"
    obtain ph' where "phase_step ph ph'" "alive_inv ph' ?t"
      using auth_life [of s T "Status STATUS_OK []"] l 2 by (auto simp: alive_inv_def)
    moreover have "task_step T hooks cleared done_first s ?t"
      using f l(1) 2 by (intro task_step.authenticated) (simp_all add: life_at_def)
    ultimately show ?thesis unfolding 2 by (intro exI [of _ ph'] exI [of _ ?t]) auto
  next
    case 3
    let ?r = "Inr (suspend_final T (return_value (Status STATUS_OK []) (tsk s)))"
    have "task_step T hooks cleared done_first s (absorb ?r s)"
      using f l(1) 3 by (intro task_step.body [where act = "CoReturn (Status STATUS_OK [])"])
        (simp_all add: life_at_def)
    moreover have "alive_inv Finishing (absorb ?r s)"
      using finish_life [of s] l 3 by (simp add: alive_inv_def return_value_def)
    ultimately show ?thesis unfolding 3 by (intro exI [of _ Finishing] exI [of _ "absorb ?r s"]) auto
  next
    case 4
    let ?t = "s\<lparr>tsk := (tsk s)\<lparr>coro := Running\<rparr>\<rparr>"
    have "task_step T hooks cleared done_first s ?t"
      using f l(1) 4 by (intro task_step.other_resumed) (simp_all add: life_at_def)
    moreover have "alive_inv InBody ?t"
      using l 4 by (simp add: alive_inv_def life_at_def counts_at_def)
    ultimately show ?thesis unfolding 4 by (intro exI [of _ InBody] exI [of _ ?t]) auto
  qed
qed

lemma ends_from_phase:
  "alive_inv ph s \<Longrightarrow> well_behaved hooks \<Longrightarrow> \<exists>t. task_run T hooks cleared done_first s t \<and> alive_inv Gone t"
proof (induction "steps_to_end ph" arbitrary: ph s rule: less_induct)
  case less
  show ?case
  proof (cases "ph = Gone")
    case True
    with less.prems show ?thesis by blast
  next
    case False
    obtain u where u: "task_run T hooks cleared done_first s u" "alive_inv ph u" "done_tag \<notin># outstanding u"
      using drain_notifications [OF less.prems(1) False] by blast
    obtain ph' v where v: "task_step T hooks cleared done_first u v" "alive_inv ph' v"
        "steps_to_end ph' < steps_to_end ph"
      using phase_advances [OF u(2) False u(3) less.prems(2)] by blast
    obtain t where "task_run T hooks cleared done_first v t" "alive_inv Gone t"
      using less.hyps [OF v(3) v(2) less.prems(2)] by blast
    with u(1) v(1) show ?thesis by (meson converse_rtranclp_into_rtranclp rtranclp_trans)
  qed
qed

text \<open>
No reachable state of a task is a dead end: from each of them, under the ordering contract, a run
leads to the end of the frame, which is then destroyed exactly once, without undefined behaviour.
\<close>

theorem task_can_end:
  assumes "reaches T hooks cleared done_first s" and "well_behaved hooks"
  shows "\<exists>t. task_run T hooks cleared done_first s t \<and> phase_of t = Gone \<and> failure t = None \<and>
         count is_destroy (trace t) = 1"
proof -
  obtain ph where "alive_inv ph s" using reaches_settled [OF assms] by blast
  then obtain t where run: "task_run T hooks cleared done_first s t" and t: "alive_inv Gone t"
    using ends_from_phase [OF _ assms(2)] by blast
  show ?thesis
    by (intro exI [of _ t] conjI run alive_phase [OF t]) (use t in \<open>simp_all add: alive_inv_def life_at_def counts_at_def\<close>)
qed

theorem task_can_end_witness:
  "\<exists>t. task_run Unary (noop_task_hook True) 0 done_first example_accepted t \<and> phase_of t = Gone \<and>
     failure t = None \<and> count is_destroy (trace t) = 1"
  by (rule task_can_end [OF example_reached(2) noop_well_behaved])

section \<open>Two runs the code does not guard against\<close>

abbreviation ok_delivery :: "'req \<Rightarrow> 'req delivery" where
  "ok_delivery msg \<equiv> \<lparr>d_ok = True, d_cancelled = False, d_message = msg\<rparr>"

text \<open>A call that arrives and is accepted at once.\<close>

lemma accepted_request:
  fixes T :: rpc_method_type and hooks :: "('req, 'resp) task_hooks" and cleared msg :: 'req
    and s :: "('req, 'resp) sys"
  defines "t \<equiv> deliver T hooks cleared request_tag (ok_delivery msg) s"
  assumes "alive_inv Requesting s"
    and "on_authenticate hooks (runtime_writes T request_tag (ok_delivery msg) (tsk s)) = Some r"
    and "status_ok r"
  shows "alive_inv InBody t" and "done_tag \<in># outstanding t"
    and "m_is_cancelled (ctx_of (tsk t)) = m_is_cancelled (ctx_of (tsk s))"
    and "m_context (ctx_of (tsk t)) = m_context (ctx_of (tsk s))"
proof -
  have l: "life_at Requesting s" "counts_at Requesting s" using assms(2) by (simp_all add: alive_inv_def)
  let ?t = "runtime_writes T request_tag (ok_delivery msg) (tsk s)"
  have dl: "t = absorb (Inr (?t\<lparr>coro := Running\<rparr>, [RunHook OnAuthenticate, RunHook OnStart, ResumeCoro (frame (tsk s))]))
      (s\<lparr>outstanding := outstanding s - {#request_tag#} + {#done_tag#}, registered := []\<rparr>)"
    using l(1) assms(3,4)
    by (simp add: t_def deliver_def handle_event_def initial_handle_event_def auth_callback_def life_at_def)
  have out: "request_tag \<in># outstanding s" by (rule awaited_outstanding [OF assms(2)]) simp
  show "alive_inv InBody t"
    unfolding alive_inv_def dl using l out by (simp add: life_at_def counts_at_def filter_remove1)
  show "m_is_cancelled (ctx_of (tsk t)) = m_is_cancelled (ctx_of (tsk s))"
    by (simp add: dl runtime_writes_def request_tag_def)
  show "m_context (ctx_of (tsk t)) = m_context (ctx_of (tsk s))" by (simp add: dl)
  show "done_tag \<in># outstanding t" by (simp add: dl)
qed

lemma rejected_request:
  fixes T :: rpc_method_type and hooks :: "('req, 'resp) task_hooks" and cleared msg :: 'req
    and s :: "('req, 'resp) sys"
  defines "t \<equiv> deliver T hooks cleared request_tag (ok_delivery msg) s"
  assumes "alive_inv Requesting s"
    and "on_authenticate hooks (runtime_writes T request_tag (ok_delivery msg) (tsk s)) = Some r"
    and "\<not> status_ok r"
  shows "alive_inv Rejecting t"
    and "outstanding t = outstanding s - {#request_tag#} + {#done_tag, reject_tag#}"
    and "m_context (ctx_of (tsk t)) = m_context (ctx_of (tsk s))"
proof -
  have l: "life_at Requesting s" "counts_at Requesting s" using assms(2) by (simp_all add: alive_inv_def)
  let ?t = "runtime_writes T request_tag (ok_delivery msg) (tsk s)"
  have h: "initial_handle ?t = Some (frame (tsk s))" using l(1) by (simp add: life_at_def)
  obtain op where op: "auth_callback T r ?t = Inr (?t, [Issue op])" "op_tag op = Some reject_tag"
      "notify_tag op = None" "is_finish_op (Issue op :: ('resp server_op, ('req, 'resp) hook) eff)"
      "request_context op = None" "notify_context op = None" "finish_context op = Some (m_stream (ctx_of ?t))"
    using auth_callback_result(2) [OF h assms(4), of T] by blast
  have dl: "t = absorb (Inr (?t, [RunHook OnAuthenticate, Issue op]))
      (s\<lparr>outstanding := outstanding s - {#request_tag#} + {#done_tag#}, registered := []\<rparr>)"
    using l(1) assms(3) op(1)
    by (simp add: t_def deliver_def handle_event_def initial_handle_event_def life_at_def)
  have out: "request_tag \<in># outstanding s" by (rule awaited_outstanding [OF assms(2)]) simp
  show "alive_inv Rejecting t"
    unfolding alive_inv_def dl using l out op by (simp add: life_at_def counts_at_def filter_remove1)
  show "outstanding t = outstanding s - {#request_tag#} + {#done_tag, reject_tag#}"
    using op by (simp add: dl)
  show "m_context (ctx_of (tsk t)) = m_context (ctx_of (tsk s))" by (simp add: dl)
qed

lemma notified:
  fixes T :: rpc_method_type and hooks :: "('req, 'resp) task_hooks" and cleared :: 'req
    and d :: "'req delivery" and s :: "('req, 'resp) sys"
  defines "t \<equiv> deliver T hooks cleared done_tag d s"
  assumes "alive_inv ph s" and "ph \<noteq> Gone" and "done_tag \<in># outstanding s"
  shows "alive_inv ph t" and "outstanding t = outstanding s - {#done_tag#}"
    and "m_context (ctx_of (tsk t)) = m_context (ctx_of (tsk s))"
    and "m_is_cancelled (ctx_of (tsk t)) = (m_is_cancelled (ctx_of (tsk s)) \<or> (d_ok d \<and> d_cancelled d))"
proof -
  have "coro (tsk s) \<noteq> Destroyed"
    using assms(2,3) by (cases ph) (simp_all add: alive_inv_def life_at_def)
  then show "m_context (ctx_of (tsk t)) = m_context (ctx_of (tsk s))"
    "m_is_cancelled (ctx_of (tsk t)) = (m_is_cancelled (ctx_of (tsk s)) \<or> (d_ok d \<and> d_cancelled d))"
    by (simp_all add: t_def deliver_def handle_event_def promise_result runtime_writes_def tag_defs)
  show "alive_inv ph t"
    using deliver_done [of ph s] assms by (simp add: alive_inv_def)
  show "outstanding t = outstanding s - {#done_tag#}"
    unfolding t_def by (rule deliver_done_outstanding [OF assms(2-4)])
qed

lemma next_request:
  fixes T :: rpc_method_type and hooks :: "('req, 'resp) task_hooks" and cleared :: 'req
    and d :: "'req delivery" and s :: "('req, 'resp) sys"
  defines "t \<equiv> deliver T hooks cleared reject_tag d s"
  assumes "alive_inv Rejecting s"
  shows "alive_inv Requesting t" and "outstanding t = outstanding s - {#reject_tag#} + {#request_tag#}"
    and "m_context (ctx_of (tsk t)) = Suc (m_context (ctx_of (tsk s)))"
    and "m_is_cancelled (ctx_of (tsk t)) = m_is_cancelled (ctx_of (tsk s))"
proof -
  have l: "life_at Rejecting s" "counts_at Rejecting s" using assms(2) by (simp_all add: alive_inv_def)
  have out: "reject_tag \<in># outstanding s" by (rule awaited_outstanding [OF assms(2)]) simp
  show "alive_inv Requesting t" using deliver_reject [OF l out] by (simp add: t_def alive_inv_def)
  have w: "m_is_cancelled (ctx_of (runtime_writes T reject_tag d (tsk s))) = m_is_cancelled (ctx_of (tsk s))"
    by (auto simp: runtime_writes_def tag_defs)
  have dl: "t = absorb (Inr (start_grpc_call T cleared (reset_context (runtime_writes T reject_tag d (tsk s)))))
       (s\<lparr>outstanding := outstanding s - {#reject_tag#}\<rparr>)"
    using l(1) by (simp add: t_def deliver_def handle_event_def initial_handle_event_def life_at_def)
  show "outstanding t = outstanding s - {#reject_tag#} + {#request_tag#}"
    "m_context (ctx_of (tsk t)) = Suc (m_context (ctx_of (tsk s)))"
    "m_is_cancelled (ctx_of (tsk t)) = m_is_cancelled (ctx_of (tsk s))"
    unfolding dl start_grpc_call_def reset_context_def Let_def using w by (simp_all add: tag_defs)
qed

lemma completion_step:
  assumes "alive_inv ph s" and "awaited ph = {#tag#}" and "order (outstanding s) tag"
  shows "task_step T hooks cleared order s (deliver T hooks cleared tag d s)"
  using awaited_outstanding [OF assms(1,2)] assms(1,3)
  by (intro task_step.completion) (simp_all add: alive_inv_def life_at_def)

lemma return_step:
  fixes T :: rpc_method_type and hooks :: "('req, 'resp) task_hooks" and st :: status
  defines "t s \<equiv> absorb (Inr (suspend_final T (return_value st (tsk s)))) s"
  assumes "alive_inv InBody s"
  shows "task_step T hooks cleared order s (t s)" and "alive_inv Finishing (t s)"
    and "outstanding (t s) = outstanding s + {#final_tag#}"
proof -
  have l: "life_at InBody s" "counts_at InBody s" using assms(2) by (simp_all add: alive_inv_def)
  show "task_step T hooks cleared order s (t s)"
    unfolding t_def using l(1) by (intro task_step.body [where act = "CoReturn st"]) (simp_all add: life_at_def)
  show "alive_inv Finishing (t s)"
    using finish_life [OF l] by (simp add: t_def alive_inv_def return_value_def)
  show "outstanding (t s) = outstanding s + {#final_tag#}"
    using suspend_final_result [of T "return_value st (tsk s)"] by (auto simp: t_def)
qed

text \<open>The completion of the final operation, and then the notification.\<close>

lemma final_then_notification:
  fixes T :: rpc_method_type and hooks :: "('req, 'resp) task_hooks" and cleared :: 'req
    and d :: "'req delivery"
  defines "u s \<equiv> deliver T hooks cleared final_tag d s"
  assumes "alive_inv Finishing s" and "done_tag \<in># outstanding s"
  shows "alive_inv Gone (u s)" and "done_tag \<in># outstanding (u s)"
    and "failure (deliver T hooks cleared done_tag d (u s)) = Some UseAfterFree"
proof -
  have l: "life_at Finishing s" "counts_at Finishing s" using assms(2) by (simp_all add: alive_inv_def)
  have out: "final_tag \<in># outstanding s" by (rule awaited_outstanding [OF assms(2)]) simp
  show gone: "alive_inv Gone (u s)" using deliver_final [OF l out] by (simp add: u_def alive_inv_def)
  show "done_tag \<in># outstanding (u s)"
    using assms(3) l(1) unfolding u_def
    by (simp add: deliver_def handle_event_def final_handle_event_def life_at_def in_diff_count)
  show "failure (deliver T hooks cleared done_tag d (u s)) = Some UseAfterFree"
    using gone by (simp add: deliver_def handle_event_def alive_inv_def life_at_def absorb_def)
qed

text \<open>
C32: without the ordering contract the task is not safe, for any kind of method: if the queue returns
the completion of the final operation before the notification registered by
\<open>AsyncNotifyWhenDone\<close>, the frame is destroyed while the notification is outstanding, and the
notification then reaches a promise that is gone. Nothing in the final suspension waits for it.
\<close>

theorem notification_may_find_no_task:
  "\<exists>s. reaches T (noop_task_hook ndebug) cleared any_order s \<and> failure s = Some UseAfterFree"
proof -
  let ?hooks = "noop_task_hook ndebug :: ('a, 'b) task_hooks" and ?ok = "Status STATUS_OK ''''"
  let ?d = "ok_delivery cleared"
  fix h :: coro_handle and req :: 'a and resp :: 'b
  define s0 where "s0 = initial_sys T cleared h req resp"
  define s1 where "s1 = deliver T ?hooks cleared request_tag ?d s0"
  define s2 where "s2 = absorb (Inr (suspend_final T (return_value ?ok (tsk s1)))) s1"
  define s3 where "s3 = deliver T ?hooks cleared final_tag ?d s2"
  define s4 where "s4 = deliver T ?hooks cleared done_tag ?d s3"
  have s0: "alive_inv Requesting s0" unfolding s0_def by (rule alive_initial)
  have s1: "alive_inv InBody s1" "done_tag \<in># outstanding s1"
    unfolding s1_def by (rule accepted_request [OF s0, of _ _ _ ?ok]; simp add: noop_task_hook_def)+
  have s2: "task_step T ?hooks cleared any_order s1 s2" "alive_inv Finishing s2"
      "outstanding s2 = outstanding s1 + {#final_tag#}"
    unfolding s2_def by (rule return_step [OF s1(1)])+
  have s2d: "done_tag \<in># outstanding s2" using s2(3) s1(2) by simp
  have s3: "alive_inv Gone s3" "done_tag \<in># outstanding s3" "failure s4 = Some UseAfterFree"
    unfolding s4_def s3_def by (rule final_then_notification [OF s2(2) s2d])+
  have "task_step T ?hooks cleared any_order s0 s1" unfolding s1_def
    by (rule completion_step [OF s0]) (simp_all add: any_order_def)
  moreover note s2(1)
  moreover have "task_step T ?hooks cleared any_order s2 s3" unfolding s3_def
    by (rule completion_step [OF s2(2)]) (simp_all add: any_order_def)
  moreover have "task_step T ?hooks cleared any_order s3 s4" unfolding s4_def
    using s3(1,2) by (intro task_step.completion) (simp_all add: any_order_def alive_inv_def life_at_def)
  ultimately have "task_run T ?hooks cleared any_order s0 s4"
    by (meson converse_rtranclp_into_rtranclp rtranclp.rtrancl_refl)
  with s3(3) show ?thesis unfolding s0_def by blast
qed

text \<open>A hook that rejects the first call of a frame and accepts the following ones.\<close>

definition reject_first :: "('req, 'resp) task_hooks" where
  "reject_first =
     (noop_task_hook True)\<lparr>on_authenticate := (\<lambda>t. Some (if m_context (ctx_of t) = 0
        then Status STATUS_UNAUTHENTICATED '''' else Status STATUS_OK ''''))\<rparr>"

text \<open>
C34: the cancellation of a rejected call is not forgotten when the context is reset: there is a run,
within the ordering contract, in which the next call of the frame enters user code with
\<open>cancelled()\<close> already set although nobody cancelled it and its own notification is outstanding.
\<close>

theorem cancellation_leaks_into_next_call:
  "\<exists>s. reaches T reject_first cleared done_first s \<and> phase_of s = InBody \<and>
       m_is_cancelled (ctx_of (tsk s)) \<and> m_context (ctx_of (tsk s)) = 1 \<and> done_tag \<in># outstanding s"
proof -
  let ?hooks = "reject_first :: ('a, 'b) task_hooks"
  let ?d = "ok_delivery cleared"
  let ?c = "\<lparr>d_ok = True, d_cancelled = True, d_message = cleared\<rparr>"
  fix h :: coro_handle and req :: 'a and resp :: 'b
  define s0 where "s0 = initial_sys T cleared h req resp"
  define s1 where "s1 = deliver T ?hooks cleared request_tag ?d s0"
  define s2 where "s2 = deliver T ?hooks cleared done_tag ?c s1"
  define s3 where "s3 = deliver T ?hooks cleared reject_tag ?d s2"
  define s4 where "s4 = deliver T ?hooks cleared request_tag ?d s3"
  have s0: "alive_inv Requesting s0" unfolding s0_def by (rule alive_initial)
  have c0: "m_context (ctx_of (tsk s0)) = 0" "outstanding s0 = {#request_tag#}"
    by (simp_all add: s0_def initial_sys_def initial_await_suspend_def start_grpc_call_def
        promise_type_def Let_def tag_defs)
  have r1: "awaited Requesting = {#request_tag#}" "awaited Rejecting = {#reject_tag#}" by simp_all
  have a0: "on_authenticate ?hooks (runtime_writes T request_tag ?d (tsk s0)) =
      Some (Status STATUS_UNAUTHENTICATED '''')"
    by (simp add: reject_first_def c0)
  have s1: "alive_inv Rejecting s1" "outstanding s1 = {#done_tag, reject_tag#}"
     "m_context (ctx_of (tsk s1)) = 0"
    using rejected_request [OF s0 a0, of cleared] c0 by (simp_all add: s1_def)
  have s2: "alive_inv Rejecting s2" "m_is_cancelled (ctx_of (tsk s2))" "outstanding s2 = {#reject_tag#}"
     "m_context (ctx_of (tsk s2)) = 0"
    using notified [OF s1(1), of T ?hooks cleared ?c] s1 by (simp_all add: s2_def)
  have s3: "alive_inv Requesting s3" "m_is_cancelled (ctx_of (tsk s3))" "outstanding s3 = {#request_tag#}"
     "m_context (ctx_of (tsk s3)) = 1"
    using next_request [OF s2(1), of T ?hooks cleared ?d] s2 by (simp_all add: s3_def)
  have a3: "on_authenticate ?hooks (runtime_writes T request_tag ?d (tsk s3)) =
      Some (Status STATUS_OK '''')"
    by (simp add: reject_first_def s3)
  have s4: "alive_inv InBody s4" "done_tag \<in># outstanding s4" "m_is_cancelled (ctx_of (tsk s4))"
     "m_context (ctx_of (tsk s4)) = 1"
    using accepted_request [OF s3(1) a3, of cleared] s3 by (simp_all add: s4_def)
  have "task_step T ?hooks cleared done_first s0 s1" unfolding s1_def
    by (rule completion_step [OF s0 r1(1)]) (simp add: done_first_def tag_defs)
  moreover have "task_step T ?hooks cleared done_first s1 s2" unfolding s2_def
    using s1 by (intro task_step.completion) (simp_all add: done_first_def alive_inv_def life_at_def)
  moreover have "task_step T ?hooks cleared done_first s2 s3" unfolding s3_def
    by (rule completion_step [OF s2(1) r1(2)]) (simp add: done_first_def s2)
  moreover have "task_step T ?hooks cleared done_first s3 s4" unfolding s4_def
    by (rule completion_step [OF s3(1) r1(1)]) (simp add: done_first_def tag_defs)
  ultimately have "task_run T ?hooks cleared done_first s0 s4"
    by (meson converse_rtranclp_into_rtranclp rtranclp.rtrancl_refl)
  then show ?thesis using s4 alive_phase [OF s4(1)] unfolding s0_def by blast
qed

end
