(* ===== verification/Dispatch_Spec.thy ===== *)
theory Dispatch_Spec
  imports Prelude
begin

text \<open>
  What the two dispatchers of the program, \<open>client_cq\<close> and \<open>server\<close>, promise: a function pushed from
  any thread is run on a completion queue thread, once and in order, woken by an alarm that is never
  set twice. The specification is a small machine; an interface says what it means to implement it.
\<close>

section \<open>The queue of the asyncpp library\<close>

text \<open>
  \<open>asyncpp::threadsafe_queue\<close>: both operations are atomic; \<open>contents\<close> is what was put in and not
  taken out, oldest first.
\<close>

locale fifo_queue =
  fixes empty :: 'q
    and emplace :: "'f \<Rightarrow> 'q \<Rightarrow> 'q"
    and pop :: "'q \<Rightarrow> ('f \<times> 'q) option"
    and contents :: "'q \<Rightarrow> 'f list"
  assumes contents_empty: "contents empty = []"
    and contents_emplace: "contents (emplace f q) = contents q @ [f]"
    and pop_None: "pop q = None \<Longrightarrow> contents q = []"
    and pop_Some: "pop q = Some (f, q') \<Longrightarrow> contents q = f # contents q'"
begin

lemma pop_cases:
  obtains "pop q = None" "contents q = []"
    | f q' where "pop q = Some (f, q')" "contents q = f # contents q'"
  using pop_None pop_Some by (cases "pop q") auto

end

definition list_pop :: "'f list \<Rightarrow> ('f \<times> 'f list) option" where
  "list_pop q = (case q of [] \<Rightarrow> None | f # q' \<Rightarrow> Some (f, q'))"

interpretation list_queue: fifo_queue "[]" "\<lambda>f q. q @ [f]" list_pop id
  by unfold_locales (auto simp: list_pop_def split: list.splits)

section \<open>The specification\<close>

text \<open>
  There is one wake-up token. A thread that pushed (\<open>checks\<close>) looks whether it is free; if so it takes
  it and sets the alarm, and the handler the alarm leads to releases it again, before or after it
  looked for work a first time. A handler that released the token goes on until it finds no work.
\<close>

datatype token = Free | Arming | Armed | Draining | Releasing

record 'f dispatch =
  d_queue :: "'f list"
  d_pushed :: "'f list"
  d_popped :: "'f list"
  d_checks :: nat
  d_token :: token
  d_helpers :: nat

definition dispatch_init :: "'f dispatch" where
  "dispatch_init = \<lparr>d_queue = [], d_pushed = [], d_popped = [], d_checks = 0, d_token = Free, d_helpers = 0\<rparr>"

definition dispatch_push :: "'f \<Rightarrow> 'f dispatch \<Rightarrow> 'f dispatch" where
  "dispatch_push f a = a\<lparr>d_queue := d_queue a @ [f], d_pushed := d_pushed a @ [f], d_checks := Suc (d_checks a)\<rparr>"

definition dispatch_pop :: "'f dispatch \<Rightarrow> 'f dispatch" where
  "dispatch_pop a = a\<lparr>d_queue := tl (d_queue a), d_popped := d_popped a @ [hd (d_queue a)]\<rparr>"

inductive dispatch_step :: "'f dispatch \<Rightarrow> 'f dispatch \<Rightarrow> bool" where
  check_taken: "d_checks a = Suc n \<Longrightarrow> d_token a \<noteq> Free \<Longrightarrow> dispatch_step a (a\<lparr>d_checks := n\<rparr>)"
| check_free: "d_checks a = Suc n \<Longrightarrow> d_token a = Free \<Longrightarrow>
     dispatch_step a (a\<lparr>d_checks := n, d_token := Arming\<rparr>)"
| arm: "d_token a = Arming \<Longrightarrow> dispatch_step a (a\<lparr>d_token := Armed\<rparr>)"
| fire: "d_token a = Armed \<Longrightarrow> tk \<in> {Draining, Releasing} \<Longrightarrow> dispatch_step a (a\<lparr>d_token := tk\<rparr>)"
| drain: "d_token a = Draining \<Longrightarrow> d_queue a \<noteq> [] \<Longrightarrow> dispatch_step a (dispatch_pop a)"
| drained: "d_token a = Draining \<Longrightarrow> d_queue a = [] \<Longrightarrow> dispatch_step a (a\<lparr>d_token := Releasing\<rparr>)"
| release: "d_token a = Releasing \<Longrightarrow>
     dispatch_step a (a\<lparr>d_token := Free, d_helpers := Suc (d_helpers a)\<rparr>)"
| helps: "0 < d_helpers a \<Longrightarrow> d_queue a \<noteq> [] \<Longrightarrow> dispatch_step a (dispatch_pop a)"
| leaves: "d_helpers a = Suc n \<Longrightarrow> d_queue a = [] \<Longrightarrow> dispatch_step a (a\<lparr>d_helpers := n\<rparr>)"

inductive_cases dispatch_stepE: "dispatch_step a b"

text \<open>Someone will still look for work.\<close>

definition attended :: "'f dispatch \<Rightarrow> bool" where
  "attended a \<longleftrightarrow> 0 < d_checks a \<or> d_token a \<noteq> Free \<or> 0 < d_helpers a"

definition dispatch_inv :: "'f dispatch \<Rightarrow> bool" where
  "dispatch_inv a \<longleftrightarrow> d_pushed a = d_popped a @ d_queue a \<and> (d_queue a = [] \<or> attended a)"

fun token_weight :: "token \<Rightarrow> nat" where
  "token_weight Free = 0"
| "token_weight Arming = 5"
| "token_weight Armed = 4"
| "token_weight Draining = 3"
| "token_weight Releasing = 2"

definition work_left :: "'f dispatch \<Rightarrow> nat" where
  "work_left a = 6 * d_checks a + token_weight (d_token a) + d_helpers a + length (d_queue a)"

lemmas dispatch_defs = dispatch_inv_def attended_def work_left_def dispatch_pop_def dispatch_push_def
  dispatch_init_def

lemma dispatch_inv_init: "dispatch_inv dispatch_init"
  by (simp add: dispatch_defs)

lemma dispatch_inv_push: "dispatch_inv a \<Longrightarrow> dispatch_inv (dispatch_push f a)"
  by (simp add: dispatch_defs)

lemma dispatch_inv_step: "dispatch_step a b \<Longrightarrow> dispatch_inv a \<Longrightarrow> dispatch_inv b"
  by (erule dispatch_stepE) (auto simp: dispatch_defs)

text \<open>Every step but a push uses up work, and some step is possible while anyone is there.\<close>

lemma dispatch_step_works: "dispatch_step a b \<Longrightarrow> work_left b < work_left a"
  by (erule dispatch_stepE) (auto simp: dispatch_defs)

lemma attended_steps: "attended a \<longleftrightarrow> (\<exists>b. dispatch_step a b)"
proof
  assume "attended a"
  then consider n where "d_checks a = Suc n" | "d_token a \<noteq> Free" | n where "d_helpers a = Suc n"
    by (auto simp: attended_def gr0_conv_Suc)
  then show "\<exists>b. dispatch_step a b"
  proof cases
    case 1
    then show ?thesis by (cases "d_token a = Free") (blast intro: dispatch_step.intros)+
  next
    case 2
    then show ?thesis
      by (cases "d_token a"; cases "d_queue a = []") (blast intro: dispatch_step.intros)+
  next
    case 3
    then have "0 < d_helpers a" by simp
    with 3 show ?thesis
      using dispatch_step.helps [of a] dispatch_step.leaves [of a n] by (cases "d_queue a = []") blast+
  qed
qed (auto elim!: dispatch_stepE simp: attended_def)

section \<open>The interface of a dispatcher\<close>

text \<open>
  A dispatcher keeps its functions in a queue of the library. \<open>push_first\<close> is the first step of a
  push, after which the pushing thread goes on like every other thread by \<open>step\<close>. \<open>rel\<close> relates its
  states to those of the specification.
\<close>

definition pushes_and_steps ::
  "('f \<Rightarrow> 's \<Rightarrow> 's) \<Rightarrow> ('s \<Rightarrow> 's \<Rightarrow> bool) \<Rightarrow> 's \<Rightarrow> 's \<Rightarrow> bool" where
  "pushes_and_steps push_first step s t \<longleftrightarrow> step s t \<or> (\<exists>f. t = push_first f s)"

text \<open>There is a bound on the number of steps that can be taken.\<close>

definition runs_bounded :: "('s \<Rightarrow> 's \<Rightarrow> bool) \<Rightarrow> 's \<Rightarrow> bool" where
  "runs_bounded step s \<longleftrightarrow> (\<exists>n. \<forall>k t. (step ^^ k) s t \<longrightarrow> k \<le> n)"

locale dispatcher = fifo_queue empty emplace pop contents
  for empty :: 'q and emplace :: "'f \<Rightarrow> 'q \<Rightarrow> 'q" and pop and contents :: "'q \<Rightarrow> 'f list" +
  fixes init :: 's
    and push_first :: "'f \<Rightarrow> 's \<Rightarrow> 's"
    and step :: "'s \<Rightarrow> 's \<Rightarrow> bool"
    and rel :: "'s \<Rightarrow> 'f dispatch \<Rightarrow> bool"
  assumes rel_init: "rel init dispatch_init"
    and rel_push: "rel s a \<Longrightarrow> rel (push_first f s) (dispatch_push f a)"
    and rel_step: "rel s a \<Longrightarrow> step s t \<Longrightarrow> \<exists>b. dispatch_step a b \<and> rel t b"
    and rel_progress: "rel s a \<Longrightarrow> attended a \<Longrightarrow> \<exists>t. step s t"
begin

lemma reachable_rel:
  assumes "(pushes_and_steps push_first step)\<^sup>*\<^sup>* init s"
  shows "\<exists>a. rel s a \<and> dispatch_inv a"
  using assms
proof (rule rtranclp_invariant)
  show "\<exists>a. rel init a \<and> dispatch_inv a" using rel_init dispatch_inv_init by blast
next
  fix u v
  assume "\<exists>a. rel u a \<and> dispatch_inv a" and "pushes_and_steps push_first step u v"
  then show "\<exists>a. rel v a \<and> dispatch_inv a"
    unfolding pushes_and_steps_def using rel_step dispatch_inv_step rel_push dispatch_inv_push by metis
qed

lemma steps_bounded: "rel s a \<Longrightarrow> (step ^^ k) s t \<Longrightarrow> \<exists>b. rel t b \<and> work_left b + k \<le> work_left a"
proof (induction k arbitrary: t)
  case 0
  then show ?case by auto
next
  case (Suc k)
  from Suc.prems(2) obtain u where u: "(step ^^ k) s u" "step u t" by auto
  obtain b where b: "rel u b" "work_left b + k \<le> work_left a" using Suc.IH [OF Suc.prems(1) u(1)] by blast
  obtain c where "dispatch_step b c" "rel t c" using rel_step [OF b(1) u(2)] by blast
  with b(2) dispatch_step_works [of b c] show ?case by (intro exI [of _ c]) simp
qed

text \<open>Nothing is lost: while work is queued some thread can go on, and no thread goes on for ever.\<close>

lemma work_goes_on: "rel s a \<Longrightarrow> dispatch_inv a \<Longrightarrow> d_queue a \<noteq> [] \<Longrightarrow> \<exists>t. step s t"
  using rel_progress by (auto simp: dispatch_inv_def)

lemma runs_end: "rel s a \<Longrightarrow> runs_bounded step s"
  unfolding runs_bounded_def using steps_bounded by (intro exI [of _ "work_left a"]) fastforce

lemma stuck_is_done:
  "rel s a \<Longrightarrow> dispatch_inv a \<Longrightarrow> \<nexists>t. step s t \<Longrightarrow> d_queue a = [] \<and> d_popped a = d_pushed a"
  using work_goes_on by (fastforce simp: dispatch_inv_def)

end

end
