(* ===== verification/Task_Shutdown.thy ===== *)
theory Task_Shutdown
  imports Task_Ends Dispatch_Spec
begin

text \<open>
  A server task (\<open>include/asyncpp/grpc/task.h\<close>) when the server is shut down. From then on no call is
  accepted, so the runtime completes requests with \<open>ok = false\<close>; everything else goes on as before. The
  body is user code: it is given a number of actions it may still take.
\<close>

section \<open>Steps after the shutdown\<close>

inductive shut_step ::
  "rpc_method_type \<Rightarrow> ('req, 'resp) task_hooks \<Rightarrow> 'req \<Rightarrow> nat \<times> ('req, 'resp) sys \<Rightarrow> nat \<times> ('req, 'resp) sys \<Rightarrow> bool"
  for T hooks cleared where
  shut_completion: "failure s = None \<Longrightarrow> tag \<in># outstanding s \<Longrightarrow> done_first (outstanding s) tag \<Longrightarrow>
     (tag = request_tag \<Longrightarrow> \<not> d_ok d) \<Longrightarrow> shut_step T hooks cleared (k, s) (k, deliver T hooks cleared tag d s)"
| shut_authenticated: "failure s = None \<Longrightarrow> auth_pending (tsk s) \<Longrightarrow>
     shut_step T hooks cleared (k, s) (k, absorb (deferred_auth T result (tsk s)) s)"
| shut_body: "failure s = None \<Longrightarrow> coro (tsk s) = Running \<Longrightarrow> body_step T hooks act (tsk s) = Some r \<Longrightarrow>
     shut_step T hooks cleared (Suc k, s) (k, absorb r s)"
| shut_other_resumed: "failure s = None \<Longrightarrow> coro (tsk s) = SuspendedOther \<Longrightarrow>
     shut_step T hooks cleared (k, s) (k, s\<lparr>tsk := (tsk s)\<lparr>coro := Running\<rparr>\<rparr>)"

lemma shut_step_is_step: "shut_step T hooks cleared x y \<Longrightarrow> task_step T hooks cleared done_first (snd x) (snd y)"
  by (erule shut_step.cases) (auto intro: task_step.intros)

section \<open>The measure\<close>

text \<open>Notifications that are still to come, and how far a phase is from the end.\<close>

definition notifications :: "('req, 'resp) sys \<Rightarrow> nat" where
  "notifications s = size (filter_mset (\<lambda>t. t = done_tag) (outstanding s))"

fun shut_stage :: "phase \<Rightarrow> nat" where
  "shut_stage Gone = 0"
| "shut_stage Requesting = 1"
| "shut_stage Finishing = 1"
| "shut_stage Rejecting = 2"
| "shut_stage InBody = 3"
| "shut_stage InOp = 4"
| "shut_stage InOther = 4"
| "shut_stage Authenticating = 5"

definition shut_left :: "phase \<Rightarrow> nat \<Rightarrow> ('req, 'resp) sys \<Rightarrow> nat" where
  "shut_left ph k s = shut_stage ph + notifications s + 2 * k"

lemma notifications_absorb:
  assumes "no_done r"
  shows "notifications (absorb r s) = notifications s"
proof (cases r)
  case (Inr x)
  obtain t es where x: "x = (t, es)" by (cases x)
  with assms Inr have "done_tag \<notin> set (List.map_filter op_tag (issued es))" by (simp add: no_done_def)
  then have "filter_mset (\<lambda>t. t = done_tag) (mset (List.map_filter op_tag (issued es))) = {#}"
    by (auto simp: filter_mset_eq_mempty_iff)
  then show ?thesis using Inr x by (simp add: notifications_def absorb_def)
qed (simp add: notifications_def absorb_def)

lemma notifications_deliver:
  assumes "tag \<in># outstanding s" and "tag = request_tag \<Longrightarrow> \<not> d_ok d"
  shows "notifications (deliver T hooks cleared tag d s) + (if tag = done_tag then 1 else 0) = notifications s"
proof -
  have "notifications (deliver T hooks cleared tag d s) = size (filter_mset (\<lambda>t. t = done_tag) (outstanding s - {#tag#}))"
    unfolding deliver_def notifications_absorb [OF no_done_handle_event] using assms(2) by (simp add: notifications_def)
  then show ?thesis using size_filter_remove [OF assms(1), of "\<lambda>t. t = done_tag"] by (simp add: notifications_def)
qed

lemma no_done_body: "body_step T hooks act t = Some r \<Longrightarrow> no_done r"
proof (cases "awaits_operation act")
  assume r: "body_step T hooks act t = Some r"
  case True
  from op_body_result [OF this r] show ?thesis by (auto simp: no_done_def)
next
  assume r: "body_step T hooks act t = Some r"
  have fin: "no_done (Inr (suspend_final T u))" for u :: "('a, 'b) task"
    using suspend_final_result [of T u] by (auto simp: no_done_def)
  case False
  then show ?thesis
    using r by (cases act) (auto simp: no_done_nil fin no_done_Inl split: if_splits sum.splits)
qed

text \<open>Every step goes forward.\<close>

lemma shut_step_works:
  assumes "shut_step T hooks cleared (k, s) (l, t)" and "alive_inv ph s" and "settled ph s" and "well_behaved hooks"
  shows "\<exists>ph'. alive_inv ph' t \<and> settled ph' t \<and> shut_left ph' l t < shut_left ph k s"
proof -
  have step: "task_step T hooks cleared done_first s t" using shut_step_is_step [OF assms(1)] by simp
  obtain ph' where ph': "ph' = ph \<or> phase_step ph ph'" "alive_inv ph' t" "settled ph' t"
    using step_settled [OF step assms(2,3,4)] by blast
  have alive: "ph \<noteq> Gone" using step_gone [OF step] assms(2,3) by (auto simp: settled_def)
  show ?thesis
    using assms(1)
  proof (cases rule: shut_step.cases)
    case (shut_completion tag d)
    obtain ph'' where next_ph: "if tag = done_tag then ph'' = ph else phase_step ph ph''"
        "tag = request_tag \<longrightarrow> (ph'' = Gone \<longleftrightarrow> \<not> d_ok d)" "alive_inv ph'' t"
      using completion_life [OF assms(2) shut_completion(4) alive, where d = d and T = T and hooks = hooks and cleared = cleared] shut_completion(1,2) by auto
    have "ph'' = ph'" using alive_phase [OF next_ph(3)] alive_phase [OF ph'(2)] by simp
    moreover have "shut_left ph'' l t < shut_left ph k s"
    proof (cases "tag = done_tag")
      case True
      then show ?thesis
        using next_ph(1) notifications_deliver [OF shut_completion(4) shut_completion(6), where T = T and hooks = hooks and cleared = cleared]
          shut_completion(1,2) by (auto simp: shut_left_def)
    next
      case False
      have "awaited ph = {#tag#}"
        using outstanding_cases [of ph s tag] assms(2) shut_completion(4) False by (auto simp: alive_inv_def)
      with next_ph(1,2) shut_completion(6) False have "shut_stage ph'' < shut_stage ph" by (cases ph) auto
      then show ?thesis
        using notifications_deliver [OF shut_completion(4) shut_completion(6), where T = T and hooks = hooks and cleared = cleared] False
          shut_completion(1,2) by (auto simp: shut_left_def)
    qed
    ultimately show ?thesis using ph' by blast
  next
    case (shut_authenticated result)
    then have ph: "ph = Authenticating" using assms(2) by (simp add: alive_inv_def life_at_def)
    obtain ph'' where "phase_step Authenticating ph''" "alive_inv ph'' t"
      using auth_life [of s T result] assms(2) shut_authenticated ph by (auto simp: alive_inv_def)
    moreover from this have "ph'' = ph'" using alive_phase ph'(2) by blast
    moreover have "notifications t = notifications s"
      using shut_authenticated by (simp add: notifications_absorb deferred_auth_def no_done_auth)
    ultimately show ?thesis using ph' ph shut_authenticated by (intro exI [of _ ph']) (auto simp: shut_left_def)
  next
    case (shut_body act r)
    then have ph: "ph = InBody" using assms(2) by (cases ph) (auto simp: alive_inv_def life_at_def)
    have "notifications t = notifications s"
      using shut_body notifications_absorb [OF no_done_body] by blast
    then show ?thesis using ph' ph shut_body by (intro exI [of _ ph']) (auto simp: shut_left_def)
  next
    case shut_other_resumed
    then have ph: "ph = InOther" using assms(2) by (cases ph) (auto simp: alive_inv_def life_at_def)
    have "phase_of t = InBody" using shut_other_resumed by (simp add: phase_of_def)
    then have "ph' = InBody" using alive_phase [OF ph'(2)] by simp
    then show ?thesis
      using ph' ph shut_other_resumed by (intro exI [of _ ph']) (auto simp: shut_left_def notifications_def)
  qed
qed

lemma shut_runs_bounded:
  "(shut_step T hooks cleared ^^ n) (k, s) (l, t) \<Longrightarrow> alive_inv ph s \<Longrightarrow> settled ph s \<Longrightarrow> well_behaved hooks \<Longrightarrow>
     \<exists>ph'. alive_inv ph' t \<and> settled ph' t \<and> shut_left ph' l t + n \<le> shut_left ph k s"
proof (induction n arbitrary: l t)
  case (Suc n)
  from Suc.prems(1) obtain x where x: "(shut_step T hooks cleared ^^ n) (k, s) x" "shut_step T hooks cleared x (l, t)" by auto
  obtain m u where u: "x = (m, u)" by (cases x)
  obtain ph' where ph': "alive_inv ph' u" "settled ph' u" "shut_left ph' m u + n \<le> shut_left ph k s"
    using Suc.IH [OF x(1) [unfolded u] Suc.prems(2,3,4)] by blast
  from shut_step_works [OF x(2) [unfolded u] ph'(1,2) Suc.prems(4)] ph'(3) show ?case by fastforce
qed auto

text \<open>A frame that is not gone goes on, unless its body is running and takes no action.\<close>

lemma shut_goes_on:
  assumes "alive_inv ph s" and "settled ph s"
  shows "(\<exists>y. shut_step T hooks cleared (k, s) y) \<or> ph = Gone \<and> outstanding s = {#} \<or> ph = InBody \<and> k = 0"
proof -
  have l: "life_at ph s" and f: "failure s = None" using assms(1) by (simp_all add: alive_inv_def life_at_def)
  show ?thesis
  proof (cases "ph = Gone")
    case True
    then have "t = done_tag" if "t \<in># outstanding s" for t using outstanding_cases [OF l that] by simp
    moreover have "done_tag \<notin># outstanding s" using True assms(2) by (simp add: settled_def)
    ultimately have "t \<notin># outstanding s" for t by metis
    with True show ?thesis by (meson multiset_nonemptyE)
  next
    case False
    let ?d = "\<lparr>d_ok = False, d_cancelled = False, d_message = cleared\<rparr>"
    have delivered: "\<exists>y. shut_step T hooks cleared (k, s) y" if "tag \<in># outstanding s" "done_first (outstanding s) tag" for tag
      by (rule exI, rule shut_step.shut_completion [OF f that, of ?d]) simp
    consider tag where "awaited ph = {#tag#}" | "ph = Authenticating" | "ph = InBody" | "ph = InOther"
      using False by (cases ph) auto
    then show ?thesis
    proof cases
      case (1 tag)
      have "tag \<in># outstanding s" by (rule awaited_outstanding [OF assms(1) 1])
      with delivered [of tag] delivered [of done_tag] show ?thesis
        by (cases "done_tag \<in># outstanding s") (auto simp: done_first_def)
    next
      case 2
      then have "auth_pending (tsk s)" using l by (simp add: life_at_def)
      from shut_step.shut_authenticated [OF f this] show ?thesis by blast
    next
      case 3
      show ?thesis
      proof (cases k)
        case (Suc m)
        have "coro (tsk s) = Running" using 3 l by (simp add: life_at_def)
        then have "shut_step T hooks cleared (Suc m, s) (m, absorb (Inr (tsk s, [])) s)"
          using f by (intro shut_step.shut_body [where act = AwaitRpcInfo]) simp_all
        then show ?thesis unfolding Suc by blast
      qed (use 3 in simp)
    next
      case 4
      then have "coro (tsk s) = SuspendedOther" using l by (simp add: life_at_def)
      from shut_step.shut_other_resumed [OF f this] show ?thesis by blast
    qed
  qed
qed

section \<open>Properties\<close>

text \<open>
A server task does not survive the shutdown of its server: from every state it can be in when the server is
shut down, whatever it was doing, every run ends, whatever the outcomes of its operations, and no step
fails; where a run ends, either the body itself runs and takes no more action, or the frame was destroyed,
exactly once, every call it accepted was finished, and nothing it asked for is outstanding, so that the
completion queue can be drained and the worker leaves its loop.
\<close>

theorem task_ends_after_shutdown:
  assumes "reaches T hooks cleared done_first s" and "well_behaved hooks"
  shows "runs_bounded (shut_step T hooks cleared) (k, s) \<and>
    ((shut_step T hooks cleared)\<^sup>*\<^sup>* (k, s) (l, t) \<longrightarrow> failure t = None \<and>
       ((\<exists>y. shut_step T hooks cleared (l, t) y) \<or> phase_of t = InBody \<and> l = 0 \<or>
        phase_of t = Gone \<and> outstanding t = {#} \<and> registered t = [] \<and> count is_destroy (trace t) = 1 \<and>
        count (\<lambda>e. e = RunHook OnAuthenticate) (trace t) = count is_finish_op (trace t)))"
proof -
  obtain ph where ph: "alive_inv ph s" "settled ph s" using reaches_settled [OF assms] by blast
  have "n \<le> shut_left ph k s" if "(shut_step T hooks cleared ^^ n) (k, s) y" for n y
    using shut_runs_bounded [of n T hooks cleared k s "fst y" "snd y", OF _ ph assms(2)] that by fastforce
  then have "runs_bounded (shut_step T hooks cleared) (k, s)" unfolding runs_bounded_def by blast
  moreover have "failure t = None \<and>
       ((\<exists>y. shut_step T hooks cleared (l, t) y) \<or> phase_of t = InBody \<and> l = 0 \<or>
        phase_of t = Gone \<and> outstanding t = {#} \<and> registered t = [] \<and> count is_destroy (trace t) = 1 \<and>
        count (\<lambda>e. e = RunHook OnAuthenticate) (trace t) = count is_finish_op (trace t))"
    if run: "(shut_step T hooks cleared)\<^sup>*\<^sup>* (k, s) (l, t)"
  proof -
    obtain n where "(shut_step T hooks cleared ^^ n) (k, s) (l, t)" using run by (auto simp: rtranclp_power)
    then obtain ph' where ph': "alive_inv ph' t" "settled ph' t"
      using shut_runs_bounded [OF _ ph assms(2)] by blast
    have "phase_of t = ph'" by (rule alive_phase [OF ph'(1)])
    moreover have "failure t = None" using ph'(1) by (simp add: alive_inv_def life_at_def)
    moreover have "registered t = [] \<and> count is_destroy (trace t) = 1 \<and>
        count (\<lambda>e. e = RunHook OnAuthenticate) (trace t) = count is_finish_op (trace t)" if "ph' = Gone"
      using ph'(1) that by (simp add: alive_inv_def life_at_def counts_at_def)
    ultimately show ?thesis using shut_goes_on [OF ph', of T hooks cleared l] by auto
  qed
  ultimately show ?thesis by blast
qed

theorem task_ends_after_shutdown_witness:
  "runs_bounded (shut_step Unary (noop_task_hook True) 0) (3, example_accepted)"
  by (rule task_ends_after_shutdown [OF example_reached(2) noop_well_behaved, THEN conjunct1])

end
