(* ===== verification/Task_Effects.thy ===== *)
theory Task_Effects
  imports Task_Correct
begin

text \<open>
  What a task does to the outside world: on which context it acts and what it does last, that a hook
  which rejects every call keeps everyone out of user code, and what the client is told at the end.
\<close>

section \<open>What a handler does last\<close>

text \<open>
  An operation that carries a tag of the task may be completed by another thread at once, and a
  resumed or destroyed frame may be gone: after one of these the handler must not touch anything.
  The notification is no such operation, since its tag is only returned for a call that started.
\<close>

fun ends_ownership :: "('resp server_op, 'hook) eff \<Rightarrow> bool" where
  "ends_ownership (Issue op) = (op_tag op \<noteq> None)"
| "ends_ownership (RunHook hk) = False"
| "ends_ownership _ = True"

definition hands_over_last :: "('resp server_op, 'hook) eff list \<Rightarrow> bool" where
  "hands_over_last es \<longleftrightarrow> (\<forall>e \<in> set (butlast es). \<not> ends_ownership e)"

definition on_current_context :: "('req, 'resp) task \<Rightarrow> ('req, 'resp) effs \<Rightarrow> bool" where
  "on_current_context t es \<longleftrightarrow>
     (\<forall>op \<in> set (issued es). op_context op = m_context (ctx_of t) \<and>
        request_context op \<in> {None, Some (m_context (ctx_of t))})"

definition bound :: "('req, 'resp) task \<Rightarrow> bool" where
  "bound t \<longleftrightarrow> m_stream (ctx_of t) = m_context (ctx_of t)"

definition good :: "('req, 'resp) result \<Rightarrow> bool" where
  "good r \<longleftrightarrow> (case r of Inl u \<Rightarrow> True
     | Inr (t, es) \<Rightarrow> hands_over_last es \<and> on_current_context t es \<and> bound t)"

lemmas good_defs = good_def hands_over_last_def on_current_context_def bound_def Let_def

lemma good_start: "bound t \<Longrightarrow> good (Inr (start_grpc_call T cleared t))"
  by (simp add: good_defs start_grpc_call_def)

lemma good_auth: "bound t \<Longrightarrow> good (auth_callback T result t)"
  by (auto simp: good_defs auth_callback_def split: option.split)

lemma bound_reset: "bound (reset_context t)"
  by (simp add: bound_def reset_context_def Let_def)

lemma good_hook: "good (Inr (t, es)) \<Longrightarrow> good (Inr (t, RunHook hk # es))"
  by (cases es) (auto simp: good_defs)

lemma good_initial:
  assumes "bound t"
  shows "good (initial_handle_event T hooks cleared idx ok t)"
proof -
  consider r where "idx = 0" "ok" "on_authenticate hooks t = Some r"
    | "idx = 0" "ok" "on_authenticate hooks t = None" | "idx = 0" "\<not> ok" | "idx = 1" | "idx \<notin> {0, 1}"
    by blast
  then show ?thesis
  proof cases
    case (1 r)
    have "good (auth_callback T r t)" by (rule good_auth [OF assms])
    with 1 show ?thesis
      by (auto simp: initial_handle_event_def good_def [of "Inl _"] split: sum.split intro!: good_hook)
  next
    case 4
    then show ?thesis by (simp add: initial_handle_event_def good_start [OF bound_reset])
  qed (use assms in \<open>auto simp: initial_handle_event_def good_defs split: option.split\<close>)
qed

lemma good_suspend_final: "bound t \<Longrightarrow> good (Inr (suspend_final T t))"
  by (simp add: good_defs suspend_final_def final_await_suspend_def)

lemma good_final: "bound t \<Longrightarrow> good (final_handle_event idx ok t)"
  by (simp add: good_defs final_handle_event_def split: option.split)

lemma good_op: "bound t \<Longrightarrow> good (op_handle_event ok t)"
  by (auto simp: good_defs op_handle_event_def awaiter_defs split: option.splits pending_op.splits)

lemma good_handle_event: "bound t \<Longrightarrow> good (handle_event T hooks cleared tag d t)"
  by (auto simp: handle_event_def good_initial good_op good_final promise_result split: calldata.split)
     (simp_all add: good_defs)

lemma good_body: "bound t \<Longrightarrow> body_step T hooks act t = Some r \<Longrightarrow> good r"
  apply (cases act)
  apply (auto simp: awaiter_defs new_awaiter_def context_write_def suspend_on_def return_value_def unhandled_exception_def
   intro!: good_suspend_final split: if_splits sum.splits)
  apply (auto simp: good_defs)
  done


text \<open>
C23: in whatever order completions arrive, whenever a task acts, it calls the runtime only for its
current context, on the stream bound to that context, and it does nothing after the first call that
can end its life: an operation that returns with a tag of this task, which another thread may
complete at once, or a resumption or destruction of the frame. Nor is it left with a stream bound
to a destroyed context.
\<close>

theorem task_acts_on_current_context:
  assumes "reaches T hooks cleared order s" and "well_behaved hooks"
    and "task_step T hooks cleared order s t"
  shows "\<exists>es. trace t = trace s @ es \<and> hands_over_last es \<and> on_current_context (tsk t) es \<and>
         m_stream (ctx_of (tsk t)) = m_context (ctx_of (tsk t))"
proof -
  have "failure s = None" using assms(3) by cases auto
  then obtain ph where "alive_inv ph s" using reaches_alive [OF assms(1,2)] by blast
  then have b: "bound (tsk s)" by (simp add: alive_inv_def life_at_def bound_def)
  have absorbed: "\<exists>es. trace (absorb r u) = trace u @ es \<and> hands_over_last es \<and>
      on_current_context (tsk (absorb r u)) es \<and> bound (tsk (absorb r u))"
    if "good r" "bound (tsk u)" for r :: "('a, 'b) result" and u
    using that by (cases r) (auto simp: good_def absorb_def hands_over_last_def on_current_context_def)
  from assms(3) have "\<exists>es. trace t = trace s @ es \<and> hands_over_last es \<and> on_current_context (tsk t) es \<and>
      bound (tsk t)"
  proof cases
    case (completion tag d)
    define u where "u = (if tag = request_tag then
          s\<lparr>outstanding := outstanding s - {#tag#} + (if d_ok d then mset (registered s) else {#}),
            registered := []\<rparr>
        else s\<lparr>outstanding := outstanding s - {#tag#}\<rparr>)"
    then have u: "trace u = trace s" "tsk u = tsk s" by simp_all
    have "bound (runtime_writes T tag d (tsk s))" using b by (simp add: bound_def)
    then have "good (handle_event T hooks cleared tag d (runtime_writes T tag d (tsk s)))"
      by (rule good_handle_event)
    from absorbed [OF this, of u] show ?thesis
      using b completion(1) by (simp add: deliver_def u u_def [symmetric])
  next
    case (authenticated result)
    have "good (deferred_auth T result (tsk s))"
      unfolding deferred_auth_def using b by (intro good_auth) (simp add: bound_def)
    with authenticated(1) b show ?thesis using absorbed by blast
  next
    case (body act r)
    then show ?thesis using absorbed good_body [OF b] b by blast
  qed (use b in \<open>simp add: hands_over_last_def on_current_context_def bound_def\<close>)
  then show ?thesis by (simp add: bound_def)
qed

theorem task_acts_on_current_context_witness:
  "\<exists>es. trace example_accepted = trace example_start @ es \<and> hands_over_last es \<and>
     on_current_context (tsk example_accepted) es \<and>
     m_stream (ctx_of (tsk example_accepted)) = m_context (ctx_of (tsk example_accepted))"
  by (rule task_acts_on_current_context [OF example_reached(3) noop_well_behaved example_step(2)])

section \<open>The authentication gate\<close>

fun op_status :: "'resp server_op \<Rightarrow> status option" where
  "op_status (Finish s st t) = Some st"
| "op_status (FinishMessage s m st t) = Some st"
| "op_status (FinishWithError s st t) = Some st"
| "op_status _ = None"

fun op_message :: "'resp server_op \<Rightarrow> 'resp option" where
  "op_message (FinishMessage s m st t) = Some m"
| "op_message (WriteOp s m t) = Some m"
| "op_message _ = None"

definition rejects_all :: "('req, 'resp) task_hooks \<Rightarrow> bool" where
  "rejects_all hooks \<longleftrightarrow> (\<forall>t. \<exists>r. on_authenticate hooks t = Some r \<and> \<not> status_ok r)"

text \<open>What a task may do that does not let a call near user code, and never finishes one well.\<close>

fun harmless :: "('resp server_op, ('req, 'resp) hook) eff \<Rightarrow> bool" where
  "harmless (RunHook hk) = (hk = OnAuthenticate)"
| "harmless (ResumeCoro h) = False"
| "harmless (Issue op) = (case op_status op of None \<Rightarrow> True | Some st \<Rightarrow> \<not> status_ok st)"
| "harmless _ = True"

definition kept_out :: "('req, 'resp) sys \<Rightarrow> bool" where
  "kept_out s \<longleftrightarrow> list_all harmless (trace s) \<and> phase_of s \<in> {Requesting, Rejecting, Gone}"

lemma start_harmless: "start_grpc_call T cleared t = (t', es) \<Longrightarrow> list_all harmless es"
  by (auto simp: start_grpc_call_def Let_def split: if_splits)

lemma initial_harmless:
  assumes "rejects_all hooks" and "initial_handle_event T hooks cleared idx ok t = Inr (t', es)"
  shows "list_all harmless es \<and> coro t' \<in> {coro t, Destroyed} \<and> auth_pending t' = auth_pending t"
proof -
  obtain r where "on_authenticate hooks t = Some r" "\<not> status_ok r"
    using assms(1) by (auto simp: rejects_all_def)
  with assms(2) show ?thesis
    using start_harmless [of T cleared "reset_context t"]
    by (auto simp: initial_handle_event_def auth_callback_def start_grpc_call_def reset_context_def Let_def
        split: if_splits option.splits)
qed

lemma step_kept_out:
  assumes st: "task_step T hooks cleared order s t" and inv: "alive_inv ph s" and wb: "well_behaved hooks"
    and rej: "rejects_all hooks" and ko: "kept_out s"
  shows "kept_out t \<or> failure t \<noteq> None"
proof -
  have l: "life_at ph s" using inv by (simp add: alive_inv_def)
  have ph: "ph \<in> {Requesting, Rejecting, Gone}" using ko alive_phase [OF inv] by (simp add: kept_out_def)
  show ?thesis
  proof (cases "ph = Gone")
    case True
    then show ?thesis using step_gone [OF st] inv by simp
  next
    case False
    with ph have ph: "ph \<in> {Requesting, Rejecting}" by simp
    obtain ph' where ph': "ph' = ph \<or> phase_step ph ph'" "alive_inv ph' t"
      using step_life [OF st inv wb False] by blast
    from st show ?thesis
    proof cases
      case (completion tag d)
      let ?t = "runtime_writes T tag d (tsk s)"
      have c: "coro (tsk s) = SuspendedInitial" "\<not> auth_pending (tsk s)"
        using l ph by (auto simp: life_at_def)
      have tag: "tag \<in> {done_tag, request_tag, reject_tag}"
        using outstanding_cases [OF l completion(3)] ph by auto
      show ?thesis
      proof (cases "handle_event T hooks cleared tag d ?t")
        case (Inl u)
        then show ?thesis using completion(1) by (simp add: deliver_def absorb_def)
      next
        case (Inr r)
        obtain t' es where r: "r = (t', es)" by (cases r)
        have q: "list_all harmless es \<and> coro t' \<in> {coro ?t, Destroyed} \<and> auth_pending t' = auth_pending ?t"
        proof (cases "tag = done_tag")
          case True
          with Inr c show ?thesis by (auto simp: handle_event_def promise_result r)
        next
          case False
          with tag have "snd tag = InitialAwaiter" by auto
          with Inr r c show ?thesis
            by (intro initial_harmless [OF rej]) (simp add: handle_event_def)
        qed
        have "coro (tsk t) \<in> {SuspendedInitial, Destroyed} \<and> \<not> auth_pending (tsk t)"
          and tr: "list_all harmless (trace t)"
          using q c Inr r completion(1) ko by (auto simp: deliver_def kept_out_def)
        then have "phase_of t \<in> {Requesting, Rejecting, Gone}"
          by (auto simp: phase_of_def)
        with tr show ?thesis by (simp add: kept_out_def)
      qed
    qed (use l ph in \<open>auto simp: life_at_def\<close>)
  qed
qed

lemma initial_kept_out: "kept_out (initial_sys T cleared h req resp)"
  by (simp add: kept_out_def alive_phase [OF alive_initial])
     (simp add: initial_sys_def initial_await_suspend_def start_grpc_call_def Let_def)

text \<open>
C22: user code stands behind the authentication hook: if the hook answers at once and rejects every call, then
in every reachable state, in any order of completions, the coroutine has never been resumed, no hook but the
authentication has run, every call was finished with a status that is not ok, and the frame is
requesting, rejecting or gone.
\<close>

theorem task_authentication_gate:
  assumes "reaches T hooks cleared order s" and "well_behaved hooks" and "failure s = None"
    and "rejects_all hooks"
  shows "list_all harmless (trace s) \<and> phase_of s \<in> {Requesting, Rejecting, Gone}"
proof -
  obtain h req resp where run: "task_run T hooks cleared order (initial_sys T cleared h req resp) s"
    using assms(1) by blast
  from run have "failure s = None \<longrightarrow> kept_out s"
  proof (induction rule: rtranclp_induct)
    case base
    show ?case by (simp add: initial_kept_out)
  next
    case (step u v)
    have f: "failure u = None" using step(2) by cases auto
    have "reaches T hooks cleared order u" using step(1) by blast
    then obtain ph where ph: "alive_inv ph u" using reaches_alive [OF _ assms(2) f] by blast
    show ?case using step_kept_out [OF step(2) ph assms(2,4)] step(3) f by blast
  qed
  with assms(3) show ?thesis by (simp add: kept_out_def)
qed

text \<open>A hook that rejects every call.\<close>

definition closed_hooks :: "('req, 'resp) task_hooks" where
  "closed_hooks = (noop_task_hook True)\<lparr>on_authenticate := (\<lambda>t. Some (Status STATUS_UNAUTHENTICATED ''''))\<rparr>"

lemma closed_hooks_example:
  "well_behaved closed_hooks" "rejects_all closed_hooks"
  "failure (initial_sys Unary 0 1 (7::nat) (8::nat)) = None"
  using noop_well_behaved example_start_simps(2)
  by (simp_all add: well_behaved_def closed_hooks_def rejects_all_def example_start_def)

theorem task_authentication_gate_witness:
  "list_all harmless (trace (initial_sys Unary 0 1 (7::nat) (8::nat))) \<and>
   phase_of (initial_sys Unary 0 1 (7::nat) (8::nat)) \<in> {Requesting, Rejecting, Gone}"
  by (rule task_authentication_gate [OF reaches_initial closed_hooks_example(1,3,2)])

section \<open>The outcome of the body\<close>

text \<open>
C24: how a body ends decides, with the default hooks, what the client gets: returning a status, or letting that status or a
\<open>grpc_exception\<close> made from it escape, ends the call in the same way: exactly one final operation,
with exactly that status, and with the response message exactly if the response is not streamed
and the status is ok; any other exception ends it with an internal error.
\<close>

theorem task_reports_outcome:
  "body_step T (noop_task_hook ndebug) (Throw (ThrownStatus st)) t =
     body_step T (noop_task_hook ndebug) (CoReturn st) t \<and>
   body_step T (noop_task_hook ndebug) (Throw (grpc_exception_of_status st)) t =
     body_step T (noop_task_hook ndebug) (CoReturn st) t \<and>
   (\<exists>t' es op. body_step T (noop_task_hook ndebug) (CoReturn st) t = Some (Inr (t', es)) \<and>
      issued es = [op] \<and> op_tag op = Some final_tag \<and> op_status op = Some st \<and>
      op_message op = (if \<not> server_streaming T \<and> status_ok st then Some (m_response (ctx_of t)) else None)) \<and>
   body_step T (noop_task_hook ndebug) (Throw (StdException n w)) t =
     body_step T (noop_task_hook ndebug)
       (CoReturn (Status STATUS_INTERNAL (if ndebug then ''Internal error'' else w))) t \<and>
   body_step T (noop_task_hook ndebug) (Throw (OtherThrown n)) t =
     body_step T (noop_task_hook ndebug) (CoReturn (Status STATUS_INTERNAL ''Unknown exception'')) t"
  by (auto simp: unhandled_exception_def noop_task_hook_def exception_to_status_def return_value_def
      grpc_exception_of_status_def suspend_final_def final_await_suspend_def Let_def tag_defs)

end
