(* ===== verification/Task_Auth.thy ===== *)
theory Task_Auth
  imports Task_Ends
begin

text \<open>
  The callback that a server task hands to \<open>on_authenticate\<close> (\<open>include/asyncpp/grpc/task.h\<close>), when a hook
  calls it more than once. It captures the initial awaiter, which is gone once the body runs, and has no
  guard.
\<close>

section \<open>Another call of the callback\<close>

definition call_again ::
  "rpc_method_type \<Rightarrow> status \<Rightarrow> ('req, 'resp) sys \<Rightarrow> ('req, 'resp) sys" where
  "call_again T result s =
     absorb (if object_alive (coro (tsk s)) InitialAwaiter then auth_callback T result (tsk s) else Inl UseAfterFree) s"

lemma again_gone:
  assumes "life_at ph s" and "ph \<notin> {Requesting, Authenticating, Rejecting}"
  shows "failure (call_again T result s) = Some UseAfterFree"
proof -
  have "coro_of ph \<noteq> SuspendedInitial" using assms(2) by (cases ph) simp_all
  then show ?thesis using assms(1) by (simp add: call_again_def life_at_def absorb_def)
qed

text \<open>Accepted again, the body runs although the operation its awaiter waits for is still outstanding.\<close>

lemma again_accepted:
  assumes "alive_inv ph s" and "ph \<in> {Requesting, Rejecting}" and "status_ok result" and "awaited ph = {#tag#}"
  shows "coro (tsk (call_again T result s)) = Running" and "tag \<in># outstanding (call_again T result s)"
    and "failure (deliver T hooks cleared tag d (call_again T result s)) = Some UseAfterFree"
proof -
  have l: "life_at ph s" using assms(1) by (simp add: alive_inv_def)
  have c: "coro (tsk s) = SuspendedInitial" "initial_handle (tsk s) = Some (frame (tsk s))"
    using l assms(2) by (auto simp: life_at_def)
  have eq: "call_again T result s = absorb (Inr ((tsk s)\<lparr>coro := Running\<rparr>, [RunHook OnStart, ResumeCoro (frame (tsk s))])) s"
    using c assms(3) by (simp add: call_again_def auth_callback_def)
  show "coro (tsk (call_again T result s)) = Running" by (simp add: eq)
  show "tag \<in># outstanding (call_again T result s)" using awaited_outstanding [OF assms(1,4)] by (simp add: eq)
  have "snd tag = InitialAwaiter" using assms(2,4) by (auto simp: tag_defs)
  then show "failure (deliver T hooks cleared tag d (call_again T result s)) = Some UseAfterFree"
    by (auto simp: eq deliver_def handle_event_def absorb_def runtime_writes_def)
qed

text \<open>Rejected again, the call of the current context is finished.\<close>

lemma again_rejected:
  assumes "alive_inv ph s" and "ph \<in> {Requesting, Rejecting}" and "\<not> status_ok result"
  shows "contexts finish_context (trace (call_again T result s)) =
      contexts finish_context (trace s) @ [m_context (ctx_of (tsk s))]"
    and "outstanding (call_again T result s) = outstanding s + {#reject_tag#}"
proof -
  have l: "life_at ph s" using assms(1) by (simp add: alive_inv_def)
  have c: "coro (tsk s) = SuspendedInitial" "initial_handle (tsk s) = Some (frame (tsk s))"
      "m_stream (ctx_of (tsk s)) = m_context (ctx_of (tsk s))"
    using l assms(2) by (auto simp: life_at_def)
  obtain op where op: "auth_callback T result (tsk s) = Inr (tsk s, [Issue op])" "op_tag op = Some reject_tag"
      "finish_context op = Some (m_stream (ctx_of (tsk s)))"
    using auth_callback_result(2) [OF c(2) assms(3), of T] by blast
  show "contexts finish_context (trace (call_again T result s)) =
      contexts finish_context (trace s) @ [m_context (ctx_of (tsk s))]"
    "outstanding (call_again T result s) = outstanding s + {#reject_tag#}"
    using c op by (simp_all add: call_again_def)
qed

section \<open>Properties\<close>

text \<open>
C30: the authentication callback must be called once: a hook that calls it again, at any time after the first
call, is in trouble in every state of the frame. Once the body runs, or has run, the callback uses an
object that is gone. After a rejection, whether the next request is under way or not, accepting resumes
the body while an operation of its awaiter is outstanding, whose completion then finds no object; and
rejecting finishes the same call a second time, or a call that has not arrived.
\<close>

theorem authentication_callback_once:
  assumes "reaches T hooks cleared done_first s" and "well_behaved hooks"
    and "RunHook OnAuthenticate \<in> set (trace s)" and "\<not> auth_pending (tsk s)"
  shows "(phase_of s \<notin> {Requesting, Rejecting} \<longrightarrow> failure (call_again T result s) = Some UseAfterFree) \<and>
    (phase_of s \<in> {Requesting, Rejecting} \<and> status_ok result \<longrightarrow>
       coro (tsk (call_again T result s)) = Running \<and>
       (\<exists>tag. tag \<in># outstanding (call_again T result s) \<and>
          (\<forall>d. failure (deliver T hooks cleared tag d (call_again T result s)) = Some UseAfterFree))) \<and>
    (phase_of s = Rejecting \<and> \<not> status_ok result \<longrightarrow>
       \<not> distinct (contexts finish_context (trace (call_again T result s)))) \<and>
    (phase_of s = Requesting \<and> \<not> status_ok result \<longrightarrow> request_tag \<in># outstanding (call_again T result s) \<and>
       m_context (ctx_of (tsk s)) \<in> set (contexts finish_context (trace (call_again T result s))))"
proof -
  obtain ph where inv: "alive_inv ph s" using reaches_settled [OF assms(1,2)] by blast
  have ph: "phase_of s = ph" by (rule alive_phase [OF inv])
  have l: "life_at ph s" and c: "counts_at ph s" using inv by (simp_all add: alive_inv_def)
  have na: "ph \<noteq> Authenticating" using l assms(4) by (auto simp: life_at_def)
  have "failure (call_again T result s) = Some UseAfterFree" if "ph \<notin> {Requesting, Rejecting}"
    using again_gone [OF l] that na by simp
  moreover have "coro (tsk (call_again T result s)) = Running \<and>
       (\<exists>tag. tag \<in># outstanding (call_again T result s) \<and>
          (\<forall>d. failure (deliver T hooks cleared tag d (call_again T result s)) = Some UseAfterFree))"
    if "ph \<in> {Requesting, Rejecting}" "status_ok result"
  proof -
    have "awaited ph = {#request_tag#} \<or> awaited ph = {#reject_tag#}" using that(1) by auto
    then obtain tag where "awaited ph = {#tag#}" by blast
    from again_accepted [OF inv that this] show ?thesis by blast
  qed
  moreover have "\<not> distinct (contexts finish_context (trace (call_again T result s)))"
    if "ph = Rejecting" "\<not> status_ok result"
    using again_rejected(1) [OF inv _ that(2), of T] c that(1) by (simp add: counts_at_def)
  moreover have "request_tag \<in># outstanding (call_again T result s) \<and>
       m_context (ctx_of (tsk s)) \<in> set (contexts finish_context (trace (call_again T result s)))"
    if "ph = Requesting" "\<not> status_ok result"
    using again_rejected [OF inv _ that(2), of T] awaited_outstanding [OF inv, of request_tag] that(1) by simp
  ultimately show ?thesis unfolding ph by blast
qed

theorem authentication_callback_once_witness:
  "failure (call_again Unary (Status STATUS_OK '''') example_accepted) = Some UseAfterFree"
proof -
  have "RunHook OnAuthenticate \<in> set (trace example_accepted)" "\<not> auth_pending (tsk example_accepted)"
      "phase_of example_accepted = InBody"
    by (simp_all add: example_accepted_def deliver_def absorb_def handle_event_def initial_handle_event_def
        auth_callback_def noop_task_hook_def example_start_def initial_sys_def initial_await_suspend_def
        start_grpc_call_def promise_type_def Let_def tag_defs runtime_writes_def update_ctx_def phase_of_def)
  then show ?thesis
    using authentication_callback_once [OF example_reached(2) noop_well_behaved, THEN conjunct1, rule_format] by simp
qed

end
