(* ===== verification/Task_Members.thy ===== *)
theory Task_Members
  imports Task
begin

text \<open>
  The members of \<open>task_rpc_context\<close> and of the promise that the C++ type system selects
  (\<open>include/asyncpp/grpc/task.h\<close>): which constructor a coroutine's parameters choose, and which accessors
  and operations a body has for its messages.
\<close>

section \<open>The constructors of the promise\<close>

text \<open>
  The promise is constructed from the parameters of the coroutine function, as lvalues; for a member
  function the object comes first. \<open>base_of b d\<close> is \<open>std::is_base_of_v\<close>, \<open>service\<close> the class of the method.
  A choice names the positions of the service and of the queue; the rest is handed to the hooks.
\<close>

record promise_choice =
  service_param :: nat
  cq_param :: nat
  hook_params :: "nat list"

fun free_function_constructor :: "(ty \<Rightarrow> ty \<Rightarrow> bool) \<Rightarrow> ty \<Rightarrow> ty list \<Rightarrow> promise_choice option" where
  "free_function_constructor base_of service (TApp Ptr [s] # cq # args) =
     (if cq = server_cq_ptr \<and> base_of service s
      then Some \<lparr>service_param = 0, cq_param = 1, hook_params = [2..<2 + length args]\<rparr> else None)"
| "free_function_constructor base_of service _ = None"

fun member_function_constructor :: "(ty \<Rightarrow> ty \<Rightarrow> bool) \<Rightarrow> ty \<Rightarrow> ty list \<Rightarrow> promise_choice option" where
  "member_function_constructor base_of service (c # TApp Ptr [s] # cq # args) =
     (if cq = server_cq_ptr \<and> base_of service s
      then Some \<lparr>service_param = 1, cq_param = 2, hook_params = [3..<3 + length args]\<rparr> else None)"
| "member_function_constructor base_of service _ = None"

datatype resolution = Chosen promise_choice | DeletedConstructor | Ambiguous

text \<open>
  Overload resolution. All conversions are exact, so the template that is more specialised wins: either of
  the two constructors over the deleted one, which takes anything, and neither of the two over the other.
\<close>

definition promise_constructor :: "(ty \<Rightarrow> ty \<Rightarrow> bool) \<Rightarrow> ty \<Rightarrow> ty list \<Rightarrow> resolution" where
  "promise_constructor base_of service ps =
     (case (free_function_constructor base_of service ps, member_function_constructor base_of service ps) of
        (Some c, None) \<Rightarrow> Chosen c
      | (None, Some c) \<Rightarrow> Chosen c
      | (None, None) \<Rightarrow> DeletedConstructor
      | (Some _, Some _) \<Rightarrow> Ambiguous)"

fun_cases free_function_constructorE: "free_function_constructor base_of service ps = Some c"
fun_cases member_function_constructorE: "member_function_constructor base_of service ps = Some c"

section \<open>The accessors of the context\<close>

text \<open>\<open>None\<close>: the \<open>requires\<close> clause excludes the member for this kind of method.\<close>

definition request_of :: "rpc_method_type \<Rightarrow> ('req, 'resp) task_rpc_context \<Rightarrow> 'req option" where
  "request_of T ctx = (if \<not> client_streaming T then Some (m_request ctx) else None)"

definition response_of :: "rpc_method_type \<Rightarrow> ('req, 'resp) task_rpc_context \<Rightarrow> 'resp option" where
  "response_of T ctx = (if \<not> server_streaming T then Some (m_response ctx) else None)"

definition context_of :: "('req, 'resp) task_rpc_context \<Rightarrow> context_id" where
  "context_of ctx = m_context ctx"

definition cancelled :: "('req, 'resp) task_rpc_context \<Rightarrow> bool" where
  "cancelled ctx = m_is_cancelled ctx"

definition context_read ::
  "rpc_method_type \<Rightarrow> 'req \<Rightarrow> ('req, 'resp) task_rpc_context \<Rightarrow> 'req op_awaiter option" where
  "context_read T msg ctx = (if client_streaming T then Some (new_awaiter msg) else None)"

definition context_write_awaiter ::
  "rpc_method_type \<Rightarrow> 'resp \<Rightarrow> ('req, 'resp) task_rpc_context \<Rightarrow> 'resp op_awaiter option" where
  "context_write_awaiter T msg ctx = (if server_streaming T then Some (new_awaiter msg) else None)"

definition context_send_initial_metadata :: "('req, 'resp) task_rpc_context \<Rightarrow> unit op_awaiter" where
  "context_send_initial_metadata ctx = new_awaiter ()"

lemmas member_defs = request_of_def response_of_def context_read_def context_write_awaiter_def

section \<open>Properties\<close>

lemma no_member_constructor:
  assumes "\<not> base_of service (TApp ServerCompletionQueueT [])"
  shows "member_function_constructor base_of service (ptr s # server_cq_ptr # args) = None"
  using assms by (cases args) auto

lemma no_free_constructor:
  assumes "\<not> base_of service (TApp ServerCompletionQueueT [])" "base_of service s"
  shows "free_function_constructor base_of service (c # ptr s # server_cq_ptr # args) = None"
  using assms
  by (cases "free_function_constructor base_of service (c # ptr s # server_cq_ptr # args)")
     (auto elim!: free_function_constructorE split: if_splits)

lemma free_constructor_binds:
  assumes "free_function_constructor base_of service ps = Some ch"
  shows "(\<exists>d. ps ! service_param ch = ptr d \<and> base_of service d) \<and> ps ! cq_param ch = server_cq_ptr \<and>
    cq_param ch = Suc (service_param ch) \<and> hook_params ch = [Suc (cq_param ch)..<length ps]"
  using assms by (elim free_function_constructorE) (auto simp: eval_nat_numeral split: if_splits)

lemma member_constructor_binds:
  assumes "member_function_constructor base_of service ps = Some ch"
  shows "(\<exists>d. ps ! service_param ch = ptr d \<and> base_of service d) \<and> ps ! cq_param ch = server_cq_ptr \<and>
    cq_param ch = Suc (service_param ch) \<and> hook_params ch = [Suc (cq_param ch)..<length ps]"
  using assms by (elim member_function_constructorE) (auto simp: eval_nat_numeral split: if_splits)

text \<open>
A coroutine gets a promise for its method exactly if its parameters say so: a free function that takes
a pointer to the service, or to a class derived from it, and a server completion queue, or a member function
that takes them after its object; its promise is then bound to just these two parameters and the hooks get
all others, in order. Every other coroutine does not compile, and no choice is ever ambiguous, as long as
the completion queue is not itself a service.
\<close>

theorem promise_constructor_selects:
  assumes "\<not> base_of service (TApp ServerCompletionQueueT [])"
  shows "promise_constructor base_of service ps \<noteq> Ambiguous \<and>
    (base_of service s \<longrightarrow>
       promise_constructor base_of service (ptr s # server_cq_ptr # args) =
         Chosen \<lparr>service_param = 0, cq_param = 1, hook_params = [2..<2 + length args]\<rparr> \<and>
       promise_constructor base_of service (c # ptr s # server_cq_ptr # args) =
         Chosen \<lparr>service_param = 1, cq_param = 2, hook_params = [3..<3 + length args]\<rparr>) \<and>
    (\<forall>ch. promise_constructor base_of service ps = Chosen ch \<longrightarrow>
       (\<exists>d. ps ! service_param ch = ptr d \<and> base_of service d) \<and>
       ps ! cq_param ch = server_cq_ptr \<and> cq_param ch = Suc (service_param ch) \<and>
       hook_params ch = [Suc (cq_param ch)..<length ps])"
proof -
  note no_member = no_member_constructor [of base_of service, OF assms]
  have excl: "member_function_constructor base_of service ps = None"
    if "free_function_constructor base_of service ps = Some ch" for ch
    using that by (elim free_function_constructorE) (simp add: no_member split: if_splits)
  have "promise_constructor base_of service ps \<noteq> Ambiguous"
    by (cases "free_function_constructor base_of service ps")
       (simp_all add: promise_constructor_def excl split: option.splits)
  moreover have "promise_constructor base_of service (ptr s # server_cq_ptr # args) =
         Chosen \<lparr>service_param = 0, cq_param = 1, hook_params = [2..<2 + length args]\<rparr> \<and>
       promise_constructor base_of service (c # ptr s # server_cq_ptr # args) =
         Chosen \<lparr>service_param = 1, cq_param = 2, hook_params = [3..<3 + length args]\<rparr>" if "base_of service s"
    using that by (simp add: promise_constructor_def no_member no_free_constructor [of base_of service, OF assms])
  moreover have "(\<exists>d. ps ! service_param ch = ptr d \<and> base_of service d) \<and> ps ! cq_param ch = server_cq_ptr \<and>
      cq_param ch = Suc (service_param ch) \<and> hook_params ch = [Suc (cq_param ch)..<length ps]"
    if "promise_constructor base_of service ps = Chosen ch" for ch
  proof (cases "free_function_constructor base_of service ps")
    case None
    then show ?thesis
      using that by (intro member_constructor_binds) (simp add: promise_constructor_def split: option.splits)
  next
    case (Some ch')
    then show ?thesis
      using that by (intro free_constructor_binds) (simp add: promise_constructor_def excl)
  qed
  ultimately show ?thesis by blast
qed

text \<open>The promise of an echo service, written as a member function and with one more parameter.\<close>

theorem promise_constructor_selects_witness:
  "promise_constructor (=) (TApp (UserType ''Echo'') []) [TApp (UserType ''App'') [], ptr (TApp (UserType ''Echo'') []),
       server_cq_ptr, ptr (TApp (UserType ''Log'') [])] =
     Chosen \<lparr>service_param = 1, cq_param = 2, hook_params = [3]\<rparr>"
  using promise_constructor_selects
    [where base_of = "(=)" and service = "TApp (UserType ''Echo'') []" and ps = "[]" and s = "TApp (UserType ''Echo'') []"
       and args = "[ptr (TApp (UserType ''Log'') [])]" and c = "TApp (UserType ''App'') []"]
  by simp

text \<open>
A task body has exactly one way to each message. Whatever the kind of the method, the request is either
an object of the context, or it is read, and then a \<open>co_await\<close> of the context's awaiter, of a \<open>read\<close> tag or
of the message itself all mean that read; the response is either an object of the context, or it is
written, by the awaiter, a \<open>write\<close> tag or a constant message. The kinds differ in which of the two it is.
\<close>

theorem message_access_exclusive:
  "(request_of T ctx = None) = (context_read T req ctx \<noteq> None) \<and>
   (context_read T req ctx \<noteq> None) = (await_transform (server_stream_traits T tq tr) (read_msg tq) = ToRead) \<and>
   (context_read T req ctx \<noteq> None) = (await_transform (server_stream_traits T tq tr) (OperandLvalue tq) = ToRead) \<and>
   (response_of T ctx = None) = (context_write_awaiter T resp ctx \<noteq> None) \<and>
   (context_write_awaiter T resp ctx \<noteq> None) = (await_transform (server_stream_traits T tq tr) (write_msg tr) = ToWrite) \<and>
   (context_write_awaiter T resp ctx \<noteq> None) = (await_transform (server_stream_traits T tq tr) (OperandConstLvalue tr) = ToWrite) \<and>
   ((request_of T ctx = None, response_of T ctx = None) =
      (case T of Unary \<Rightarrow> (False, False) | ClientStreaming \<Rightarrow> (True, False)
       | ServerStreaming \<Rightarrow> (False, True) | BidiStreaming \<Rightarrow> (True, True)))"
  by (cases T) (simp_all add: member_defs read_msg_def write_msg_def server_stream_traits_def)

end
