(* ===== verification/Call_Typing.thy ===== *)
theory Call_Typing
  imports Traits
begin

text \<open>
  The calls the library makes through a method pointer, as the compiler checks them: the assertions and
  \<open>requires\<close> clauses of \<open>task\<close> (\<open>task.h\<close>) and of the call classes (\<open>call.h\<close>), and the types of what they
  pass to the generated method and expect from it. The specialisations of \<open>method_traits\<close> and the call
  expressions are far apart in the code; here they meet.
\<close>

section \<open>A call through a pointer to member\<close>

text \<open>
  The conversions these calls need: none, that of a server completion queue to its base class, and
  binding an object to a constant reference.
\<close>

definition converts :: "ty \<Rightarrow> ty \<Rightarrow> bool" where
  "converts a p \<longleftrightarrow> a = p \<or> (a = server_cq_ptr \<and> p = cq_ptr) \<or> p = cref a"

text \<open>The type of \<open>(obj->*fn)(args...)\<close>, if it is well typed.\<close>

fun call_through :: "ty \<Rightarrow> ty \<Rightarrow> ty list \<Rightarrow> ty option" where
  "call_through (TApp MemFn (r # c # ps)) obj args =
     (if obj = ptr c \<and> list_all2 converts args ps then Some r else None)"
| "call_through _ obj args = None"

section \<open>The server side\<close>

text \<open>The traits the context of a task is made for, and the call in \<open>start_grpc_call\<close>.\<close>

definition context_traits :: "method_traits \<Rightarrow> stream_traits" where
  "context_traits tr = server_stream_traits (rpc_type tr) (request_type tr) (response_type tr)"

definition task_call_args :: "method_traits \<Rightarrow> ty list" where
  "task_call_args tr =
     (if is_client_streaming tr then
        [server_context_ptr, ptr (stream_type (context_traits tr)), server_cq_ptr, server_cq_ptr, ptr void_t]
      else
        [server_context_ptr, ptr (request_type (context_traits tr)), ptr (stream_type (context_traits tr)),
         server_cq_ptr, server_cq_ptr, ptr void_t])"

definition task_compiles :: "ty \<Rightarrow> bool" where
  "task_compiles fn =
     (case method_traits_of fn of None \<Rightarrow> False
      | Some tr \<Rightarrow> is_server_side tr \<and> call_through fn (ptr (service_type tr)) (task_call_args tr) \<noteq> None)"

section \<open>The client side\<close>

definition unary_call_args :: "method_traits \<Rightarrow> ty list" where
  "unary_call_args tr = [client_context_ptr, request_type tr, cq_ptr]"

definition start_request_args :: "method_traits \<Rightarrow> ty list option" where
  "start_request_args tr =
     (if \<not> is_client_streaming tr \<and> is_server_streaming tr
      then Some [client_context_ptr, request_type tr, cq_ptr, ptr void_t] else None)"

definition start_response_args :: "method_traits \<Rightarrow> ty list option" where
  "start_response_args tr =
     (if is_client_streaming tr \<and> \<not> is_server_streaming tr
      then Some [client_context_ptr, ptr (response_type tr), cq_ptr, ptr void_t] else None)"

definition start_bidi_args :: "method_traits \<Rightarrow> ty list option" where
  "start_bidi_args tr =
     (if is_client_streaming tr \<and> is_server_streaming tr
      then Some [client_context_ptr, cq_ptr, ptr void_t] else None)"

text \<open>The overloads of \<open>start\<close> a streaming call has; what the call returns is assigned to its stream.\<close>

definition start_overloads :: "method_traits \<Rightarrow> ty list list" where
  "start_overloads tr =
     List.map_filter id [start_request_args tr, start_response_args tr, start_bidi_args tr]"

definition streaming_call_asserts :: "method_traits \<Rightarrow> bool" where
  "streaming_call_asserts tr \<longleftrightarrow> \<not> is_server_side tr \<and> is_streaming tr"

definition call_compiles :: "ty \<Rightarrow> bool" where
  "call_compiles fn =
     (case method_traits_of fn of None \<Rightarrow> False
      | Some tr \<Rightarrow>
          (case call_alias tr of
             UnaryCall \<Rightarrow> call_through fn (ptr (service_type tr)) (unary_call_args tr) = Some (stream_type tr)
           | StreamingCall \<Rightarrow> streaming_call_asserts tr \<and>
               list_all (\<lambda>args. call_through fn (ptr (service_type tr)) args = Some (stream_type tr))
                 (start_overloads tr)))"

lemmas call_typing_defs = converts_def context_traits_def task_call_args_def unary_call_args_def
  start_request_args_def start_response_args_def start_bidi_args_def start_overloads_def
  streaming_call_asserts_def

section \<open>Properties\<close>

lemma converts_simps:
  "converts t t" "converts server_cq_ptr cq_ptr" "converts t (cref t)"
  by (simp_all add: converts_def)

text \<open>Each specialisation at every instance, one side at a time.\<close>

lemma specialisation_calls:
  assumes "(p, t) \<in> set specialisations" and "match_ty p fn Map.empty = Some \<sigma>"
  shows "call_through fn (ptr (service_type (inst_traits \<sigma> t))) (task_call_args (inst_traits \<sigma> t)) \<noteq> None
           \<longleftrightarrow> is_server_side t"
    and "call_through fn (ptr (service_type (inst_traits \<sigma> t))) (unary_call_args (inst_traits \<sigma> t)) =
           Some (stream_type (inst_traits \<sigma> t)) \<longleftrightarrow> \<not> is_server_side t \<and> \<not> is_streaming t"
    and "\<not> is_server_side t \<Longrightarrow> is_streaming t \<Longrightarrow> \<exists>args. start_overloads (inst_traits \<sigma> t) = [args] \<and>
           call_through fn (ptr (service_type (inst_traits \<sigma> t))) args = Some (stream_type (inst_traits \<sigma> t))"
proof -
  have fn: "fn = subst_ty \<sigma> p" using match_sound(1) [OF assms(2)] by simp
  note defs = specialisations_def spec_defs traits_record_defs call_typing_defs inst_traits_def map_filter_simps
  show "call_through fn (ptr (service_type (inst_traits \<sigma> t))) (task_call_args (inst_traits \<sigma> t)) \<noteq> None
           \<longleftrightarrow> is_server_side t"
    using assms(1) unfolding fn by (auto simp: defs)
  show "call_through fn (ptr (service_type (inst_traits \<sigma> t))) (unary_call_args (inst_traits \<sigma> t)) =
           Some (stream_type (inst_traits \<sigma> t)) \<longleftrightarrow> \<not> is_server_side t \<and> \<not> is_streaming t"
    using assms(1) unfolding fn by (auto simp: defs)
  show "\<exists>args. start_overloads (inst_traits \<sigma> t) = [args] \<and>
           call_through fn (ptr (service_type (inst_traits \<sigma> t))) args = Some (stream_type (inst_traits \<sigma> t))"
    if "\<not> is_server_side t" "is_streaming t"
    using assms(1) that unfolding fn by (auto simp: defs)
qed

lemma inst_flags [simp]:
  "is_server_side (inst_traits \<sigma> t) = is_server_side t" "is_streaming (inst_traits \<sigma> t) = is_streaming t"
  by (simp_all add: inst_traits_def)

text \<open>
C25: what the library does with a method pointer fits every method that has traits, of whatever service and
message types: a \<open>task\<close> compiles for exactly the methods of a service and \<open>call\<close> for exactly those of a
stub or its interface, never for both; the calls they make through the pointer are well typed, and what
the stub returns is the type of the stream or reader it is assigned to; and a call of a streaming method
has exactly one way to be started.
\<close>

theorem wrappers_fit_methods:
  "task_compiles fn = (\<exists>tr. method_traits_of fn = Some tr \<and> is_server_side tr) \<and>
   call_compiles fn = (\<exists>tr. method_traits_of fn = Some tr \<and> \<not> is_server_side tr) \<and>
   \<not> (task_compiles fn \<and> call_compiles fn) \<and>
   (call_compiles fn = (\<exists>tr. method_traits_of fn = Some tr \<and> \<not> is_server_side tr \<and>
      length (start_overloads tr) = (if call_alias tr = StreamingCall then 1 else 0)))"
proof (cases "method_traits_of fn")
  case None
  then show ?thesis by (simp add: task_compiles_def call_compiles_def)
next
  case (Some tr)
  then obtain p t \<sigma> where s: "(p, t) \<in> set specialisations" "match_ty p fn Map.empty = Some \<sigma>"
      and tr: "tr = inst_traits \<sigma> t"
    by (auto simp: method_traits_of_iff)
  note calls = specialisation_calls [OF s, folded tr]
  have "task_compiles fn = is_server_side tr" using calls(1) by (auto simp: task_compiles_def Some tr)
  moreover have "call_compiles fn = (\<not> is_server_side tr)"
  proof (cases "is_streaming tr")
    case True
    then show ?thesis
      using calls(3) by (auto simp: call_compiles_def Some call_alias_def streaming_call_asserts_def tr)
  next
    case False
    then show ?thesis using calls(2) by (simp add: call_compiles_def Some call_alias_def tr)
  qed
  moreover have "length (start_overloads tr) = (if call_alias tr = StreamingCall then 1 else 0)"
    if "\<not> is_server_side tr"
    using calls(3) that specialisations_consistent [OF s(1)]
    by (cases "is_streaming tr")
       (auto simp: call_alias_def tr start_overloads_def start_request_args_def start_response_args_def
         start_bidi_args_def consistent_flags_def inst_traits_def map_filter_simps)
  ultimately show ?thesis using Some by auto
qed

end
