(* ===== verification/Streaming_Call.thy ===== *)
theory Streaming_Call
  imports Awaiters Traits
begin

text \<open>
  \<open>streaming_call\<close> of \<open>include/asyncpp/grpc/call.h\<close>: the state shared by the wrapper and its
  awaiters, the awaiters of its operations, and the destruction of the wrapper, after which the
  state object finishes the call by itself. The generated stub and the runtime are behind the
  operations issued; \<open>unary_call\<close> is in its own theory.
\<close>

section \<open>State\<close>

type_synonym stream_id = nat
type_synonym cq_id = nat

text \<open>The two kinds of objects whose tags a call passes to the runtime.\<close>

datatype call_object = StateObj | AwaiterObj

type_synonym call_tag = "nat \<times> call_object"

datatype 'req client_op =
    CallWithRequest stream_id 'req cq_id call_tag   \<comment> \<open>\<open>(stub->*FN)(context, request, cq, tag)\<close>\<close>
  | CallWithResponse stream_id cq_id call_tag       \<comment> \<open>\<open>(stub->*FN)(context, &response, cq, tag)\<close>\<close>
  | CallBidi stream_id cq_id call_tag               \<comment> \<open>\<open>(stub->*FN)(context, cq, tag)\<close>\<close>
  | ClientRead stream_id call_tag
  | ClientWrite stream_id 'req call_tag
  | ClientWriteLast stream_id 'req call_tag
  | ClientWritesDone stream_id call_tag
  | ClientFinish stream_id call_tag
  | ClientTryCancel

text \<open>Releases of owned objects that the order of destruction matters for.\<close>

datatype call_event = StreamFreed stream_id | ContextFreed

type_synonym 'req call_effs = "('req client_op, call_event) eff list"

text \<open>\<open>std::unique_ptr\<close> members are options; \<open>default_client_cq\<close> is whether it holds a reference.\<close>

record call_state =
  has_context :: bool
  stream :: "stream_id option"
  m_need_writes_done :: bool
  default_client_cq :: bool
  call_cq :: "cq_id option"

definition make_state :: call_state where
  "make_state = \<lparr>has_context = True, stream = None, m_need_writes_done = False,
     default_client_cq = False, call_cq = None\<rparr>"

text \<open>Which method an awaiter was made by, with the message it refers to.\<close>

datatype 'req call_method =
    StartRequest 'req | StartResponse | StartBidi | ReadMethod
  | WriteMethod 'req | WriteLastMethod 'req | WritesDoneMethod | FinishMethod

text \<open>\<open>m_was_ok\<close> is \<open>None\<close> while it holds an indeterminate value.\<close>

record 'req call_awaiter =
  call_method_of :: "'req call_method"
  call_handle :: "coro_handle option"
  call_was_ok :: "bool option"
  call_status :: status

definition new_call_awaiter :: "'req call_method \<Rightarrow> bool option \<Rightarrow> 'req call_awaiter" where
  "new_call_awaiter m ok = \<lparr>call_method_of = m, call_handle = None, call_was_ok = ok,
     call_status = Status STATUS_OK ''''\<rparr>"

abbreviation call_client_streaming :: "rpc_method_type \<Rightarrow> bool" where
  "call_client_streaming T \<equiv> is_client_streaming (snd (stub_spec T))"

abbreviation call_server_streaming :: "rpc_method_type \<Rightarrow> bool" where
  "call_server_streaming T \<equiv> is_server_streaming (snd (stub_spec T))"

definition freed :: "stream_id option \<Rightarrow> ('op, call_event) eff list" where
  "freed x = (case x of None \<Rightarrow> [] | Some i \<Rightarrow> [RunHook (StreamFreed i)])"

section \<open>Starting a call\<close>

definition choose_cq :: "cq_id \<Rightarrow> cq_id option \<Rightarrow> call_state \<Rightarrow> call_state" where
  "choose_cq default_cq cq s =
     (case cq of
        None \<Rightarrow> s\<lparr>default_client_cq := True, call_cq := Some default_cq\<rparr>
      | Some c \<Rightarrow> s\<lparr>call_cq := Some c\<rparr>)"

definition start_request :: "cq_id \<Rightarrow> 'req \<Rightarrow> cq_id option \<Rightarrow> call_state \<Rightarrow> call_state \<times> 'req call_awaiter" where
  "start_request default_cq req cq s =
     (choose_cq default_cq cq s, new_call_awaiter (StartRequest req) (Some False))"

definition start_response :: "cq_id \<Rightarrow> cq_id option \<Rightarrow> call_state \<Rightarrow> call_state \<times> 'req call_awaiter" where
  "start_response default_cq cq s =
     (choose_cq default_cq cq s, new_call_awaiter StartResponse (Some False))"

definition start_bidi :: "cq_id \<Rightarrow> cq_id option \<Rightarrow> call_state \<Rightarrow> call_state \<times> 'req call_awaiter" where
  "start_bidi default_cq cq s =
     (choose_cq default_cq cq s, new_call_awaiter StartBidi (Some False))"

text \<open>
  \<open>await_suspend\<close> of each: it calls the stub, which issues the operation and returns the new stream \<open>x\<close>,
  and then stores that stream. The two halves are separate, since the completion may be delivered on
  another thread in between.
\<close>

definition start_request_suspend ::
  "stream_id \<Rightarrow> 'req \<Rightarrow> coro_handle \<Rightarrow> call_state \<Rightarrow> 'req call_awaiter \<Rightarrow>
     ub + 'req call_awaiter \<times> 'req call_effs" where
  "start_request_suspend x req h s a =
     (let a = a\<lparr>call_handle := Some h\<rparr> in
      case call_cq s of None \<Rightarrow> Inl NullDeref
      | Some cq \<Rightarrow> Inr (a, [Issue (CallWithRequest x req cq (0, AwaiterObj))]))"

definition start_response_suspend ::
  "stream_id \<Rightarrow> coro_handle \<Rightarrow> call_state \<Rightarrow> 'req call_awaiter \<Rightarrow>
     ub + 'req call_awaiter \<times> 'req call_effs" where
  "start_response_suspend x h s a =
     (let a = a\<lparr>call_handle := Some h\<rparr> in
      case call_cq s of None \<Rightarrow> Inl NullDeref
      | Some cq \<Rightarrow> Inr (a, [Issue (CallWithResponse x cq (0, AwaiterObj))]))"

definition start_bidi_suspend ::
  "stream_id \<Rightarrow> coro_handle \<Rightarrow> call_state \<Rightarrow> 'req call_awaiter \<Rightarrow>
     ub + 'req call_awaiter \<times> 'req call_effs" where
  "start_bidi_suspend x h s a =
     (let a = a\<lparr>call_handle := Some h\<rparr> in
      case call_cq s of None \<Rightarrow> Inl NullDeref
      | Some cq \<Rightarrow> Inr (a, [Issue (CallBidi x cq (0, AwaiterObj))]))"

text \<open>That of the class of the awaiter; the other awaiters have an \<open>await_suspend\<close> of their own.\<close>

definition start_await_suspend ::
  "stream_id \<Rightarrow> coro_handle \<Rightarrow> call_state \<Rightarrow> 'req call_awaiter \<Rightarrow>
     ub + 'req call_awaiter \<times> 'req call_effs" where
  "start_await_suspend x h s a =
     (case call_method_of a of
        StartRequest req \<Rightarrow> start_request_suspend x req h s a
      | StartResponse \<Rightarrow> start_response_suspend x h s a
      | StartBidi \<Rightarrow> start_bidi_suspend x h s a
      | _ \<Rightarrow> Inl AssertFail)"

lemmas start_suspend_defs = start_await_suspend_def start_request_suspend_def
  start_response_suspend_def start_bidi_suspend_def

definition assign_stream :: "stream_id \<Rightarrow> call_state \<Rightarrow> call_state \<times> 'req call_effs" where
  "assign_stream x s = (s\<lparr>stream := Some x\<rparr>, freed (stream s))"

text \<open>
  \<open>handle_event\<close> of each; only where the client streams is there a side to close later.
\<close>

definition start_request_event ::
  "nat \<Rightarrow> bool \<Rightarrow> call_state \<Rightarrow> 'req call_awaiter \<Rightarrow>
     ub + call_state \<times> 'req call_awaiter \<times> 'req call_effs" where
  "start_request_event evt ok s a =
     (if evt \<noteq> 0 then Inl AssertFail
      else case call_handle a of None \<Rightarrow> Inl AssertFail
      | Some h \<Rightarrow>
          let a = a\<lparr>call_was_ok := Some ok\<rparr>
          in if \<not> ok then Inr (s\<lparr>stream := None\<rparr>, a, freed (stream s) @ [ResumeCoro h])
             else Inr (s, a, [ResumeCoro h]))"

definition start_response_event ::
  "nat \<Rightarrow> bool \<Rightarrow> call_state \<Rightarrow> 'req call_awaiter \<Rightarrow>
     ub + call_state \<times> 'req call_awaiter \<times> 'req call_effs" where
  "start_response_event evt ok s a =
     (if evt \<noteq> 0 then Inl AssertFail
      else case call_handle a of None \<Rightarrow> Inl AssertFail
      | Some h \<Rightarrow>
          let a = a\<lparr>call_was_ok := Some ok\<rparr>;
              s = s\<lparr>m_need_writes_done := ok\<rparr>
          in if \<not> ok then Inr (s\<lparr>stream := None\<rparr>, a, freed (stream s) @ [ResumeCoro h])
             else Inr (s, a, [ResumeCoro h]))"

definition start_bidi_event ::
  "nat \<Rightarrow> bool \<Rightarrow> call_state \<Rightarrow> 'req call_awaiter \<Rightarrow>
     ub + call_state \<times> 'req call_awaiter \<times> 'req call_effs" where
  "start_bidi_event evt ok s a =
     (if evt \<noteq> 0 then Inl AssertFail
      else case call_handle a of None \<Rightarrow> Inl AssertFail
      | Some h \<Rightarrow>
          let a = a\<lparr>call_was_ok := Some ok\<rparr>;
              s = s\<lparr>m_need_writes_done := ok\<rparr>
          in if \<not> ok then Inr (s\<lparr>stream := None\<rparr>, a, freed (stream s) @ [ResumeCoro h])
             else Inr (s, a, [ResumeCoro h]))"

text \<open>A method has one of the three, by the \<open>requires\<close> clauses of \<open>start\<close>.\<close>

definition start_handle_event ::
  "rpc_method_type \<Rightarrow> nat \<Rightarrow> bool \<Rightarrow> call_state \<Rightarrow> 'req call_awaiter \<Rightarrow>
     ub + call_state \<times> 'req call_awaiter \<times> 'req call_effs" where
  "start_handle_event T evt ok s a =
     (if call_client_streaming T \<and> call_server_streaming T then start_bidi_event evt ok s a
      else if call_client_streaming T then start_response_event evt ok s a
      else start_request_event evt ok s a)"

lemma start_handle_event_alt:
  "start_handle_event T evt ok s a =
     (if evt \<noteq> 0 then Inl AssertFail
      else case call_handle a of None \<Rightarrow> Inl AssertFail
      | Some h \<Rightarrow>
          let a = a\<lparr>call_was_ok := Some ok\<rparr>;
              s = (if call_client_streaming T then s\<lparr>m_need_writes_done := ok\<rparr> else s)
          in if \<not> ok then Inr (s\<lparr>stream := None\<rparr>, a, freed (stream s) @ [ResumeCoro h])
             else Inr (s, a, [ResumeCoro h]))"
  by (simp add: start_handle_event_def start_request_event_def start_response_event_def
      start_bidi_event_def Let_def split: option.split)

section \<open>Reading and writing\<close>

definition call_read :: "call_state \<Rightarrow> 'req call_awaiter" where
  "call_read s = new_call_awaiter ReadMethod None"

definition call_read_suspend :: "coro_handle \<Rightarrow> call_state \<Rightarrow> 'req call_awaiter \<Rightarrow>
     ub + 'req call_awaiter \<times> 'req call_effs" where
  "call_read_suspend h s a =
     (case stream s of None \<Rightarrow> Inl NullDeref
      | Some x \<Rightarrow> Inr (a\<lparr>call_handle := Some h\<rparr>, [Issue (ClientRead x (0, AwaiterObj))]))"

definition call_read_event :: "nat \<Rightarrow> bool \<Rightarrow> call_state \<Rightarrow> 'req call_awaiter \<Rightarrow>
     ub + call_state \<times> 'req call_awaiter \<times> 'req call_effs" where
  "call_read_event evt ok s a =
     (case call_handle a of None \<Rightarrow> Inl AssertFail
      | Some h \<Rightarrow> if evt \<noteq> 0 then Inl AssertFail
                 else Inr (s, a\<lparr>call_was_ok := Some ok\<rparr>, [ResumeCoro h]))"

text \<open>The three writing operations throw before they make an awaiter if there is no stream.\<close>

datatype call_error = LogicError string

definition active_call :: "call_state \<Rightarrow> 'a \<Rightarrow> call_error + 'a" where
  "active_call s a = (case stream s of None \<Rightarrow> Inl (LogicError ''No active call'') | Some x \<Rightarrow> Inr a)"

definition call_write :: "'req \<Rightarrow> call_state \<Rightarrow> call_error + 'req call_awaiter" where
  "call_write msg s = active_call s (new_call_awaiter (WriteMethod msg) (Some False))"

definition call_write_suspend :: "'req \<Rightarrow> coro_handle \<Rightarrow> call_state \<Rightarrow> 'req call_awaiter \<Rightarrow>
     ub + 'req call_awaiter \<times> 'req call_effs" where
  "call_write_suspend msg h s a =
     (case stream s of None \<Rightarrow> Inl NullDeref
      | Some x \<Rightarrow> Inr (a\<lparr>call_handle := Some h\<rparr>, [Issue (ClientWrite x msg (0, AwaiterObj))]))"

definition call_write_event :: "nat \<Rightarrow> bool \<Rightarrow> call_state \<Rightarrow> 'req call_awaiter \<Rightarrow>
     ub + call_state \<times> 'req call_awaiter \<times> 'req call_effs" where
  "call_write_event evt ok s a =
     (if evt \<noteq> 0 then Inl AssertFail
      else case call_handle a of None \<Rightarrow> Inl AssertFail
        | Some h \<Rightarrow> Inr (s, a\<lparr>call_was_ok := Some ok\<rparr>, [ResumeCoro h]))"

definition call_write_last :: "'req \<Rightarrow> call_state \<Rightarrow> call_error + 'req call_awaiter" where
  "call_write_last msg s = active_call s (new_call_awaiter (WriteLastMethod msg) (Some False))"

definition call_write_last_suspend :: "'req \<Rightarrow> coro_handle \<Rightarrow> call_state \<Rightarrow> 'req call_awaiter \<Rightarrow>
     ub + 'req call_awaiter \<times> 'req call_effs" where
  "call_write_last_suspend msg h s a =
     (case stream s of None \<Rightarrow> Inl NullDeref
      | Some x \<Rightarrow> Inr (a\<lparr>call_handle := Some h\<rparr>, [Issue (ClientWriteLast x msg (0, AwaiterObj))]))"

definition call_write_last_event :: "nat \<Rightarrow> bool \<Rightarrow> call_state \<Rightarrow> 'req call_awaiter \<Rightarrow>
     ub + call_state \<times> 'req call_awaiter \<times> 'req call_effs" where
  "call_write_last_event evt ok s a =
     (if evt \<noteq> 0 then Inl AssertFail
      else case call_handle a of None \<Rightarrow> Inl AssertFail
        | Some h \<Rightarrow> Inr (s\<lparr>m_need_writes_done := False\<rparr>, a\<lparr>call_was_ok := Some ok\<rparr>, [ResumeCoro h]))"

definition call_writes_done :: "call_state \<Rightarrow> call_error + 'req call_awaiter" where
  "call_writes_done s = active_call s (new_call_awaiter WritesDoneMethod (Some False))"

definition call_writes_done_suspend :: "coro_handle \<Rightarrow> call_state \<Rightarrow> 'req call_awaiter \<Rightarrow>
     ub + 'req call_awaiter \<times> 'req call_effs" where
  "call_writes_done_suspend h s a =
     (case stream s of None \<Rightarrow> Inl NullDeref
      | Some x \<Rightarrow> Inr (a\<lparr>call_handle := Some h\<rparr>, [Issue (ClientWritesDone x (0, AwaiterObj))]))"

definition call_writes_done_event :: "nat \<Rightarrow> bool \<Rightarrow> call_state \<Rightarrow> 'req call_awaiter \<Rightarrow>
     ub + call_state \<times> 'req call_awaiter \<times> 'req call_effs" where
  "call_writes_done_event evt ok s a =
     (if evt \<noteq> 0 then Inl AssertFail
      else case call_handle a of None \<Rightarrow> Inl AssertFail
        | Some h \<Rightarrow> Inr (s\<lparr>m_need_writes_done := False\<rparr>, a\<lparr>call_was_ok := Some ok\<rparr>, [ResumeCoro h]))"

definition call_await_resume :: "'req call_awaiter \<Rightarrow> ub + bool" where
  "call_await_resume a = (case call_was_ok a of None \<Rightarrow> Inl UninitRead | Some ok \<Rightarrow> Inr ok)"

section \<open>Finishing\<close>

definition call_finish :: "call_state \<Rightarrow> 'req call_awaiter" where
  "call_finish s = new_call_awaiter FinishMethod None"

definition call_finish_suspend ::
  "rpc_method_type \<Rightarrow> coro_handle \<Rightarrow> call_state \<Rightarrow> 'req call_awaiter \<Rightarrow>
     ub + 'req call_awaiter \<times> 'req call_effs" where
  "call_finish_suspend T h s a =
     (let a = a\<lparr>call_handle := Some h\<rparr> in
      case stream s of None \<Rightarrow> Inl NullDeref
      | Some x \<Rightarrow>
          if call_client_streaming T then
            if m_need_writes_done s then Inr (a, [Issue (ClientWritesDone x (0, AwaiterObj))])
            else Inr (a, [Issue (ClientFinish x (1, AwaiterObj))])
          else Inr (a, [Issue (ClientFinish x (1, AwaiterObj))]))"

definition event_failed :: status where
  "event_failed = Status STATUS_UNKNOWN ''Event returned ok=false''"

definition call_finish_event :: "nat \<Rightarrow> bool \<Rightarrow> call_state \<Rightarrow> 'req call_awaiter \<Rightarrow>
     ub + call_state \<times> 'req call_awaiter \<times> 'req call_effs" where
  "call_finish_event evt ok s a =
     (case call_handle a of None \<Rightarrow> Inl AssertFail
      | Some h \<Rightarrow>
          let a = (if \<not> ok then a\<lparr>call_status := event_failed\<rparr> else a) in
          if evt = 0 then
            (case stream s of None \<Rightarrow> Inl NullDeref
             | Some x \<Rightarrow> Inr (s, a, [Issue (ClientFinish x (1, AwaiterObj))]))
          else if evt = 1 then Inr (s\<lparr>stream := None\<rparr>, a, freed (stream s) @ [ResumeCoro h])
          else Inl AssertFail)"

definition call_finish_resume :: "'req call_awaiter \<Rightarrow> status" where
  "call_finish_resume a = call_status a"

section \<open>After the wrapper is gone\<close>

text \<open>\<open>~streaming_call\<close> releases the state object and calls \<open>destruct\<close> on it.\<close>

definition destruct :: "rpc_method_type \<Rightarrow> call_state \<Rightarrow> ub + call_state \<times> 'req call_effs" where
  "destruct T s =
     (case stream s of
        Some x \<Rightarrow>
          if \<not> has_context s then Inl NullDeref
          else if call_client_streaming T then
            if m_need_writes_done s then Inr (s, [Issue ClientTryCancel, Issue (ClientWritesDone x (0, StateObj))])
            else Inr (s, [Issue ClientTryCancel, Issue (ClientFinish x (1, StateObj))])
          else Inr (s, [Issue ClientTryCancel, Issue (ClientFinish x (1, StateObj))])
      | None \<Rightarrow> Inr (s, [DeleteSelf]))"

definition state_handle_event :: "nat \<Rightarrow> bool \<Rightarrow> call_state \<Rightarrow> ub + call_state \<times> 'req call_effs" where
  "state_handle_event evt ok s =
     (if evt = 0 then
        (case stream s of None \<Rightarrow> Inl NullDeref
         | Some x \<Rightarrow> Inr (s, [Issue (ClientFinish x (1, StateObj))]))
      else Inr (s\<lparr>stream := None, has_context := False\<rparr>,
                freed (stream s) @ (if has_context s then [RunHook ContextFreed] else []) @ [DeleteSelf]))"

lemmas call_defs =
  start_suspend_defs start_handle_event_alt call_read_suspend_def call_read_event_def
  call_write_suspend_def call_write_event_def call_write_last_suspend_def call_write_last_event_def
  call_writes_done_suspend_def call_writes_done_event_def call_await_resume_def
  call_finish_suspend_def call_finish_event_def call_finish_resume_def
  call_read_def call_write_def call_write_last_def call_writes_done_def call_finish_def
  active_call_def new_call_awaiter_def freed_def Let_def

end
