(* ===== verification/Streaming_Ops.thy ===== *)
theory Streaming_Ops
  imports Streaming_Call
begin

text \<open>
  One operation of a streaming call at a time: reading and writing provide the interface of a
  single-operation awaiter on an active call, and \<open>finish\<close> reports the status of the call.
\<close>

section \<open>The operations as single-operation awaiters\<close>

text \<open>The awaiter together with the state it works on.\<close>

definition on_call ::
  "(call_state \<Rightarrow> 'req call_awaiter \<Rightarrow> ub + 'req call_awaiter \<times> 'req call_effs) \<Rightarrow>
     call_state \<times> 'req call_awaiter \<Rightarrow> ub + (call_state \<times> 'req call_awaiter) \<times> 'req call_effs" where
  "on_call f sa = (case f (fst sa) (snd sa) of Inl u \<Rightarrow> Inl u | Inr (a, es) \<Rightarrow> Inr ((fst sa, a), es))"

definition on_call_event ::
  "(call_state \<Rightarrow> 'req call_awaiter \<Rightarrow> ub + call_state \<times> 'req call_awaiter \<times> 'req call_effs) \<Rightarrow>
     call_state \<times> 'req call_awaiter \<Rightarrow> ub + (call_state \<times> 'req call_awaiter) \<times> 'req call_effs" where
  "on_call_event f sa =
     (case f (fst sa) (snd sa) of Inl u \<Rightarrow> Inl u | Inr (s, a, es) \<Rightarrow> Inr ((s, a), es))"

lemmas on_call_defs = on_call_def on_call_event_def call_read_suspend_def call_read_event_def
  call_write_suspend_def call_write_event_def call_write_last_suspend_def call_write_last_event_def
  call_writes_done_suspend_def call_writes_done_event_def call_await_resume_def

interpretation reading: single_shot
  "\<lambda>sa. stream (fst sa) = Some x" "\<lambda>h. on_call (call_read_suspend h)" "\<lambda>_ :: unit. id"
  "\<lambda>ok. on_call_event (call_read_event 0 ok)" "\<lambda>sa. call_await_resume (snd sa)"
  "\<lambda>op. op = ClientRead x (0, AwaiterObj)" "\<lambda>h sa. call_handle (snd sa) = Some h"
  by unfold_locales (auto simp: on_call_defs intro: exI [of _ "[]"])

interpretation writing: single_shot
  "\<lambda>sa. stream (fst sa) = Some x" "\<lambda>h. on_call (call_write_suspend msg h)" "\<lambda>_ :: unit. id"
  "\<lambda>ok. on_call_event (call_write_event 0 ok)" "\<lambda>sa. call_await_resume (snd sa)"
  "\<lambda>op. op = ClientWrite x msg (0, AwaiterObj)" "\<lambda>h sa. call_handle (snd sa) = Some h"
  by unfold_locales (auto simp: on_call_defs intro: exI [of _ "[]"])

interpretation writing_last: single_shot
  "\<lambda>sa. stream (fst sa) = Some x" "\<lambda>h. on_call (call_write_last_suspend msg h)" "\<lambda>_ :: unit. id"
  "\<lambda>ok. on_call_event (call_write_last_event 0 ok)" "\<lambda>sa. call_await_resume (snd sa)"
  "\<lambda>op. op = ClientWriteLast x msg (0, AwaiterObj)" "\<lambda>h sa. call_handle (snd sa) = Some h"
  by unfold_locales (auto simp: on_call_defs intro: exI [of _ "[]"])

interpretation half_closing: single_shot
  "\<lambda>sa. stream (fst sa) = Some x" "\<lambda>h. on_call (call_writes_done_suspend h)" "\<lambda>_ :: unit. id"
  "\<lambda>ok. on_call_event (call_writes_done_event 0 ok)" "\<lambda>sa. call_await_resume (snd sa)"
  "\<lambda>op. op = ClientWritesDone x (0, AwaiterObj)" "\<lambda>h sa. call_handle (snd sa) = Some h"
  by unfold_locales (auto simp: on_call_defs intro: exI [of _ "[]"])

text \<open>One full round of an operation, in terms of the interface.\<close>

definition rounds_trip ::
  "(coro_handle \<Rightarrow> 'a \<Rightarrow> ub + 'a \<times> ('op, 'hook) eff list) \<Rightarrow>
     (bool \<Rightarrow> 'a \<Rightarrow> ub + 'a \<times> ('op, 'hook) eff list) \<Rightarrow> ('a \<Rightarrow> ub + bool) \<Rightarrow> 'op \<Rightarrow>
     coro_handle \<Rightarrow> bool \<Rightarrow> 'a \<Rightarrow> bool" where
  "rounds_trip suspend event resume op h ok a \<longleftrightarrow>
     (\<exists>a1 e1 a2 e2. suspend h a = Inr (a1, e1) \<and> issued e1 = [op] \<and> ends_with_handover e1 \<and>
        event ok a1 = Inr (a2, e2) \<and> last e2 = ResumeCoro h \<and> issued e2 = [] \<and>
        ends_with_handover e2 \<and> resume a2 = Inr ok)"

lemma rounds_tripI:
  "\<exists>a1 e1 op' a2 e2. suspend h a = Inr (a1, e1) \<and> issued e1 = [op'] \<and> op' = op \<and>
     ends_with_handover e1 \<and> event ok (id a1) = Inr (a2, e2) \<and> last e2 = ResumeCoro h \<and>
     issued e2 = [] \<and> ends_with_handover e2 \<and> resume a2 = Inr ok \<Longrightarrow>
   rounds_trip suspend event resume op h ok a"
  by (auto simp: rounds_trip_def)

text \<open>
On an active call each of \<open>read\<close>, \<open>write\<close>, \<open>write_last\<close> and \<open>writes_done\<close> does one full round: it
issues exactly its operation, for the stream of the call, as the last thing before the coroutine is
suspended; the completion resumes exactly that coroutine, as its last action; and the value of the
\<open>co_await\<close> is the outcome, also for \<open>read\<close>, whose awaiter starts with an indeterminate flag.
\<close>

theorem call_operations_roundtrip:
  fixes st :: call_state and x :: stream_id and msg :: 'req
  defines "s \<equiv> st\<lparr>stream := Some x\<rparr>"
  shows
  "rounds_trip (\<lambda>h. on_call (call_read_suspend h)) (\<lambda>ok. on_call_event (call_read_event 0 ok))
     (\<lambda>sa. call_await_resume (snd sa)) (ClientRead x (0, AwaiterObj)) h ok (s, call_read s :: 'req call_awaiter) \<and>
   (\<exists>a. call_write msg s = Inr a \<and>
     rounds_trip (\<lambda>h. on_call (call_write_suspend msg h)) (\<lambda>ok. on_call_event (call_write_event 0 ok))
       (\<lambda>sa. call_await_resume (snd sa)) (ClientWrite x msg (0, AwaiterObj)) h ok (s, a)) \<and>
   (\<exists>a. call_write_last msg s = Inr a \<and>
     rounds_trip (\<lambda>h. on_call (call_write_last_suspend msg h))
       (\<lambda>ok. on_call_event (call_write_last_event 0 ok))
       (\<lambda>sa. call_await_resume (snd sa)) (ClientWriteLast x msg (0, AwaiterObj)) h ok (s, a)) \<and>
   (\<exists>a. (call_writes_done s :: call_error + 'req call_awaiter) = Inr a \<and>
     rounds_trip (\<lambda>h. on_call (call_writes_done_suspend h))
       (\<lambda>ok. on_call_event (call_writes_done_event 0 ok))
       (\<lambda>sa. call_await_resume (snd sa)) (ClientWritesDone x (0, AwaiterObj)) h ok (s, a))"
proof -
  have s: "stream (fst (s, a)) = Some x" for a by (simp add: s_def)
  have g: "active_call s a = Inr a" for a by (simp add: s_def active_call_def)
  have "rounds_trip (\<lambda>h. on_call (call_read_suspend h)) (\<lambda>ok. on_call_event (call_read_event 0 ok))
     (\<lambda>sa. call_await_resume (snd sa)) (ClientRead x (0, AwaiterObj)) h ok (s, a)" for a :: "'req call_awaiter"
    by (rule rounds_tripI) (rule reading.co_await_roundtrip [OF s])
  moreover have "rounds_trip (\<lambda>h. on_call (call_write_suspend msg h)) (\<lambda>ok. on_call_event (call_write_event 0 ok))
     (\<lambda>sa. call_await_resume (snd sa)) (ClientWrite x msg (0, AwaiterObj)) h ok (s, a)" for a :: "'req call_awaiter"
    by (rule rounds_tripI) (rule writing.co_await_roundtrip [OF s])
  moreover have "rounds_trip (\<lambda>h. on_call (call_write_last_suspend msg h)) (\<lambda>ok. on_call_event (call_write_last_event 0 ok))
     (\<lambda>sa. call_await_resume (snd sa)) (ClientWriteLast x msg (0, AwaiterObj)) h ok (s, a)" for a :: "'req call_awaiter"
    by (rule rounds_tripI) (rule writing_last.co_await_roundtrip [OF s])
  moreover have "rounds_trip (\<lambda>h. on_call (call_writes_done_suspend h)) (\<lambda>ok. on_call_event (call_writes_done_event 0 ok))
     (\<lambda>sa. call_await_resume (snd sa)) (ClientWritesDone x (0, AwaiterObj)) h ok (s, a)" for a :: "'req call_awaiter"
    by (rule rounds_tripI) (rule half_closing.co_await_roundtrip [OF s])
  ultimately show ?thesis
    unfolding call_write_def call_write_last_def call_writes_done_def g by simp
qed

text \<open>The runtime stores the status of the call before it completes \<open>Finish\<close>.\<close>

definition receive_status :: "status \<Rightarrow> 'req call_awaiter \<Rightarrow> 'req call_awaiter" where
  "receive_status st a = a\<lparr>call_status := st\<rparr>"

text \<open>
\<open>co_await finish()\<close> yields the status the server ended the call with, or, if the completion of
\<open>Finish\<close> itself failed, an unknown error; whether the client's side had to be closed first, and
whether that failed, makes no difference. The stream is freed, and the coroutine resumed last.
\<close>

theorem finish_reports_status:
  fixes st :: call_state and x :: stream_id and final :: status
  defines "s \<equiv> st\<lparr>stream := Some x\<rparr>"
  shows "\<exists>a1 op s2 a2 es.
     call_finish_suspend T h s (call_finish s) = Inr (a1, [Issue op]) \<and>
     (if call_client_streaming T \<and> m_need_writes_done s then
        op = ClientWritesDone x (0, AwaiterObj) \<and>
        (\<exists>b. call_finish_event 0 ok1 s a1 = Inr (s, b, [Issue (ClientFinish x (1, AwaiterObj))]) \<and>
           call_finish_event 1 ok2 s (receive_status final b) = Inr (s2, a2, es))
      else op = ClientFinish x (1, AwaiterObj) \<and>
        call_finish_event 1 ok2 s (receive_status final a1) = Inr (s2, a2, es)) \<and>
     stream s2 = None \<and> es = [RunHook (StreamFreed x), ResumeCoro h] \<and>
     call_finish_resume a2 = (if ok2 then final else event_failed)"
  unfolding s_def
  by (cases ok2; cases ok1)
     (simp_all add: call_finish_suspend_def call_finish_def call_finish_event_def receive_status_def
       call_finish_resume_def new_call_awaiter_def freed_def Let_def)

section \<open>Starting a call\<close>

text \<open>The queue a start is made on, and what its completion leaves behind.\<close>

definition started_on :: "cq_id \<Rightarrow> cq_id option \<Rightarrow> cq_id" where
  "started_on default_cq cq = (case cq of None \<Rightarrow> default_cq | Some c \<Rightarrow> c)"

definition start_outcome ::
  "stream_id \<Rightarrow> coro_handle \<Rightarrow> bool \<Rightarrow> bool \<Rightarrow> ub + call_state \<times> 'req call_awaiter \<times> 'req call_effs \<Rightarrow> bool" where
  "start_outcome x h ok open_side r \<longleftrightarrow>
     (\<exists>s a. r = Inr (s, a, (if ok then [] else [RunHook (StreamFreed x)]) @ [ResumeCoro h]) \<and>
        stream s = (if ok then Some x else None) \<and> m_need_writes_done s = open_side \<and>
        call_await_resume a = Inr ok)"

text \<open>
A start of any kind makes the call once, on the queue it was given or, only if it was given none, on
the default queue, which the call then keeps alive; its completion resumes the coroutine with the outcome:
the call is active, with a side to close if the client streams, or its stream is freed again and the call
can be dropped.
\<close>

theorem start_roundtrip:
  "(case start_request dcq req cq s of (s1, a) \<Rightarrow> \<exists>a1.
      start_await_suspend x h s1 a = Inr (a1, [Issue (CallWithRequest x req (started_on dcq cq) (0, AwaiterObj))]) \<and>
      default_client_cq s1 = (cq = None \<or> default_client_cq s) \<and>
      start_outcome x h ok (m_need_writes_done s) (start_request_event 0 ok (fst (assign_stream x s1)) a1)) \<and>
   (case start_response dcq cq s :: call_state \<times> 'req call_awaiter of (s1, a) \<Rightarrow> \<exists>a1.
      start_await_suspend x h s1 a = Inr (a1, [Issue (CallWithResponse x (started_on dcq cq) (0, AwaiterObj))]) \<and>
      default_client_cq s1 = (cq = None \<or> default_client_cq s) \<and>
      start_outcome x h ok ok (start_response_event 0 ok (fst (assign_stream x s1)) a1)) \<and>
   (case start_bidi dcq cq s :: call_state \<times> 'req call_awaiter of (s1, a) \<Rightarrow> \<exists>a1.
      start_await_suspend x h s1 a = Inr (a1, [Issue (CallBidi x (started_on dcq cq) (0, AwaiterObj))]) \<and>
      default_client_cq s1 = (cq = None \<or> default_client_cq s) \<and>
      start_outcome x h ok ok (start_bidi_event 0 ok (fst (assign_stream x s1)) a1))"
  by (cases cq; cases ok)
     (simp_all add: start_request_def start_response_def start_bidi_def choose_cq_def start_suspend_defs
      new_call_awaiter_def assign_stream_def start_outcome_def started_on_def start_request_event_def
      start_response_event_def start_bidi_event_def freed_def call_await_resume_def Let_def)

end
