(* ===== verification/Streaming_Life.thy ===== *)
theory Streaming_Life
  imports Streaming_Call
begin

text \<open>
  The life of a \<open>streaming_call\<close>: a coroutine that owns the wrapper and awaits its operations one
  after the other, the runtime that completes them on another thread, and the state object that
  outlives the wrapper. What the code takes for granted about its surroundings is explicit.
\<close>

section \<open>The system\<close>

text \<open>\<open>Dropped\<close>: the wrapper was destroyed, and with it the user's part of the call.\<close>

datatype user = Running | Awaiting | Dropped

text \<open>
  \<open>assigning\<close>: the stub returned this stream and \<open>await_suspend\<close> has not stored it yet; the flag
  says whether the awaiter it runs in still exists. \<open>started\<close> counts the calls of the stub.
  \<open>response_alive\<close>: whether the response object a client-streaming call was started with exists.
\<close>

record 'req call_sys =
  cst :: call_state
  caw :: "'req call_awaiter option"
  user_of :: user
  assigning :: "(stream_id \<times> bool) option"
  started :: nat
  state_alive :: bool
  response_alive :: bool
  pending :: "call_tag multiset"
  history :: "'req call_effs"
  call_failure :: "ub option"

definition initial_call :: "'req call_sys" where
  "initial_call = \<lparr>cst = make_state, caw = None, user_of = Running, assigning = None, started = 0,
     state_alive = True, response_alive = True, pending = {#}, history = [], call_failure = None\<rparr>"

fun client_op_tag :: "'req client_op \<Rightarrow> call_tag option" where
  "client_op_tag (CallWithRequest x req cq t) = Some t"
| "client_op_tag (CallWithResponse x cq t) = Some t"
| "client_op_tag (CallBidi x cq t) = Some t"
| "client_op_tag (ClientRead x t) = Some t"
| "client_op_tag (ClientWrite x m t) = Some t"
| "client_op_tag (ClientWriteLast x m t) = Some t"
| "client_op_tag (ClientWritesDone x t) = Some t"
| "client_op_tag (ClientFinish x t) = Some t"
| "client_op_tag ClientTryCancel = None"

text \<open>A resumed coroutine runs; a state object that deletes itself is gone.\<close>

definition emit :: "'req call_effs \<Rightarrow> 'req call_sys \<Rightarrow> 'req call_sys" where
  "emit es s =
     s\<lparr>pending := pending s + mset (List.map_filter client_op_tag (issued es)),
       history := history s @ es,
       state_alive := (state_alive s \<and> DeleteSelf \<notin> set es),
       user_of := (if \<exists>h. ResumeCoro h \<in> set es then Running else user_of s)\<rparr>"

definition fail :: "ub \<Rightarrow> 'req call_sys \<Rightarrow> 'req call_sys" where
  "fail u s = s\<lparr>call_failure := Some u\<rparr>"

definition await_op ::
  "ub + 'req call_awaiter \<times> 'req call_effs \<Rightarrow> 'req call_sys \<Rightarrow> 'req call_sys" where
  "await_op r s =
     (case r of Inl u \<Rightarrow> fail u s
      | Inr (a, es) \<Rightarrow> emit es (s\<lparr>caw := Some a, user_of := Awaiting\<rparr>))"

definition start_call ::
  "coro_handle \<Rightarrow> call_state \<times> 'req call_awaiter \<Rightarrow> 'req call_sys \<Rightarrow> 'req call_sys" where
  "start_call h sa s =
     (case start_await_suspend (started s) h (fst sa) (snd sa) of Inl u \<Rightarrow> fail u s
      | Inr (a, es) \<Rightarrow> emit es (s\<lparr>cst := fst sa, caw := Some a, user_of := Awaiting,
          assigning := Some (started s, True), started := Suc (started s)\<rparr>))"

datatype 'req call_action =
    Start 'req "cq_id option" | Read | Write 'req | WriteLast 'req | WritesDone | FinishCall | Drop

text \<open>
  An action of the running coroutine; the awaiter of its previous action is gone by then. \<open>None\<close>:
  there is no such member for this kind of method. A \<open>logic_error\<close> changes nothing.
\<close>

fun perform ::
  "rpc_method_type \<Rightarrow> cq_id \<Rightarrow> coro_handle \<Rightarrow> 'req call_action \<Rightarrow> 'req call_sys \<Rightarrow> 'req call_sys option" where
  "perform T dcq h (Start req cq) s =
     (if assigning s \<noteq> None then None
      else if call_client_streaming T \<and> call_server_streaming T then
        Some (start_call h (start_bidi dcq cq (cst s)) s)
      else if call_client_streaming T then Some (start_call h (start_response dcq cq (cst s)) s)
      else if call_server_streaming T then Some (start_call h (start_request dcq req cq (cst s)) s)
      else None)"
| "perform T dcq h Read s =
     (if call_server_streaming T then Some (await_op (call_read_suspend h (cst s) (call_read (cst s))) s)
      else None)"
| "perform T dcq h (Write msg) s =
     (if call_client_streaming T then
        Some (case call_write msg (cst s) of Inl e \<Rightarrow> s
          | Inr a \<Rightarrow> await_op (call_write_suspend msg h (cst s) a) s)
      else None)"
| "perform T dcq h (WriteLast msg) s =
     (if call_client_streaming T then
        Some (case call_write_last msg (cst s) of Inl e \<Rightarrow> s
          | Inr a \<Rightarrow> await_op (call_write_last_suspend msg h (cst s) a) s)
      else None)"
| "perform T dcq h WritesDone s =
     (if call_client_streaming T then
        Some (case call_writes_done (cst s) of Inl e \<Rightarrow> s
          | Inr a \<Rightarrow> await_op (call_writes_done_suspend h (cst s) a) s)
      else None)"
| "perform T dcq h FinishCall s = Some (await_op (call_finish_suspend T h (cst s) (call_finish (cst s))) s)"
| "perform T dcq h Drop s =
     Some (case destruct T (cst s) of Inl u \<Rightarrow> fail u s
       | Inr (st, es) \<Rightarrow> emit es (s\<lparr>cst := st, caw := None, user_of := Dropped\<rparr>))"

fun awaiter_handle_event ::
  "rpc_method_type \<Rightarrow> nat \<Rightarrow> bool \<Rightarrow> call_state \<Rightarrow> 'req call_awaiter \<Rightarrow>
     ub + call_state \<times> 'req call_awaiter \<times> 'req call_effs" where
  "awaiter_handle_event T evt ok s a =
     (case call_method_of a of
        StartRequest req \<Rightarrow> start_handle_event T evt ok s a
      | StartResponse \<Rightarrow> start_handle_event T evt ok s a
      | StartBidi \<Rightarrow> start_handle_event T evt ok s a
      | ReadMethod \<Rightarrow> call_read_event evt ok s a
      | WriteMethod m \<Rightarrow> call_write_event evt ok s a
      | WriteLastMethod m \<Rightarrow> call_write_last_event evt ok s a
      | WritesDoneMethod \<Rightarrow> call_writes_done_event evt ok s a
      | FinishMethod \<Rightarrow> call_finish_event evt ok s a)"

text \<open>
  A completion. A successful \<open>Finish\<close> of a call with a single response first stores the response in
  the object the call was started with.
\<close>

definition stores_response :: "rpc_method_type \<Rightarrow> call_tag \<Rightarrow> bool \<Rightarrow> bool" where
  "stores_response T tag ok \<longleftrightarrow>
     fst tag = 1 \<and> ok \<and> call_client_streaming T \<and> \<not> call_server_streaming T"

definition complete :: "rpc_method_type \<Rightarrow> call_tag \<Rightarrow> bool \<Rightarrow> 'req call_sys \<Rightarrow> 'req call_sys" where
  "complete T tag ok s =
     (let s = s\<lparr>pending := pending s - {#tag#}\<rparr> in
      if stores_response T tag ok \<and> \<not> response_alive s then fail UseAfterFree s
      else case snd tag of
        AwaiterObj \<Rightarrow>
          (case caw s of None \<Rightarrow> fail UseAfterFree s
           | Some a \<Rightarrow>
               if user_of s \<noteq> Awaiting then fail UseAfterFree s
               else (case awaiter_handle_event T (fst tag) ok (cst s) a of Inl u \<Rightarrow> fail u s
                     | Inr (st, a, es) \<Rightarrow> emit es (s\<lparr>cst := st, caw := Some a\<rparr>)))
      | StateObj \<Rightarrow>
          if \<not> state_alive s then fail UseAfterFree s
          else (case state_handle_event (fst tag) ok (cst s) of Inl u \<Rightarrow> fail u s
                | Inr (st, es) \<Rightarrow> emit es (s\<lparr>cst := st\<rparr>)))"

text \<open>\<open>await_suspend\<close> of a start goes on after the stub returned.\<close>

definition store_stream :: "stream_id \<Rightarrow> bool \<Rightarrow> 'req call_sys \<Rightarrow> 'req call_sys" where
  "store_stream x awaiter_alive s =
     (if \<not> awaiter_alive then fail UseAfterFree s
      else case assign_stream x (cst s) of (st, es) \<Rightarrow> emit es (s\<lparr>cst := st, assigning := None\<rparr>))"

text \<open>
  What the code relies on: that a stream is stored before the completion of its start is delivered;
  that the user reads and finishes only a call that is active, starts at most one and writes nothing
  after closing its side; and that the response object outlives the state object.
\<close>

record assumptions =
  stores_first :: bool
  uses_properly :: bool
  response_outlives :: bool

definition proper :: "'req call_action \<Rightarrow> 'req call_sys \<Rightarrow> bool" where
  "proper act s =
     (case act of
        Start req cq \<Rightarrow> started s = 0
      | Read \<Rightarrow> stream (cst s) \<noteq> None
      | FinishCall \<Rightarrow> stream (cst s) \<noteq> None
      | Drop \<Rightarrow> True
      | _ \<Rightarrow> stream (cst s) = None \<or> m_need_writes_done (cst s))"

inductive call_step ::
  "rpc_method_type \<Rightarrow> assumptions \<Rightarrow> 'req call_sys \<Rightarrow> 'req call_sys \<Rightarrow> bool"
  for T env where
  act: "call_failure s = None \<Longrightarrow> user_of s = Running \<Longrightarrow> (uses_properly env \<Longrightarrow> proper a s) \<Longrightarrow>
     perform T dcq h a (s\<lparr>assigning := map_option (\<lambda>(x, b). (x, False)) (assigning s)\<rparr>) = Some t \<Longrightarrow>
     call_step T env s t"
| store: "call_failure s = None \<Longrightarrow> assigning s = Some (x, b) \<Longrightarrow> call_step T env s (store_stream x b s)"
| completed: "call_failure s = None \<Longrightarrow> tag \<in># pending s \<Longrightarrow> (stores_first env \<Longrightarrow> assigning s = None) \<Longrightarrow>
     call_step T env s (complete T tag ok s)"
| scope_end: "call_failure s = None \<Longrightarrow> user_of s = Dropped \<Longrightarrow> (response_outlives env \<Longrightarrow> \<not> state_alive s) \<Longrightarrow>
     call_step T env s (s\<lparr>response_alive := False\<rparr>)"

abbreviation "call_run T env \<equiv> (call_step T env)\<^sup>*\<^sup>*"

abbreviation call_reaches :: "rpc_method_type \<Rightarrow> assumptions \<Rightarrow> 'req call_sys \<Rightarrow> bool" where
  "call_reaches T env s \<equiv> call_run T env initial_call s"

definition all_assumed :: assumptions where
  "all_assumed = \<lparr>stores_first = True, uses_properly = True, response_outlives = True\<rparr>"

section \<open>The life cycle\<close>

datatype call_phase =
    Idle | Storing | Starting | Active | Operating | HalfClosing | Finishing | Detaching | Detached | Deleted

fun is_start :: "'req call_method \<Rightarrow> bool" where
  "is_start (StartRequest req) = True"
| "is_start StartResponse = True"
| "is_start StartBidi = True"
| "is_start _ = False"

definition call_phase_of :: "'req call_sys \<Rightarrow> call_phase" where
  "call_phase_of s =
     (case user_of s of
        Running \<Rightarrow> if stream (cst s) = None then Idle else Active
      | Awaiting \<Rightarrow>
          if assigning s \<noteq> None then Storing
          else (case caw s of None \<Rightarrow> Operating
            | Some a \<Rightarrow> if is_start (call_method_of a) then Starting
                else if call_method_of a = FinishMethod then
                  (if (1, AwaiterObj) \<in># pending s then Finishing else HalfClosing)
                else Operating)
      | Dropped \<Rightarrow>
          if \<not> state_alive s then Deleted
          else if (0, StateObj) \<in># pending s then Detaching else Detached)"

text \<open>
  A call is started, which fails or makes it active; operations are done one after the other; it is
  finished by the user, or, when the wrapper is dropped, by the state object, in both cases after
  the client's side has been closed if it is still open.
\<close>

inductive call_phase_step :: "call_phase \<Rightarrow> call_phase \<Rightarrow> bool" where
  "call_phase_step Idle Storing" | "call_phase_step Idle Deleted"
| "call_phase_step Storing Starting"
| "call_phase_step Starting Active" | "call_phase_step Starting Idle"
| "call_phase_step Active Operating" | "call_phase_step Active HalfClosing"
| "call_phase_step Active Finishing" | "call_phase_step Active Detaching"
| "call_phase_step Active Detached"
| "call_phase_step Operating Active"
| "call_phase_step HalfClosing Finishing" | "call_phase_step Finishing Idle"
| "call_phase_step Detaching Detached" | "call_phase_step Detached Deleted"

inductive_simps call_phase_step_simps [simp]:
  "call_phase_step Idle p" "call_phase_step Storing p" "call_phase_step Starting p"
  "call_phase_step Active p" "call_phase_step Operating p" "call_phase_step HalfClosing p"
  "call_phase_step Finishing p" "call_phase_step Detaching p" "call_phase_step Detached p"
  "call_phase_step Deleted p"

fun is_half_close :: "('req client_op, call_event) eff \<Rightarrow> bool" where
  "is_half_close (Issue (ClientWriteLast x m t)) = True"
| "is_half_close (Issue (ClientWritesDone x t)) = True"
| "is_half_close _ = False"

fun is_client_finish :: "('req client_op, call_event) eff \<Rightarrow> bool" where
  "is_client_finish (Issue (ClientFinish x t)) = True"
| "is_client_finish _ = False"

fun is_stream_freed :: "('req client_op, call_event) eff \<Rightarrow> bool" where
  "is_stream_freed (RunHook (StreamFreed x)) = True"
| "is_stream_freed _ = False"

fun is_delete :: "('op, 'hook) eff \<Rightarrow> bool" where
  "is_delete DeleteSelf = True"
| "is_delete _ = False"

end
