(* ===== verification/Streaming_Inv.thy ===== *)
theory Streaming_Inv
  imports Streaming_Life
begin

text \<open>
  The invariant of a streaming call, phase by phase: what is outstanding, who owns what, and how often
  the client's side was closed, the call finished, the stream freed and the state object deleted. It
  holds as long as what the code takes for granted does.
\<close>


section \<open>The invariant\<close>

fun user_in :: "call_phase \<Rightarrow> user" where
  "user_in Idle = Running"
| "user_in Active = Running"
| "user_in Detaching = Dropped"
| "user_in Detached = Dropped"
| "user_in Deleted = Dropped"
| "user_in _ = Awaiting"

text \<open>What is outstanding in each phase.\<close>

fun call_awaits :: "call_phase \<Rightarrow> call_tag multiset" where
  "call_awaits Idle = {#}"
| "call_awaits Active = {#}"
| "call_awaits Finishing = {#(1, AwaiterObj)#}"
| "call_awaits Detaching = {#(0, StateObj)#}"
| "call_awaits Detached = {#(1, StateObj)#}"
| "call_awaits Deleted = {#}"
| "call_awaits _ = {#(0, AwaiterObj)#}"

fun awaiter_in :: "call_phase \<Rightarrow> 'req call_method \<Rightarrow> bool" where
  "awaiter_in Storing m = is_start m"
| "awaiter_in Starting m = is_start m"
| "awaiter_in Operating m = (\<not> is_start m \<and> m \<noteq> FinishMethod)"
| "awaiter_in HalfClosing m = (m = FinishMethod)"
| "awaiter_in Finishing m = (m = FinishMethod)"
| "awaiter_in _ m = True"

fun closing :: "'req call_method \<Rightarrow> bool" where
  "closing (WriteLastMethod m) = True"
| "closing WritesDoneMethod = True"
| "closing _ = False"

definition call_shape :: "call_phase \<Rightarrow> 'req call_sys \<Rightarrow> bool" where
  "call_shape ph s \<longleftrightarrow>
     call_failure s = None \<and> user_of s = user_in ph \<and> pending s = call_awaits ph \<and>
     state_alive s = (ph \<noteq> Deleted) \<and>
     (ph \<noteq> Deleted \<longrightarrow> response_alive s \<and> has_context (cst s)) \<and>
     stream (cst s) = (if ph \<in> {Idle, Storing, Deleted} then None else Some 0) \<and>
     assigning s = (if ph = Storing then Some (0, True) else None) \<and>
     (if ph \<in> {Idle, Deleted} then started s \<le> 1 else started s = 1) \<and>
     (user_in ph = Awaiting \<longrightarrow>
        (\<exists>a h. caw s = Some a \<and> call_handle a = Some h \<and> awaiter_in ph (call_method_of a)))"

text \<open>How often the client's side was closed, given how often the call was finished.\<close>

fun closed_in :: "call_phase \<Rightarrow> 'req call_sys \<Rightarrow> nat" where
  "closed_in Idle s = count is_client_finish (history s)"
| "closed_in Deleted s = count is_client_finish (history s)"
| "closed_in Storing s = 0"
| "closed_in Starting s = 0"
| "closed_in Active s = (if m_need_writes_done (cst s) then 0 else 1)"
| "closed_in Operating s =
     (if m_need_writes_done (cst s) \<and> \<not> closing (call_method_of (the (caw s))) then 0 else 1)"
| "closed_in _ s = 1"

definition call_counts :: "rpc_method_type \<Rightarrow> call_phase \<Rightarrow> 'req call_sys \<Rightarrow> bool" where
  "call_counts T ph s \<longleftrightarrow>
     count is_delete (history s) = (if ph = Deleted then 1 else 0) \<and>
     count is_stream_freed (history s) = (if ph \<in> {Idle, Deleted} then started s else 0) \<and>
     (if ph \<in> {Finishing, Detached} then count is_client_finish (history s) = 1
      else if ph \<in> {Idle, Deleted} then count is_client_finish (history s) \<le> started s
      else count is_client_finish (history s) = 0) \<and>
     count is_half_close (history s) = (if call_client_streaming T then closed_in ph s else 0)"

definition call_inv :: "rpc_method_type \<Rightarrow> call_phase \<Rightarrow> 'req call_sys \<Rightarrow> bool" where
  "call_inv T ph s \<longleftrightarrow> call_shape ph s \<and> call_counts T ph s"

lemmas call_inv_defs = call_inv_def call_shape_def call_counts_def

lemma call_phase_unique: "call_inv T ph s \<Longrightarrow> call_phase_of s = ph"
  by (cases ph) (auto simp: call_inv_defs call_phase_of_def)

lemma call_inv_initial: "call_inv T Idle initial_call"
  by (simp add: call_inv_defs initial_call_def make_state_def)

section \<open>One step\<close>

lemma emit_simps [simp]:
  "cst (emit es s) = cst s" "caw (emit es s) = caw s" "assigning (emit es s) = assigning s"
  "started (emit es s) = started s" "response_alive (emit es s) = response_alive s"
  "call_failure (emit es s) = call_failure s" "history (emit es s) = history s @ es"
  "pending (emit es s) = pending s + mset (List.map_filter client_op_tag (issued es))"
  "state_alive (emit es s) = (state_alive s \<and> DeleteSelf \<notin> set es)"
  "user_of (emit es s) = (if \<exists>h. ResumeCoro h \<in> set es then Running else user_of s)"
  by (simp_all add: emit_def)

lemma start_suspend_result:
  assumes "call_cq st \<noteq> None" and "is_start (call_method_of a)"
  shows "\<exists>op. start_await_suspend x h st a = Inr (a\<lparr>call_handle := Some h\<rparr>, [Issue op]) \<and>
    client_op_tag op = Some (0, AwaiterObj) \<and>
    \<not> is_half_close (Issue op) \<and> \<not> is_client_finish (Issue op :: ('a client_op, call_event) eff)"
  using assms by (cases "call_method_of a") (auto simp: start_suspend_defs Let_def)

lemma choose_cq_simps [simp]:
  "call_cq (choose_cq d cq s) \<noteq> None" "stream (choose_cq d cq s) = stream s"
  "has_context (choose_cq d cq s) = has_context s"
  by (simp_all add: choose_cq_def split: option.split)

lemma start_idle:
  assumes "call_inv T Idle s" and "started s = 0"
    and "sa = (choose_cq d cq (cst s), a)" and "is_start (call_method_of a)"
  shows "call_inv T Storing (start_call h sa s)"
proof -
  obtain op where "start_await_suspend (started s) h (choose_cq d cq (cst s)) a =
      Inr (a\<lparr>call_handle := Some h\<rparr>, [Issue op])" "client_op_tag op = Some (0, AwaiterObj)"
    "\<not> is_half_close (Issue op)" "\<not> is_client_finish (Issue op :: ('a client_op, call_event) eff)"
    using start_suspend_result [of "choose_cq d cq (cst s)" a] assms(4) by auto
  with assms show ?thesis by (simp add: call_inv_defs start_call_def)
qed

lemma idle_acts:
  assumes "call_inv T Idle s" and "proper a s" and "perform T dcq h a s = Some t"
  shows "\<exists>ph. (ph = Idle \<or> call_phase_step Idle ph) \<and> call_inv T ph t"
proof -
  have str: "stream (cst s) = None" using assms(1) by (simp add: call_inv_defs)
  show ?thesis
  proof (cases a)
    case (Start req cq)
    then have "call_inv T Storing t"
      using assms start_idle [OF assms(1), of _ dcq cq _ h]
      by (auto simp: proper_def start_bidi_def start_response_def start_request_def new_call_awaiter_def
          split: if_splits)
    then show ?thesis by auto
  next
    case Drop
    then have "call_inv T Deleted t"
      using assms str by (auto simp: call_inv_defs destruct_def split: if_splits)
    then show ?thesis by auto
  qed (use assms str in \<open>auto simp: proper_def call_write_def call_write_last_def call_writes_done_def
      active_call_def split: if_splits\<close>)
qed

lemma active_acts:
  assumes "call_inv T Active s" and "proper a s" and "perform T dcq h a s = Some t"
  shows "\<exists>ph. (ph = Active \<or> call_phase_step Active ph) \<and> call_inv T ph t"
proof -
  have str: "stream (cst s) = Some 0" "has_context (cst s)" "started s = 1" using assms(1) by (simp_all add: call_inv_defs)
  note defs = call_read_suspend_def call_write_suspend_def call_write_last_suspend_def
    call_writes_done_suspend_def call_read_def call_write_def call_write_last_def call_writes_done_def
    active_call_def new_call_awaiter_def await_op_def proper_def
  show ?thesis
  proof (cases a)
    case Read
    then have "call_inv T Operating t"
      using assms str by (auto simp: call_inv_defs defs split: if_splits)
    then show ?thesis by auto
  next
    case (Write m)
    then have "call_inv T Operating t"
      using assms str by (auto simp: call_inv_defs defs split: if_splits)
    then show ?thesis by auto
  next
    case (WriteLast m)
    then have "call_inv T Operating t"
      using assms str by (auto simp: call_inv_defs defs split: if_splits)
    then show ?thesis by auto
  next
    case WritesDone
    then have "call_inv T Operating t"
      using assms str by (auto simp: call_inv_defs defs split: if_splits)
    then show ?thesis by auto
  next
    case FinishCall
    then have "call_inv T (if call_client_streaming T \<and> m_need_writes_done (cst s) then HalfClosing else Finishing) t"
      using assms str by (auto simp: call_inv_defs call_finish_suspend_def call_finish_def new_call_awaiter_def await_op_def Let_def)
    then show ?thesis by (auto split: if_splits)
  next
    case Drop
    then have "call_inv T (if call_client_streaming T \<and> m_need_writes_done (cst s) then Detaching else Detached) t"
      using assms str by (auto simp: call_inv_defs destruct_def)
    then show ?thesis by (auto split: if_splits)
  qed (use assms str in \<open>simp add: proper_def\<close>)
qed

lemma storing_stores:
  assumes "call_inv T Storing s" and "assigning s = Some (x, b)"
  shows "call_inv T Starting (store_stream x b s)"
  using assms by (auto simp: call_inv_defs store_stream_def assign_stream_def freed_def)


lemma complete_awaiter:
  assumes "caw s = Some a" and "user_of s = Awaiting" and "response_alive s"
    and "awaiter_handle_event T i ok (cst s) a = Inr (st, a', es)"
  shows "complete T (i, AwaiterObj) ok s =
    emit es (s\<lparr>pending := pending s - {#(i, AwaiterObj)#}, cst := st, caw := Some a'\<rparr>)"
  using assms by (simp add: complete_def)

lemma starting_completes:
  assumes "call_inv T Starting s"
  shows "call_inv T (if ok then Active else Idle) (complete T (0, AwaiterObj) ok s)"
proof -
  obtain a h where a: "caw s = Some a" "call_handle a = Some h" "is_start (call_method_of a)"
    using assms by (auto simp: call_inv_defs)
  let ?st = "if call_client_streaming T then (cst s)\<lparr>m_need_writes_done := ok\<rparr> else cst s"
  let ?st' = "if ok then ?st else ?st\<lparr>stream := None\<rparr>"
  have "awaiter_handle_event T 0 ok (cst s) a =
      Inr (?st', a\<lparr>call_was_ok := Some ok\<rparr>, (if ok then [] else [RunHook (StreamFreed 0)]) @ [ResumeCoro h])"
    using assms a by (cases "call_method_of a")
      (auto simp: start_handle_event_alt Let_def freed_def call_inv_defs)
  from complete_awaiter [OF a(1) _ _ this] assms show ?thesis
    by (auto simp: call_inv_defs)
qed

lemma operating_completes:
  assumes "call_inv T Operating s"
  shows "call_inv T Active (complete T (0, AwaiterObj) ok s)"
proof -
  obtain a h where a: "caw s = Some a" "call_handle a = Some h"
      "\<not> is_start (call_method_of a)" "call_method_of a \<noteq> FinishMethod"
    using assms by (auto simp: call_inv_defs)
  let ?st = "if closing (call_method_of a) then (cst s)\<lparr>m_need_writes_done := False\<rparr> else cst s"
  have "awaiter_handle_event T 0 ok (cst s) a = Inr (?st, a\<lparr>call_was_ok := Some ok\<rparr>, [ResumeCoro h])"
    using a by (cases "call_method_of a")
      (auto simp: call_read_event_def call_write_event_def call_write_last_event_def call_writes_done_event_def)
  from complete_awaiter [OF a(1) _ _ this] assms a show ?thesis
    by (auto simp: call_inv_defs)
qed

lemma half_closing_completes:
  assumes "call_inv T HalfClosing s"
  shows "call_inv T Finishing (complete T (0, AwaiterObj) ok s)"
proof -
  obtain a h where a: "caw s = Some a" "call_handle a = Some h" "call_method_of a = FinishMethod"
    using assms by (auto simp: call_inv_defs)
  have "awaiter_handle_event T 0 ok (cst s) a =
      Inr (cst s, if ok then a else a\<lparr>call_status := event_failed\<rparr>, [Issue (ClientFinish 0 (1, AwaiterObj))])"
    using assms a by (auto simp: call_finish_event_def Let_def call_inv_defs)
  from complete_awaiter [OF a(1) _ _ this] assms a show ?thesis
    by (auto simp: call_inv_defs)
qed

lemma finishing_completes:
  assumes "call_inv T Finishing s"
  shows "call_inv T Idle (complete T (1, AwaiterObj) ok s)"
proof -
  obtain a h where a: "caw s = Some a" "call_handle a = Some h" "call_method_of a = FinishMethod"
    using assms by (auto simp: call_inv_defs)
  have "awaiter_handle_event T 1 ok (cst s) a =
      Inr ((cst s)\<lparr>stream := None\<rparr>, if ok then a else a\<lparr>call_status := event_failed\<rparr>,
           [RunHook (StreamFreed 0), ResumeCoro h])"
    using assms a by (auto simp: call_finish_event_def Let_def call_inv_defs freed_def)
  from complete_awaiter [OF a(1) _ _ this] assms show ?thesis
    by (auto simp: call_inv_defs)
qed

lemma detaching_completes:
  "call_inv T Detaching s \<Longrightarrow> call_inv T Detached (complete T (0, StateObj) ok s)"
  by (auto simp: call_inv_defs complete_def stores_response_def state_handle_event_def)

lemma detached_completes:
  "call_inv T Detached s \<Longrightarrow> call_inv T Deleted (complete T (1, StateObj) ok s)"
  by (auto simp: call_inv_defs complete_def stores_response_def state_handle_event_def freed_def)

lemma completion_keeps_inv:
  assumes "call_inv T ph s" and "tag \<in># pending s" and "assigning s = None"
  shows "\<exists>ph'. call_phase_step ph ph' \<and> call_inv T ph' (complete T tag ok s)"
proof -
  have "call_awaits ph = {#tag#}" "ph \<noteq> Storing"
    using assms by (cases ph; auto simp: call_inv_defs)+
  then show ?thesis using assms(1)
    using starting_completes [of T s ok] operating_completes [of T s ok] half_closing_completes [of T s ok]
      finishing_completes [of T s ok] detaching_completes [of T s ok] detached_completes [of T s ok]
    by (cases ph) (auto split: if_splits)
qed

lemma running_assigns_nothing:
  assumes "call_inv T ph s" and "user_of s = Running"
  shows "s\<lparr>assigning := map_option f (assigning s)\<rparr> = s" and "ph \<in> {Idle, Active}"
  using assms by (cases s; cases ph; auto simp: call_inv_defs)+

lemma call_step_inv:
  assumes "call_step T all_assumed s t" and "call_inv T ph s"
  shows "\<exists>ph'. (ph' = ph \<or> call_phase_step ph ph') \<and> call_inv T ph' t"
  using assms(1)
proof cases
  case (act a dcq h)
  have p: "proper a s" "perform T dcq h a s = Some t"
    using act running_assigns_nothing(1) [OF assms(2) act(2)] by (simp_all add: all_assumed_def)
  have "ph = Idle \<or> ph = Active" using running_assigns_nothing(2) [OF assms(2) act(2)] by simp
  then show ?thesis
  proof
    assume "ph = Idle"
    then show ?thesis using idle_acts [OF _ p] assms(2) by blast
  next
    assume "ph = Active"
    then show ?thesis using active_acts [OF _ p] assms(2) by blast
  qed
next
  case (store x b)
  then have "ph = Storing" using assms(2) by (auto simp: call_inv_defs split: if_splits)
  with store assms(2) storing_stores [of T s x b] show ?thesis by auto
next
  case (completed tag ok)
  then have "assigning s = None" by (simp add: all_assumed_def)
  from completion_keeps_inv [OF assms(2) completed(3) this, of ok] completed(1) show ?thesis by blast
next
  case scope_end
  then have "ph = Deleted" using assms(2) by (cases ph) (auto simp: call_inv_defs all_assumed_def)
  then have "call_inv T ph t" using scope_end assms(2) by (simp add: call_inv_defs)
  then show ?thesis by blast
qed

lemma call_reaches_inv:
  assumes "call_reaches T all_assumed s"
  shows "\<exists>ph. call_inv T ph s"
  using assms
proof (rule rtranclp_invariant)
  show "\<exists>ph. call_inv T ph initial_call" using call_inv_initial by (rule exI)
next
  fix u v
  assume "\<exists>ph. call_inv T ph u" and "call_step T all_assumed u v"
  then show "\<exists>ph. call_inv T ph v" using call_step_inv by blast
qed

end
