(* ===== verification/Streaming_Correct.thy ===== *)
theory Streaming_Correct
  imports Streaming_Inv
begin

text \<open>
  The properties of a streaming call: it follows its life cycle, closes and finishes what it started
  exactly once and cleans up after the wrapper is gone; and what happens when one of the things the
  code takes for granted does not hold.
\<close>

section \<open>A concrete call\<close>

text \<open>A client-streaming call that is started, becomes active and is dropped.\<close>

definition ex_started :: "nat call_sys" where
  "ex_started = start_call 7 (start_response 3 None make_state) initial_call"

definition ex_active :: "nat call_sys" where
  "ex_active = complete ClientStreaming (0, AwaiterObj) True (store_stream 0 True ex_started)"

definition ex_dropped :: "nat call_sys" where
  "ex_dropped = the (perform ClientStreaming 3 7 Drop ex_active)"

lemma perform_step:
  assumes "call_failure s = None" and "user_of s = Running" and "uses_properly env \<Longrightarrow> proper a s"
    and "perform T dcq h a (s\<lparr>assigning := map_option (\<lambda>(x, b). (x, False)) (assigning s)\<rparr>) = Some t"
  shows "call_step T env s t"
  using assms by (rule call_step.act)

lemmas ex_defs = initial_call_def make_state_def start_call_def start_response_def choose_cq_def
  new_call_awaiter_def start_suspend_defs store_stream_def assign_stream_def complete_def
  stores_response_def start_handle_event_alt emit_def freed_def fail_def destruct_def Let_def
  stub_spec.simps spec_client_client_streaming_def

lemma ex_started_step: "call_step ClientStreaming env initial_call ex_started"
  by (rule perform_step [where a = "Start 0 None" and dcq = 3 and h = 7])
     (simp_all add: ex_started_def proper_def ex_defs)

lemma ex_started_fields:
  "call_failure ex_started = None" "assigning ex_started = Some (0, True)"
  "pending ex_started = {#(0, AwaiterObj)#}" "user_of ex_started = Awaiting"
  by (simp_all add: ex_started_def ex_defs)

lemma ex_stored_step:
  "call_step ClientStreaming env ex_started (store_stream 0 True ex_started)"
  by (rule call_step.store) (simp_all add: ex_started_fields)

lemma ex_active_step:
  "call_step ClientStreaming env (store_stream 0 True ex_started) ex_active"
  unfolding ex_active_def
  by (rule call_step.completed) (simp_all add: ex_started_def ex_defs)

lemma ex_active_fields:
  "call_failure ex_active = None" "user_of ex_active = Running" "assigning ex_active = None"
  "cst ex_active = \<lparr>has_context = True, stream = Some 0, m_need_writes_done = True,
     default_client_cq = True, call_cq = Some 3\<rparr>" "pending ex_active = {#}" "state_alive ex_active"
  by (simp_all add: ex_active_def ex_started_def ex_defs)

lemma ex_dropped_eq: "ex_dropped = emit [Issue ClientTryCancel, Issue (ClientWritesDone 0 (0, StateObj))]
    (ex_active\<lparr>caw := None, user_of := Dropped\<rparr>)"
  by (cases ex_active) (use ex_active_fields in \<open>simp add: ex_dropped_def destruct_def ex_defs\<close>)

lemma ex_dropped_step: "call_step ClientStreaming env ex_active ex_dropped"
proof (rule perform_step [where a = Drop and dcq = 3 and h = 7])
  have "ex_active\<lparr>assigning := map_option (\<lambda>(x, b). (x, False)) (assigning ex_active)\<rparr> = ex_active"
    using ex_active_fields(3) by (cases ex_active) simp
  then show "perform ClientStreaming 3 7 Drop
      (ex_active\<lparr>assigning := map_option (\<lambda>(x, b). (x, False)) (assigning ex_active)\<rparr>) = Some ex_dropped"
    by (simp add: ex_dropped_def)
qed (simp_all add: ex_active_fields proper_def)

lemma ex_reached:
  "call_reaches ClientStreaming env ex_started" "call_reaches ClientStreaming env ex_active"
  "call_reaches ClientStreaming env ex_dropped"
proof -
  show s: "call_reaches ClientStreaming env ex_started" using ex_started_step by blast
  have "call_run ClientStreaming env ex_started ex_active"
    using ex_stored_step ex_active_step by (meson converse_rtranclp_into_rtranclp r_into_rtranclp)
  with s show a: "call_reaches ClientStreaming env ex_active" by (rule rtranclp_trans)
  with ex_dropped_step show "call_reaches ClientStreaming env ex_dropped" by (meson rtranclp.rtrancl_into_rtrancl)
qed

section \<open>Safety and accounting\<close>

text \<open>
C5: a streaming call refines its life-cycle automaton and never does anything undefined, as long as a
stream is stored before its start completes, the user reads and finishes only an active call, and
the response object outlives the call: in every reachable state each step, an action of the
coroutine or a completion, leaves the phase or takes a transition of the automaton.
\<close>

theorem streaming_call_refines_life_cycle:
  assumes "call_reaches T all_assumed s" and "call_step T all_assumed s t"
  shows "call_failure s = None \<and> call_failure t = None \<and>
         (call_phase_of t = call_phase_of s \<or> call_phase_step (call_phase_of s) (call_phase_of t))"
proof -
  obtain ph where ph: "call_inv T ph s" using call_reaches_inv [OF assms(1)] by blast
  obtain ph' where ph': "ph' = ph \<or> call_phase_step ph ph'" "call_inv T ph' t"
    using call_step_inv [OF assms(2) ph] by blast
  show ?thesis unfolding call_phase_unique [OF ph] call_phase_unique [OF ph'(2)]
    using ph ph' by (simp add: call_inv_defs)
qed

theorem streaming_call_refines_life_cycle_witness:
  "call_failure ex_active = None \<and> call_failure ex_dropped = None \<and>
   (call_phase_of ex_dropped = call_phase_of ex_active \<or>
    call_phase_step (call_phase_of ex_active) (call_phase_of ex_dropped))"
  by (rule streaming_call_refines_life_cycle [OF ex_reached(2) ex_dropped_step])

text \<open>
C6: the client's side of a call is closed exactly once before the call is finished, whoever does it:
a write-last, \<open>writes_done\<close>, \<open>finish\<close> or the state object after the wrapper is gone; the call is
finished at most once; every stream is freed exactly once, by the time the call can be started again
or is over; and the state object deletes itself exactly once.
\<close>

theorem streaming_call_accounts:
  assumes "call_reaches T all_assumed s"
  shows "count is_client_finish (history s) \<le> 1 \<and>
         count is_half_close (history s) \<le> 1 \<and>
         (if call_client_streaming T
          then count is_client_finish (history s) \<le> count is_half_close (history s)
          else count is_half_close (history s) = 0) \<and>
         count is_stream_freed (history s) =
           (if call_phase_of s \<in> {Idle, Deleted} then started s else 0) \<and>
         count is_delete (history s) = (if call_phase_of s = Deleted then 1 else 0)"
proof -
  obtain ph where ph: "call_inv T ph s" using call_reaches_inv [OF assms] by blast
  show ?thesis unfolding call_phase_unique [OF ph]
    using ph by (cases ph) (auto simp: call_inv_defs)
qed

theorem streaming_call_accounts_witness:
  "count is_client_finish (history ex_dropped) \<le> 1 \<and> count is_half_close (history ex_dropped) \<le> 1 \<and>
   (if call_client_streaming ClientStreaming
    then count is_client_finish (history ex_dropped) \<le> count is_half_close (history ex_dropped)
    else count is_half_close (history ex_dropped) = 0) \<and>
   count is_stream_freed (history ex_dropped) =
     (if call_phase_of ex_dropped \<in> {Idle, Deleted} then started ex_dropped else 0) \<and>
   count is_delete (history ex_dropped) = (if call_phase_of ex_dropped = Deleted then 1 else 0)"
  by (rule streaming_call_accounts [OF ex_reached(3)])

section \<open>A dropped call cleans up after itself\<close>

lemma pending_completes:
  assumes "call_inv T ph s" and "call_awaits ph = {#tag#}" and "ph \<noteq> Storing"
  shows "call_step T all_assumed s (complete T tag ok s)"
proof -
  have "assigning s = None" "call_failure s = None" "pending s = {#tag#}"
    using assms by (simp_all add: call_inv_defs)
  then show ?thesis by (intro call_step.completed) simp_all
qed

text \<open>The given completions, one after the other, with the given outcomes.\<close>

definition complete_all ::
  "rpc_method_type \<Rightarrow> (nat \<Rightarrow> bool) \<Rightarrow> call_tag list \<Rightarrow> 'req call_sys \<Rightarrow> 'req call_sys" where
  "complete_all T ok tags s = fold (\<lambda>i. complete T (tags ! i) (ok i)) [0..<length tags] s"

definition cleaned_up :: "'req call_sys \<Rightarrow> bool" where
  "cleaned_up t \<longleftrightarrow> call_phase_of t = Deleted \<and> pending t = {#} \<and> call_failure t = None \<and>
     count is_stream_freed (history t) = started t \<and> count is_delete (history t) = 1"

lemma deleted_cleaned_up: "call_inv T Deleted t \<Longrightarrow> cleaned_up t"
  unfolding cleaned_up_def by (frule call_phase_unique) (simp add: call_inv_defs)

text \<open>
C13: once the wrapper is gone the call ends on its own: whatever the outcomes of the outstanding
operations, at most two completions lead to the state in which nothing is outstanding, every stream
has been freed and the state object deleted, once.
\<close>

theorem streaming_call_cleans_up:
  assumes "call_reaches T all_assumed s" and "user_of s = Dropped"
  shows "\<exists>tags. length tags \<le> 2 \<and>
    (\<forall>ok. call_run T all_assumed s (complete_all T ok tags s) \<and> cleaned_up (complete_all T ok tags s))"
proof -
  obtain ph where ph: "call_inv T ph s" using call_reaches_inv [OF assms(1)] by blast
  have last: "call_step T all_assumed t (complete T (1, StateObj) ok t) \<and>
      cleaned_up (complete T (1, StateObj) ok t)"
    if "call_inv T Detached t" for t :: "'a call_sys" and ok
    using pending_completes [OF that, of "(1, StateObj)"] deleted_cleaned_up [OF detached_completes [OF that]]
    by simp
  have "ph \<in> {Detaching, Detached, Deleted}"
    using ph assms(2) by (cases ph) (simp_all add: call_inv_defs)
  then consider "ph = Deleted" | "ph = Detached" | "ph = Detaching" by blast
  then show ?thesis
  proof cases
    case 1
    with ph deleted_cleaned_up [of T s] show ?thesis
      by (intro exI [of _ "[]"]) (simp add: complete_all_def)
  next
    case 2
    with ph last [of s] show ?thesis
      by (intro exI [of _ "[(1, StateObj)]"]) (simp add: complete_all_def r_into_rtranclp)
  next
    case 3
    have first: "call_step T all_assumed s (complete T (0, StateObj) ok s)"
        "call_inv T Detached (complete T (0, StateObj) ok s)" for ok
      using pending_completes [OF ph, of "(0, StateObj)"] detaching_completes [of T s ok] ph 3 by simp_all
    have "call_run T all_assumed s (complete T (1, StateObj) ok' (complete T (0, StateObj) ok s)) \<and>
        cleaned_up (complete T (1, StateObj) ok' (complete T (0, StateObj) ok s))" for ok ok'
      using first(1) [of ok] last [OF first(2)] by (meson converse_rtranclp_into_rtranclp r_into_rtranclp)
    then show ?thesis
      by (intro exI [of _ "[(0, StateObj), (1, StateObj)]"]) (simp add: complete_all_def upt_rec)
  qed
qed

lemma ex_dropped_user: "user_of ex_dropped = Dropped"
  by (simp add: ex_dropped_eq)

theorem streaming_call_cleans_up_witness:
  "\<exists>tags. length tags \<le> 2 \<and>
    (\<forall>ok. call_run ClientStreaming all_assumed ex_dropped (complete_all ClientStreaming ok tags ex_dropped) \<and>
          cleaned_up (complete_all ClientStreaming ok tags ex_dropped))"
  by (rule streaming_call_cleans_up [OF ex_reached(3) ex_dropped_user])

section \<open>What happens without the assumptions\<close>

text \<open>
C33: a completion that overtakes the end of \<open>await_suspend\<close> is fatal: if the runtime delivers the
completion of a start before \<open>await_suspend\<close> has stored the stream the stub returned, the resumed
coroutine may drop the call, and \<open>await_suspend\<close> then writes through an awaiter that is gone; the user
has done nothing wrong. Until then the call has no stream, so that a write throws and a failed start
leaves a stream behind.
\<close>

theorem start_races_with_its_completion:
  "(\<exists>s :: nat call_sys. call_reaches ClientStreaming (all_assumed\<lparr>stores_first := False\<rparr>) s \<and>
      call_failure s = Some UseAfterFree) \<and>
   (\<exists>s :: nat call_sys. call_reaches ClientStreaming (all_assumed\<lparr>stores_first := False\<rparr>) s \<and>
      user_of s = Running \<and> m_need_writes_done (cst s) \<and>
      call_write 1 (cst s) = Inl (LogicError ''No active call'')) \<and>
   (\<exists>s :: nat call_sys. call_reaches ClientStreaming (all_assumed\<lparr>stores_first := False\<rparr>) s \<and>
      user_of s = Running \<and> started s = 1 \<and> count is_stream_freed (history s) = 0 \<and>
      map_option call_await_resume (caw s) = Some (Inr False) \<and> stream (cst s) = Some 0)"
proof -
  let ?env = "all_assumed\<lparr>stores_first := False\<rparr>"
  have c: "call_step ClientStreaming ?env ex_started (complete ClientStreaming (0, AwaiterObj) ok ex_started)" for ok
    by (rule call_step.completed) (simp_all add: ex_started_fields all_assumed_def)
  let ?c = "\<lambda>ok. complete ClientStreaming (0, AwaiterObj) ok ex_started"
  have r: "call_reaches ClientStreaming ?env (?c ok)" for ok
    using ex_reached(1) c by (rule rtranclp.rtrancl_into_rtrancl)
  define t where "t = the (perform ClientStreaming 3 7 Drop ((?c True)\<lparr>assigning := Some (0, False)\<rparr>))"
  have "call_step ClientStreaming ?env (?c True) t"
    by (rule perform_step [where a = Drop and dcq = 3 and h = 7])
       (simp_all add: t_def ex_started_def ex_defs proper_def)
  with r have "call_reaches ClientStreaming ?env t" by (meson rtranclp.rtrancl_into_rtrancl)
  moreover have "call_step ClientStreaming ?env t (store_stream 0 False t)"
    by (rule call_step.store) (simp_all add: t_def ex_started_def ex_defs)
  ultimately have "call_reaches ClientStreaming ?env (store_stream 0 False t)"
    by (meson rtranclp.rtrancl_into_rtrancl)
  moreover have "call_failure (store_stream 0 False t) = Some UseAfterFree"
    by (simp add: store_stream_def fail_def)
  moreover have "user_of (?c True) = Running \<and> m_need_writes_done (cst (?c True)) \<and>
      call_write 1 (cst (?c True)) = Inl (LogicError ''No active call'')"
    by (simp add: ex_started_def ex_defs call_write_def active_call_def)
  moreover have "call_step ClientStreaming ?env (?c False) (store_stream 0 True (?c False))"
    by (rule call_step.store) (simp_all add: ex_started_def ex_defs)
  then have "call_reaches ClientStreaming ?env (store_stream 0 True (?c False))"
    using r by (meson rtranclp.rtrancl_into_rtrancl)
  moreover have "user_of (store_stream 0 True (?c False)) = Running \<and> started (store_stream 0 True (?c False)) = 1 \<and>
      count is_stream_freed (history (store_stream 0 True (?c False))) = 0 \<and>
      map_option call_await_resume (caw (store_stream 0 True (?c False))) = Some (Inr False) \<and>
      stream (cst (store_stream 0 True (?c False))) = Some 0"
    by (simp add: ex_started_def ex_defs call_await_resume_def)
  ultimately show ?thesis using r by blast
qed

text \<open>
\<open>read\<close> and \<open>finish\<close> do not check for an active call as the writing operations do: on a call that
was not started, or whose start failed, the writing operations throw \<open>No active call\<close> and change
nothing, but \<open>read\<close> and \<open>finish\<close> call through a null stream.
\<close>

theorem unguarded_operations:
  "call_write msg (s\<lparr>stream := None\<rparr>) = Inl (LogicError ''No active call'') \<and>
   call_write_last msg (s\<lparr>stream := None\<rparr>) = Inl (LogicError ''No active call'') \<and>
   (call_writes_done (s\<lparr>stream := None\<rparr>) :: call_error + 'req call_awaiter) =
     Inl (LogicError ''No active call'') \<and>
   call_read_suspend h (s\<lparr>stream := None\<rparr>) (call_read s :: 'req call_awaiter) = Inl NullDeref \<and>
   call_finish_suspend T h (s\<lparr>stream := None\<rparr>) (call_finish s :: 'req call_awaiter) = Inl NullDeref \<and>
   (\<exists>t :: 'req call_sys. call_reaches T (all_assumed\<lparr>uses_properly := False\<rparr>) t \<and>
      call_failure t = Some NullDeref)"
proof -
  let ?t = "fail NullDeref (initial_call :: 'req call_sys)"
  have "call_step T (all_assumed\<lparr>uses_properly := False\<rparr>) (initial_call :: 'req call_sys) ?t"
    by (rule perform_step [where a = FinishCall and dcq = 0 and h = 0])
       (simp_all add: initial_call_def make_state_def all_assumed_def await_op_def call_finish_suspend_def
         fail_def Let_def)
  then have "call_reaches T (all_assumed\<lparr>uses_properly := False\<rparr>) ?t" by blast
  moreover have "call_failure ?t = Some NullDeref" by (simp add: fail_def)
  ultimately show ?thesis
    by (auto simp: call_write_def call_write_last_def call_writes_done_def active_call_def
        call_read_suspend_def call_finish_suspend_def Let_def)
qed

text \<open>
C35: a client-streaming call that is dropped before it is finished keeps writing to the caller: the
state object then finishes the call by itself, and a response that arrives is stored in the object
\<open>start\<close> was given, which nothing keeps alive. If it is gone by then, the completion writes to freed
memory.
\<close>

theorem dropped_call_writes_response:
  "\<exists>s :: nat call_sys. call_reaches ClientStreaming (all_assumed\<lparr>response_outlives := False\<rparr>) s \<and>
     call_failure s = Some UseAfterFree"
proof -
  let ?env = "all_assumed\<lparr>response_outlives := False\<rparr>" and ?T = ClientStreaming
  define t where "t = complete ?T (0, StateObj) True ex_dropped"
  have t: "call_inv ?T Detached t"
  proof -
    obtain ph where ph: "call_inv ?T ph ex_dropped" using call_reaches_inv [OF ex_reached(3)] by blast
    have "pending ex_dropped = {#(0, StateObj)#}" by (simp add: ex_dropped_eq ex_active_fields)
    then have "ph = Detaching" using ph by (cases ph) (auto simp: call_inv_defs)
    with ph show ?thesis by (simp add: t_def detaching_completes)
  qed
  then have f: "call_failure t = None" "user_of t = Dropped" "pending t = {#(1, StateObj)#}" "assigning t = None"
    by (simp_all add: call_inv_defs)
  have "call_step ?T ?env ex_dropped t" unfolding t_def
    by (rule call_step.completed) (simp_all add: ex_dropped_eq ex_active_fields)
  moreover have "call_step ?T ?env t (t\<lparr>response_alive := False\<rparr>)"
    by (rule call_step.scope_end) (simp_all add: f all_assumed_def)
  moreover have "call_step ?T ?env (t\<lparr>response_alive := False\<rparr>)
      (complete ?T (1, StateObj) True (t\<lparr>response_alive := False\<rparr>))"
    by (rule call_step.completed) (simp_all add: f)
  ultimately have "call_reaches ?T ?env (complete ?T (1, StateObj) True (t\<lparr>response_alive := False\<rparr>))"
    using ex_reached(3) by (meson rtranclp.rtrancl_into_rtrancl)
  moreover have "call_failure (complete ?T (1, StateObj) True (t\<lparr>response_alive := False\<rparr>)) = Some UseAfterFree"
    by (simp add: complete_def stores_response_def fail_def Let_def spec_client_client_streaming_def)
  ultimately show ?thesis by blast
qed

end
