(* ===== verification/Unary_Call.thy ===== *)
theory Unary_Call
  imports Streaming_Call
begin

text \<open>
  \<open>unary_call\<close> of \<open>include/asyncpp/grpc/call.h\<close>: one awaiter, which makes the call and finishes it at
  once. Creating the call carries no tag; only its \<open>Finish\<close> is completed.
\<close>

section \<open>The awaiter\<close>

type_synonym reader_id = nat

datatype 'req unary_op =
    UnaryStart reader_id 'req cq_id   \<comment> \<open>\<open>(m_stub->*FN)(m_context, m_request, m_cq)\<close>\<close>
  | UnaryFinish reader_id call_tag    \<comment> \<open>\<open>m_reader->Finish(&m_response, &m_status, tag)\<close>\<close>

type_synonym 'req unary_effs = "('req unary_op, call_event) eff list"

text \<open>The context pointer is that of the call object, which has a context by construction.\<close>

record ('req, 'resp) unary_awaiter =
  u_request :: 'req
  u_response :: 'resp            \<comment> \<open>the object \<open>m_response\<close> refers to\<close>
  u_default_cq :: bool
  u_cq :: cq_id
  u_reader :: "reader_id option"
  u_status :: status
  u_handle :: "coro_handle option"

definition unary_awaiter :: "cq_id \<Rightarrow> 'req \<Rightarrow> 'resp \<Rightarrow> cq_id option \<Rightarrow> ('req, 'resp) unary_awaiter" where
  "unary_awaiter default_cq req resp cq =
     \<lparr>u_request = req, u_response = resp, u_default_cq = (cq = None),
      u_cq = (case cq of None \<Rightarrow> default_cq | Some c \<Rightarrow> c),
      u_reader = None, u_status = Status STATUS_OK '''', u_handle = None\<rparr>"

text \<open>\<open>x\<close> is the reader the stub returns.\<close>

definition unary_await_suspend ::
  "reader_id \<Rightarrow> coro_handle \<Rightarrow> ('req, 'resp) unary_awaiter \<Rightarrow>
     ('req, 'resp) unary_awaiter \<times> 'req unary_effs" where
  "unary_await_suspend x h a =
     (let a = a\<lparr>u_handle := Some h\<rparr>;
          start = Issue (UnaryStart x (u_request a) (u_cq a));
          a = a\<lparr>u_reader := Some x\<rparr>
      in (a, [start, Issue (UnaryFinish x (0, AwaiterObj))]))"

definition unary_handle_event ::
  "nat \<Rightarrow> bool \<Rightarrow> ('req, 'resp) unary_awaiter \<Rightarrow>
     ub + ('req, 'resp) unary_awaiter \<times> 'req unary_effs" where
  "unary_handle_event evt ok a =
     (if evt \<noteq> 0 then Inl AssertFail
      else case u_handle a of None \<Rightarrow> Inl AssertFail
        | Some h \<Rightarrow>
            Inr (if \<not> ok then a\<lparr>u_status := Status STATUS_UNKNOWN ''Event returned ok=false''\<rparr> else a,
                 [ResumeCoro h]))"

definition unary_await_resume :: "('req, 'resp) unary_awaiter \<Rightarrow> status" where
  "unary_await_resume a = u_status a"

text \<open>The overload that takes a reference passes its address on.\<close>

definition unary_awaiter_ref :: "cq_id \<Rightarrow> 'req \<Rightarrow> 'resp \<Rightarrow> cq_id \<Rightarrow> ('req, 'resp) unary_awaiter" where
  "unary_awaiter_ref default_cq req resp cq = unary_awaiter default_cq req resp (Some cq)"

text \<open>The runtime stores the response and the status before it completes \<open>Finish\<close>.\<close>

definition receive_response ::
  "'resp \<Rightarrow> status \<Rightarrow> ('req, 'resp) unary_awaiter \<Rightarrow> ('req, 'resp) unary_awaiter" where
  "receive_response resp st a = a\<lparr>u_response := resp, u_status := st\<rparr>"

section \<open>Properties\<close>

text \<open>
A unary call makes the call with the request, on the given completion queue or, only if none was
given, on the default one, which the awaiter then keeps alive; it finishes the call exactly once, as
the last thing before the coroutine is suspended; the completion resumes exactly that coroutine with
the response in place, and the value is the status of the call, or an unknown error if the
completion failed.
\<close>

theorem unary_call_roundtrip:
  "\<exists>a1 a2. unary_await_suspend x h (unary_awaiter dcq req resp0 cq) =
       (a1, [Issue (UnaryStart x req (case cq of None \<Rightarrow> dcq | Some c \<Rightarrow> c)),
             Issue (UnaryFinish x (0, AwaiterObj))]) \<and>
     u_default_cq a1 = (cq = None) \<and> u_reader a1 = Some x \<and>
     unary_handle_event 0 ok (receive_response resp st a1) = Inr (a2, [ResumeCoro h]) \<and>
     u_response a2 = resp \<and> unary_await_resume a2 = (if ok then st else event_failed)"
  by (cases ok)
     (simp_all add: unary_await_suspend_def unary_awaiter_def unary_handle_event_def
       unary_await_resume_def receive_response_def event_failed_def Let_def)

end
