(* ===== verification/Co_Await.thy ===== *)
theory Co_Await
  imports Task_Correct Streaming_Correct Unary_Call
begin

text \<open>
  What a \<open>co_await\<close> expression does with an awaiter, and the classes of awaiters of \<open>task.h\<close>, \<open>call.h\<close>
  and \<open>generic_method_awaiter.h\<close> with their three members \<open>await_ready\<close>, \<open>await_suspend\<close> and
  \<open>await_resume\<close>. What the bodies of tasks and the users of calls do in the other theories is shown to be
  what the language does with these classes.
\<close>

section \<open>The expression\<close>

text \<open>
  The members of an awaiter object, with everything they refer to. The expression asks \<open>await_ready\<close>; if
  that is true it has the value of \<open>await_resume\<close> at once, otherwise the coroutine is suspended and
  \<open>await_suspend\<close> is called, which returns nothing in all classes, so that control goes to the caller.
\<close>

record ('a, 'r, 'v) awaitable =
  aw_ready :: bool
  aw_suspend :: "coro_handle \<Rightarrow> 'a \<Rightarrow> ub + 'r"
  aw_resume :: "'a \<Rightarrow> ub + 'v"

datatype ('r, 'v) awaited_now = Value 'v | Suspended 'r

definition awaits :: "coro_handle \<Rightarrow> ('a, 'r, 'v) awaitable \<Rightarrow> 'a \<Rightarrow> ub + ('r, 'v) awaited_now" where
  "awaits h aw a =
     (if aw_ready aw then (case aw_resume aw a of Inl u \<Rightarrow> Inl u | Inr v \<Rightarrow> Inr (Value v))
      else (case aw_suspend aw h a of Inl u \<Rightarrow> Inl u | Inr r \<Rightarrow> Inr (Suspended r)))"

section \<open>The classes of a task\<close>

text \<open>The awaiter of \<open>rpc_info\<close> is always ready; its \<open>await_suspend\<close> must not be called.\<close>

definition rpc_info_awaitable :: "(('req, 'resp) task, unit, ('req, 'resp) task_rpc_context) awaitable" where
  "rpc_info_awaitable = \<lparr>aw_ready = True, aw_suspend = (\<lambda>h t. Inl AssertFail), aw_resume = (\<lambda>t. Inr (ctx_of t))\<rparr>"

definition metadata_awaitable :: "context_id \<Rightarrow> (unit op_awaiter, unit op_awaiter \<times> ('req, 'resp) effs, bool) awaitable" where
  "metadata_awaitable k =
     \<lparr>aw_ready = False, aw_suspend = (\<lambda>h a. Inr (metadata_suspend k h a)), aw_resume = (\<lambda>a. Inr (op_await_resume a))\<rparr>"

definition read_awaitable :: "context_id \<Rightarrow> ('req op_awaiter, 'req op_awaiter \<times> ('req, 'resp) effs, bool) awaitable" where
  "read_awaitable k =
     \<lparr>aw_ready = False, aw_suspend = (\<lambda>h a. Inr (read_suspend k h a)), aw_resume = (\<lambda>a. Inr (op_await_resume a))\<rparr>"

definition write_awaitable :: "context_id \<Rightarrow> ('resp op_awaiter, 'resp op_awaiter \<times> ('req, 'resp) effs, bool) awaitable" where
  "write_awaitable k =
     \<lparr>aw_ready = False, aw_suspend = (\<lambda>h a. Inr (write_suspend k h a)), aw_resume = (\<lambda>a. Inr (op_await_resume a))\<rparr>"

definition initial_awaitable ::
  "rpc_method_type \<Rightarrow> 'req \<Rightarrow> (('req, 'resp) task, ('req, 'resp) task \<times> ('req, 'resp) effs, unit) awaitable" where
  "initial_awaitable T cleared =
     \<lparr>aw_ready = False, aw_suspend = (\<lambda>h t. Inr (initial_await_suspend T cleared h t)), aw_resume = (\<lambda>t. Inr ())\<rparr>"

definition final_awaitable ::
  "rpc_method_type \<Rightarrow> (('req, 'resp) task, ('req, 'resp) task \<times> ('req, 'resp) effs, unit) awaitable" where
  "final_awaitable T =
     \<lparr>aw_ready = False, aw_suspend = (\<lambda>h t. Inr (final_await_suspend T h t)), aw_resume = (\<lambda>t. Inr ())\<rparr>"

text \<open>
  The body at such an expression: a value changes nothing in the frame; otherwise the frame is suspended
  with the awaiter, whose class decides how it is stored.
\<close>

definition body_awaits ::
  "('a \<Rightarrow> ('req, 'resp) task \<Rightarrow> ('req, 'resp) task) \<Rightarrow> ('a, 'a \<times> ('req, 'resp) effs, 'v) awaitable \<Rightarrow> 'a \<Rightarrow>
     ('req, 'resp) task \<Rightarrow> ('req, 'resp) result" where
  "body_awaits suspended aw a t =
     (case awaits (frame t) aw a of Inl u \<Rightarrow> Inl u
      | Inr (Value v) \<Rightarrow> Inr (t, []) | Inr (Suspended (a, es)) \<Rightarrow> Inr (suspended a t, es))"

text \<open>
  What the promise makes of the operand, by the overload \<open>await_transform\<close> selects; the message is the
  object the operand refers to. \<open>None\<close>: the operand itself is awaited, which for these operands is an
  error of the compiler.
\<close>

fun transformed ::
  "rpc_method_type \<Rightarrow> transform \<Rightarrow> ('req, 'resp) body_action \<Rightarrow> ('req, 'resp) task \<Rightarrow> ('req, 'resp) result option" where
  "transformed T ToRpcInfo act t =
     Some (case awaits (frame t) rpc_info_awaitable t of Inl u \<Rightarrow> Inl u | Inr (Value c) \<Rightarrow> Inr (t\<lparr>m_context_of := c\<rparr>, [])
       | Inr (Suspended r) \<Rightarrow> Inl AssertFail)"
| "transformed T ToSendInitialMetadata act t =
     Some (body_awaits (\<lambda>a. suspend_on (MetadataAwaiter a)) (metadata_awaitable (m_stream (ctx_of t))) (new_awaiter ()) t)"
| "transformed T ToRead (AwaitRead msg) t =
     Some (body_awaits (\<lambda>a. suspend_on (ReadAwaiter a)) (read_awaitable (m_stream (ctx_of t))) (new_awaiter msg) t)"
| "transformed T ToWrite (AwaitWrite msg) t =
     Some (body_awaits (\<lambda>a. suspend_on (WriteAwaiter a)) (write_awaitable (m_stream (ctx_of t))) (new_awaiter msg) t)"
| "transformed T _ act t = None"

text \<open>The operands an action may be written with, by type and value category.\<close>

fun operand_of :: "ty \<Rightarrow> ty \<Rightarrow> ('req, 'resp) body_action \<Rightarrow> operand \<Rightarrow> bool" where
  "operand_of req resp AwaitRpcInfo x = (x = rpc_info)"
| "operand_of req resp AwaitSendInitialMetadata x = (x = send_initial_metadata)"
| "operand_of req resp (AwaitRead msg) x = (x \<in> {read_msg req, OperandLvalue req})"
| "operand_of req resp (AwaitWrite msg) x = (x \<in> {write_msg resp, OperandConstLvalue resp})"
| "operand_of req resp _ x = False"

text \<open>\<open>co_yield\<close> awaits what \<open>yield_value\<close> returns, without a transformation.\<close>

definition yield_value :: "rpc_method_type \<Rightarrow> 'resp \<Rightarrow> ('req, 'resp) task \<Rightarrow> ('req, 'resp) result option" where
  "yield_value T msg t =
     (if server_streaming T then
        Some (body_awaits (\<lambda>a. suspend_on (WriteAwaiter a)) (write_awaitable (m_stream (ctx_of t))) (new_awaiter msg) t)
      else None)"

text \<open>The two awaits the compiler adds around the body.\<close>

definition at_start :: "rpc_method_type \<Rightarrow> 'req \<Rightarrow> ('req, 'resp) task \<Rightarrow> ('req, 'resp) result" where
  "at_start T cleared t =
     (case awaits (frame t) (initial_awaitable T cleared) (t\<lparr>coro := SuspendedInitial\<rparr>) of Inl u \<Rightarrow> Inl u
      | Inr (Value v) \<Rightarrow> Inr (t, []) | Inr (Suspended r) \<Rightarrow> Inr r)"

definition at_end :: "rpc_method_type \<Rightarrow> ('req, 'resp) task \<Rightarrow> ('req, 'resp) result" where
  "at_end T t =
     (case awaits (frame t) (final_awaitable T) (t\<lparr>coro := SuspendedFinal\<rparr>) of Inl u \<Rightarrow> Inl u
      | Inr (Value v) \<Rightarrow> Inr (t\<lparr>coro := Destroyed\<rparr>, [DestroyCoro (frame t)]) | Inr (Suspended r) \<Rightarrow> Inr r)"

section \<open>The classes of calls\<close>

text \<open>The three classes of \<open>start\<close>; \<open>x\<close> is the stream the stub returns.\<close>

type_synonym 'req call_awaitable = "('req call_awaiter, 'req call_awaiter \<times> 'req call_effs, bool) awaitable"

definition start_request_awaitable :: "stream_id \<Rightarrow> 'req \<Rightarrow> call_state \<Rightarrow> 'req call_awaitable" where
  "start_request_awaitable x req s =
     \<lparr>aw_ready = False, aw_suspend = (\<lambda>h. start_request_suspend x req h s), aw_resume = call_await_resume\<rparr>"

definition start_response_awaitable :: "stream_id \<Rightarrow> call_state \<Rightarrow> 'req call_awaitable" where
  "start_response_awaitable x s =
     \<lparr>aw_ready = False, aw_suspend = (\<lambda>h. start_response_suspend x h s), aw_resume = call_await_resume\<rparr>"

definition start_bidi_awaitable :: "stream_id \<Rightarrow> call_state \<Rightarrow> 'req call_awaitable" where
  "start_bidi_awaitable x s =
     \<lparr>aw_ready = False, aw_suspend = (\<lambda>h. start_bidi_suspend x h s), aw_resume = call_await_resume\<rparr>"

definition call_read_awaitable :: "call_state \<Rightarrow> 'req call_awaitable" where
  "call_read_awaitable s =
     \<lparr>aw_ready = False, aw_suspend = (\<lambda>h. call_read_suspend h s), aw_resume = call_await_resume\<rparr>"

definition call_write_awaitable :: "'req \<Rightarrow> call_state \<Rightarrow> 'req call_awaitable" where
  "call_write_awaitable msg s =
     \<lparr>aw_ready = False, aw_suspend = (\<lambda>h. call_write_suspend msg h s), aw_resume = call_await_resume\<rparr>"

definition call_write_last_awaitable :: "'req \<Rightarrow> call_state \<Rightarrow> 'req call_awaitable" where
  "call_write_last_awaitable msg s =
     \<lparr>aw_ready = False, aw_suspend = (\<lambda>h. call_write_last_suspend msg h s), aw_resume = call_await_resume\<rparr>"

definition call_writes_done_awaitable :: "call_state \<Rightarrow> 'req call_awaitable" where
  "call_writes_done_awaitable s =
     \<lparr>aw_ready = False, aw_suspend = (\<lambda>h. call_writes_done_suspend h s), aw_resume = call_await_resume\<rparr>"

definition call_finish_awaitable ::
  "rpc_method_type \<Rightarrow> call_state \<Rightarrow> ('req call_awaiter, 'req call_awaiter \<times> 'req call_effs, status) awaitable" where
  "call_finish_awaitable T s =
     \<lparr>aw_ready = False, aw_suspend = (\<lambda>h. call_finish_suspend T h s), aw_resume = (\<lambda>a. Inr (call_finish_resume a))\<rparr>"

definition unary_awaitable ::
  "reader_id \<Rightarrow> (('req, 'resp) unary_awaiter, ('req, 'resp) unary_awaiter \<times> 'req unary_effs, status) awaitable" where
  "unary_awaitable x =
     \<lparr>aw_ready = False, aw_suspend = (\<lambda>h a. Inr (unary_await_suspend x h a)), aw_resume = (\<lambda>a. Inr (unary_await_resume a))\<rparr>"

definition generic_awaitable ::
  "'arg \<Rightarrow> (('fn, 'arg) generic_awaiter, ('fn, 'arg) generic_awaiter \<times> (('fn, 'arg) generic_op, 'hook) eff list, bool) awaitable" where
  "generic_awaitable this =
     \<lparr>aw_ready = False, aw_suspend = (\<lambda>h a. Inr (generic_await_suspend this h a)), aw_resume = (\<lambda>a. Inr (generic_await_resume a))\<rparr>"

text \<open>A user at such an expression; the value of one that is ready changes nothing.\<close>

definition user_awaits ::
  "coro_handle \<Rightarrow> ('req call_awaiter, 'req call_awaiter \<times> 'req call_effs, 'v) awaitable \<Rightarrow> 'req call_awaiter \<Rightarrow>
     'req call_sys \<Rightarrow> 'req call_sys" where
  "user_awaits h aw a s =
     (case awaits h aw a of Inl u \<Rightarrow> fail u s | Inr (Value v) \<Rightarrow> s | Inr (Suspended r) \<Rightarrow> await_op (Inr r) s)"

definition user_starts ::
  "coro_handle \<Rightarrow> 'req call_awaitable \<Rightarrow> call_state \<times> 'req call_awaiter \<Rightarrow> 'req call_sys \<Rightarrow> 'req call_sys" where
  "user_starts h aw sa s =
     (case awaits h aw (snd sa) of Inl u \<Rightarrow> fail u s | Inr (Value v) \<Rightarrow> s
      | Inr (Suspended (a, es)) \<Rightarrow> emit es (s\<lparr>cst := fst sa, caw := Some a, user_of := Awaiting,
          assigning := Some (started s, True), started := Suc (started s)\<rparr>))"

text \<open>A member function that throws leaves no awaiter to await.\<close>

definition user_awaits_if :: "(call_error + 'req call_awaiter) \<Rightarrow> coro_handle \<Rightarrow> 'req call_awaitable \<Rightarrow>
    'req call_sys \<Rightarrow> 'req call_sys" where
  "user_awaits_if x h aw s = (case x of Inl e \<Rightarrow> s | Inr a \<Rightarrow> user_awaits h aw a s)"

fun user_expression ::
  "rpc_method_type \<Rightarrow> cq_id \<Rightarrow> coro_handle \<Rightarrow> 'req call_action \<Rightarrow> 'req call_sys \<Rightarrow> 'req call_sys" where
  "user_expression T dcq h (Start req cq) s =
     (if call_client_streaming T \<and> call_server_streaming T then
        (let sa = start_bidi dcq cq (cst s) in user_starts h (start_bidi_awaitable (started s) (fst sa)) sa s)
      else if call_client_streaming T then
        (let sa = start_response dcq cq (cst s) in user_starts h (start_response_awaitable (started s) (fst sa)) sa s)
      else
        (let sa = start_request dcq req cq (cst s) in user_starts h (start_request_awaitable (started s) req (fst sa)) sa s))"
| "user_expression T dcq h Read s = user_awaits h (call_read_awaitable (cst s)) (call_read (cst s)) s"
| "user_expression T dcq h (Write msg) s =
     user_awaits_if (call_write msg (cst s)) h (call_write_awaitable msg (cst s)) s"
| "user_expression T dcq h (WriteLast msg) s =
     user_awaits_if (call_write_last msg (cst s)) h (call_write_last_awaitable msg (cst s)) s"
| "user_expression T dcq h WritesDone s =
     user_awaits_if (call_writes_done (cst s)) h (call_writes_done_awaitable (cst s)) s"
| "user_expression T dcq h FinishCall s = user_awaits h (call_finish_awaitable T (cst s)) (call_finish (cst s)) s"
| "user_expression T dcq h Drop s = s"

lemmas task_awaitable_defs = rpc_info_awaitable_def metadata_awaitable_def read_awaitable_def write_awaitable_def
  initial_awaitable_def final_awaitable_def

lemmas call_awaitable_defs = start_request_awaitable_def start_response_awaitable_def start_bidi_awaitable_def
  call_read_awaitable_def call_write_awaitable_def call_write_last_awaitable_def call_writes_done_awaitable_def
  call_finish_awaitable_def unary_awaitable_def generic_awaitable_def

section \<open>What the language makes of them\<close>

lemma awaits_simps [simp]:
  "aw_ready aw \<Longrightarrow> awaits h aw a = map_sum id Value (aw_resume aw a)"
  "\<not> aw_ready aw \<Longrightarrow> awaits h aw a = map_sum id Suspended (aw_suspend aw h a)"
  by (simp_all add: awaits_def split: sum.split)

lemma user_awaits_suspends:
  "\<not> aw_ready aw \<Longrightarrow> user_awaits h aw a s = await_op (aw_suspend aw h a) s"
  by (cases "aw_suspend aw h a") (simp_all add: user_awaits_def await_op_def)

lemma user_starts_suspends:
  assumes "\<not> aw_ready aw" and "aw_suspend aw h (snd sa) = start_await_suspend (started s) h (fst sa) (snd sa)"
  shows "user_starts h aw sa s = start_call h sa s"
  using assms(1) unfolding user_starts_def start_call_def
  by (cases "start_await_suspend (started s) h (fst sa) (snd sa)") (simp_all add: assms(2))

lemma task_traits:
  "request_type (server_stream_traits T rq rs) = rq" "response_type (server_stream_traits T rq rs) = rs"
  "is_client_streaming (server_stream_traits T rq rs) = client_streaming T"
  "is_server_streaming (server_stream_traits T rq rs) = server_streaming T"
  by (simp_all add: server_stream_traits_def Let_def)

text \<open>
  The actions of a task body and of the user of a streaming call are what the language makes of the
  awaiters: the body at an operand does what \<open>co_await\<close> does with the class that \<open>await_transform\<close> selects
  for it, at either form of the operand, and \<open>co_yield\<close> what it does with the awaiter of \<open>yield_value\<close>.
\<close>

lemma body_transformed:
  "operand_of rq rs act x \<Longrightarrow> body_step T hooks act t = transformed T (await_transform (server_stream_traits T rq rs) x) act t"
  by (cases act)
     (auto simp: task_awaitable_defs body_awaits_def context_write_def rpc_info_def send_initial_metadata_def
      read_msg_def write_msg_def task_traits(1,2) task_traits(3,4) [of T rq rs] split: prod.split)

lemma body_yields: "body_step T hooks (YieldValue msg) t = yield_value T msg t"
  by (simp add: yield_value_def context_write_def task_awaitable_defs body_awaits_def split: prod.split)

lemma user_evaluates:
  "action \<noteq> Drop \<Longrightarrow> perform T dcq h action s \<noteq> None \<Longrightarrow> perform T dcq h action s = Some (user_expression T dcq h action s)"
  by (cases action)
     (auto simp: call_awaitable_defs user_awaits_suspends user_awaits_if_def start_suspend_defs start_request_def
      start_response_def start_bidi_def new_call_awaiter_def Let_def
      intro!: user_starts_suspends [symmetric] split: sum.split if_splits)

text \<open>The frame begins and ends with the two implicit awaits; unary calls and generic awaiters suspend.\<close>

lemma other_awaits:
  "at_start T cleared t = Inr (initial_await_suspend T cleared (frame t) (t\<lparr>coro := SuspendedInitial\<rparr>))"
  "at_end T t = Inr (suspend_final T t)"
  "awaits h (unary_awaitable r) u = Inr (Suspended (unary_await_suspend r h u))"
  "awaits h (generic_awaitable this) g = Inr (Suspended (generic_await_suspend this h g))"
  by (simp_all add: task_awaitable_defs call_awaitable_defs at_start_def at_end_def suspend_final_def)

section \<open>The value of an expression of a task\<close>

text \<open>
  What each operation is to do, written out: the hook before it, the operation on the stream of context \<open>k\<close>
  with the tag of the awaiter, and the hook after it with what the runtime reported.
\<close>

fun task_operation :: "context_id \<Rightarrow> ('req, 'resp) body_action \<Rightarrow> (('req, 'resp) hook \<times> 'resp server_op) option" where
  "task_operation k AwaitSendInitialMetadata = Some (OnSendInitialMetadataStart, SendInitialMetadata k (0, OpAwaiter))"
| "task_operation k (AwaitRead msg) = Some (OnReadStart, ReadOp k (0, OpAwaiter))"
| "task_operation k (AwaitWrite msg) = Some (OnWriteStart msg, WriteOp k msg (0, OpAwaiter))"
| "task_operation k (YieldValue msg) = Some (OnWriteStart msg, WriteOp k msg (0, OpAwaiter))"
| "task_operation k _ = None"

fun task_done :: "('req, 'resp) body_action \<Rightarrow> 'req delivery \<Rightarrow> ('req, 'resp) hook" where
  "task_done AwaitSendInitialMetadata d = OnSendInitialMetadataDone (d_ok d)"
| "task_done (AwaitRead msg) d = OnReadDone (if d_ok d then d_message d else msg) (d_ok d)"
| "task_done act d = OnWriteDone (d_ok d)"

text \<open>\<open>await_resume\<close> of the awaiter the frame was suspended with.\<close>

fun task_value :: "('req, 'resp) pending_op \<Rightarrow> ub + bool" where
  "task_value (MetadataAwaiter a) =
     aw_resume (metadata_awaitable 0 :: (unit op_awaiter, unit op_awaiter \<times> ('req, 'resp) effs, bool) awaitable) a"
| "task_value (ReadAwaiter a) =
     aw_resume (read_awaitable 0 :: ('req op_awaiter, 'req op_awaiter \<times> ('req, 'resp) effs, bool) awaitable) a"
| "task_value (WriteAwaiter a) =
     aw_resume (write_awaitable 0 :: ('resp op_awaiter, 'resp op_awaiter \<times> ('req, 'resp) effs, bool) awaitable) a"

text \<open>The frame was resumed with the outcome \<open>d\<close> of the operation, after its hook.\<close>

definition resumed_with ::
  "('req, 'resp) body_action \<Rightarrow> coro_handle \<Rightarrow> 'req delivery \<Rightarrow> ('req, 'resp) effs \<Rightarrow> ('req, 'resp) sys \<Rightarrow> bool" where
  "resumed_with act h d es u \<longleftrightarrow> (\<exists>op. coro (tsk u) = coro.Running \<and>
     trace u = es @ [RunHook (task_done act d), ResumeCoro h] \<and>
     op_awaiter_of (tsk u) = Some op \<and> task_value op = Inr (d_ok d))"

lemma op_suspends:
  assumes "task_operation (m_stream (ctx_of t)) act = Some (hk, sop)" and "body_step T hooks act t = Some r"
  shows "awaits_operation act \<and> (\<exists>op. r = Inr (suspend_on op t, [RunHook hk, Issue sop]) \<and> (case op of
      MetadataAwaiter a \<Rightarrow> act = AwaitSendInitialMetadata \<and> m_handle a = Some (frame t)
    | ReadAwaiter a \<Rightarrow> act = AwaitRead (m_msg a) \<and> m_handle a = Some (frame t)
    | WriteAwaiter a \<Rightarrow> act \<in> {AwaitWrite (m_msg a), YieldValue (m_msg a)} \<and> m_handle a = Some (frame t)))"
  using assms by (cases act) (auto simp: awaiter_defs new_awaiter_def context_write_def split: if_splits)

lemma op_resumes:
  assumes "coro (tsk v) = SuspendedOp" and "op_awaiter_of (tsk v) = Some op"
    and "case op of MetadataAwaiter a \<Rightarrow> act = AwaitSendInitialMetadata \<and> m_handle a = Some h
    | ReadAwaiter a \<Rightarrow> act = AwaitRead (m_msg a) \<and> m_handle a = Some h
    | WriteAwaiter a \<Rightarrow> act \<in> {AwaitWrite (m_msg a), YieldValue (m_msg a)} \<and> m_handle a = Some h"
  shows "resumed_with act h d (trace v) (deliver T hooks cleared operation_tag d v)"
  using assms
  by (cases op; cases "d_ok d")
     (auto simp: resumed_with_def deliver_def absorb_def handle_event_def op_handle_event_def runtime_writes_def
      awaiter_defs tag_defs task_awaitable_defs)

lemma notification_waits:
  assumes "coro (tsk v) = SuspendedOp"
  shows "coro (tsk (deliver T hooks cleared done_tag d v)) = SuspendedOp"
    and "op_awaiter_of (tsk (deliver T hooks cleared done_tag d v)) = op_awaiter_of (tsk v)"
    and "trace (deliver T hooks cleared done_tag d v) = trace v"
  using assms
  by (auto simp: deliver_def absorb_def handle_event_def promise_handle_event_def runtime_writes_def tag_defs
      split: option.splits pending_op.splits)


text \<open>While the frame is suspended on the operation, only a notification can come before its completion.\<close>

definition suspended_with :: "('req, 'resp) pending_op \<Rightarrow> ('req, 'resp) effs \<Rightarrow> ('req, 'resp) sys \<Rightarrow> bool" where
  "suspended_with op es v \<longleftrightarrow> alive_inv InOp v \<and> op_awaiter_of (tsk v) = Some op \<and> trace v = es"

lemma suspended_step:
  assumes "suspended_with op es v" and "well_behaved hooks" and "task_step T hooks cleared order v u"
    and "case op of MetadataAwaiter a \<Rightarrow> act = AwaitSendInitialMetadata \<and> m_handle a = Some h
    | ReadAwaiter a \<Rightarrow> act = AwaitRead (m_msg a) \<and> m_handle a = Some h
    | WriteAwaiter a \<Rightarrow> act \<in> {AwaitWrite (m_msg a), YieldValue (m_msg a)} \<and> m_handle a = Some h"
  shows "suspended_with op es u \<or> (\<exists>d. u = deliver T hooks cleared operation_tag d v \<and> resumed_with act h d es u)"
proof -
  have v: "alive_inv InOp v" "op_awaiter_of (tsk v) = Some op" "trace v = es" using assms(1) by (simp_all add: suspended_with_def)
  then have l: "life_at InOp v" and c: "coro (tsk v) = SuspendedOp" "\<not> auth_pending (tsk v)"
    by (simp_all add: alive_inv_def life_at_def)
  show ?thesis
    using assms(3)
  proof cases
    case (completion tag d)
    from outstanding_cases [OF l completion(3)] have "tag = done_tag \<or> tag = operation_tag" by auto
    then show ?thesis
    proof
      assume tag: "tag = done_tag"
      note waits = notification_waits [OF c(1), of T hooks cleared d]
      obtain ph where "alive_inv ph u" using step_life [OF assms(3) v(1) assms(2)] by blast
      moreover from this have "ph = InOp"
        using waits(1) completion(1) tag by (cases ph) (simp_all add: alive_inv_def life_at_def)
      ultimately show ?thesis using waits v completion(1) tag by (simp add: suspended_with_def)
    next
      assume "tag = operation_tag"
      then show ?thesis using op_resumes [OF c(1) v(2) assms(4), of d T hooks cleared] completion(1) v(3) by blast
    qed
  qed (use c in simp_all)
qed

lemma step_trace: "task_step T hooks cleared order s t \<Longrightarrow> length (trace s) \<le> length (trace t)"
  by (erule task_step.cases) (auto simp: deliver_def absorb_def split: sum.splits)

lemma suspended_run:
  assumes "task_run T hooks cleared order s v" and "suspended_with op es s" and "well_behaved hooks"
    and "case op of MetadataAwaiter a \<Rightarrow> act = AwaitSendInitialMetadata \<and> m_handle a = Some h
    | ReadAwaiter a \<Rightarrow> act = AwaitRead (m_msg a) \<and> m_handle a = Some h
    | WriteAwaiter a \<Rightarrow> act \<in> {AwaitWrite (m_msg a), YieldValue (m_msg a)} \<and> m_handle a = Some h"
  shows "suspended_with op es v \<or> length es < length (trace v)"
  using assms(1)
proof (induction rule: rtranclp_induct)
  case (step u v)
  from step.IH show ?case
  proof
    assume "suspended_with op es u"
    from suspended_step [OF this assms(3) step.hyps(2) assms(4)] show ?thesis by (auto simp: resumed_with_def)
  qed (use step_trace [OF step.hyps(2)] in simp)
qed (use assms(2) in simp)

text \<open>
C16: \<open>co_await\<close> of an operation in a task has the outcome of that operation as its value: a running body at
\<open>co_await\<close> or \<open>co_yield\<close> does what the language makes of the class of awaiters that is selected for the
operand, and that runs the hook of the operation, issues exactly this operation on the current context with
the tag of the awaiter, and suspends the frame. However the queue orders its tags, nothing then happens to
the frame until the completion of the operation, which is still to come; that runs the other hook, with the
outcome and for a read with the message that was received, resumes this coroutine last, and
\<open>await_resume\<close> returns the outcome.
\<close>

theorem task_await_yields_outcome:
  fixes s v u :: "('req, 'resp) sys"
  assumes "reaches T hooks cleared order s" and "well_behaved hooks" and "failure s = None"
    and "coro (tsk s) = coro.Running" and "body_step T hooks act (tsk s) = Some r"
    and "task_operation (m_context (ctx_of (tsk s))) act = Some (hk, sop)"
    and "task_run T hooks cleared order (absorb r s) v" and "trace v = trace (absorb r s)"
    and "task_step T hooks cleared order v u"
  shows "(operand_of rq rs act x \<longrightarrow> transformed T (await_transform (server_stream_traits T rq rs) x) act (tsk s) = Some r) \<and>
    (act = YieldValue msg \<longrightarrow> yield_value T msg (tsk s) = Some r) \<and>
    trace (absorb r s) = trace s @ [RunHook hk, Issue sop] \<and>
    coro (tsk v) = SuspendedOp \<and> filter_mset (\<lambda>t. t \<noteq> done_tag) (outstanding v) = {#(0, OpAwaiter)#} \<and>
    (coro (tsk u) = SuspendedOp \<and> trace u = trace v \<or>
     (\<exists>d. u = deliver T hooks cleared (0, OpAwaiter) d v \<and> resumed_with act (frame (tsk s)) d (trace v) u))"
proof -
  obtain ph where ph: "alive_inv ph s" using reaches_alive [OF assms(1,2,3)] by blast
  then have "ph = InBody" using assms(4) by (cases ph) (simp_all add: alive_inv_def life_at_def)
  with ph have l: "life_at InBody s" "counts_at InBody s" by (simp_all add: alive_inv_def)
  then have "m_stream (ctx_of (tsk s)) = m_context (ctx_of (tsk s))" by (simp add: life_at_def)
  from op_suspends [of "tsk s" act hk sop T hooks r, unfolded this, OF assms(6,5)]
  obtain op where act: "awaits_operation act" and r: "r = Inr (suspend_on op (tsk s), [RunHook hk, Issue sop])"
    and op: "case op of MetadataAwaiter a \<Rightarrow> act = AwaitSendInitialMetadata \<and> m_handle a = Some (frame (tsk s))
    | ReadAwaiter a \<Rightarrow> act = AwaitRead (m_msg a) \<and> m_handle a = Some (frame (tsk s))
    | WriteAwaiter a \<Rightarrow> act \<in> {AwaitWrite (m_msg a), YieldValue (m_msg a)} \<and> m_handle a = Some (frame (tsk s))"
    by blast
  have es: "trace (absorb r s) = trace s @ [RunHook hk, Issue sop]" by (simp add: r absorb_def)
  have "suspended_with op (trace (absorb r s)) (absorb r s)"
    using op_life [OF l act assms(5)] by (simp add: suspended_with_def alive_inv_def r absorb_def suspend_on_def)
  from suspended_run [OF assms(7) this assms(2) op] assms(8)
  have v: "suspended_with op (trace v) v" by auto
  then have "coro (tsk v) = SuspendedOp" "filter_mset (\<lambda>t. t \<noteq> done_tag) (outstanding v) = {#(0, OpAwaiter)#}"
    by (simp_all add: suspended_with_def alive_inv_def life_at_def operation_tag_def)
  moreover have "coro (tsk u) = SuspendedOp \<and> trace u = trace v \<or>
      (\<exists>d. u = deliver T hooks cleared (0, OpAwaiter) d v \<and> resumed_with act (frame (tsk s)) d (trace v) u)"
    using suspended_step [OF v assms(2,9) op] by (auto simp: suspended_with_def alive_inv_def life_at_def operation_tag_def)
  moreover have "operand_of rq rs act x \<longrightarrow> transformed T (await_transform (server_stream_traits T rq rs) x) act (tsk s) = Some r"
    using body_transformed [of rq rs act x T hooks "tsk s"] assms(5) by auto
  moreover have "act = YieldValue msg \<longrightarrow> yield_value T msg (tsk s) = Some r"
    using body_yields [of T hooks msg "tsk s"] assms(5) by auto
  ultimately show ?thesis using es by blast
qed


text \<open>A unary task that was accepted sends its initial metadata.\<close>

definition ex_suspended :: "(nat, nat) sys" where
  "ex_suspended =
     absorb (the (body_step Unary (noop_task_hook True) AwaitSendInitialMetadata (tsk example_accepted))) example_accepted"

definition ex_sent :: "(nat, nat) sys" where
  "ex_sent = deliver Unary (noop_task_hook True) 0 operation_tag
     \<lparr>d_ok = False, d_cancelled = False, d_message = 0\<rparr> ex_suspended"

theorem task_await_yields_outcome_witness:
  "(\<exists>d. ex_sent = deliver Unary (noop_task_hook True) 0 (0, OpAwaiter) d ex_suspended \<and>
      resumed_with AwaitSendInitialMetadata (frame (tsk example_accepted)) d (trace ex_suspended) ex_sent) \<and>
   coro (tsk ex_suspended) = SuspendedOp"
proof -
  let ?r = "the (body_step Unary (noop_task_hook True) AwaitSendInitialMetadata (tsk example_accepted))"
  let ?k = "m_context (ctx_of (tsk example_accepted))"
  have run: "coro (tsk example_accepted) = coro.Running"
    by (simp add: example_accepted_def deliver_def absorb_def handle_event_def initial_handle_event_def
        auth_callback_def noop_task_hook_def example_start_def initial_sys_def initial_await_suspend_def
        start_grpc_call_def promise_type_def Let_def tag_defs runtime_writes_def update_ctx_def)
  have r: "body_step Unary (noop_task_hook True) AwaitSendInitialMetadata (tsk example_accepted) = Some ?r"
    by (simp add: awaiter_defs)
  have c: "coro (tsk ex_suspended) = SuspendedOp" "failure ex_suspended = None" "coro (tsk ex_sent) = coro.Running"
    using example_alive
    by (simp_all add: ex_sent_def ex_suspended_def absorb_def awaiter_defs suspend_on_def tag_defs deliver_def
        handle_event_def op_handle_event_def runtime_writes_def new_awaiter_def)
  have o: "operation_tag \<in># outstanding ex_suspended"
    by (simp add: ex_suspended_def absorb_def awaiter_defs tag_defs List.map_filter_def)
  have st: "task_step Unary (noop_task_hook True) 0 done_first ex_suspended ex_sent"
    unfolding ex_sent_def by (rule task_step.completion) (use o in \<open>simp_all add: c done_first_def tag_defs\<close>)
  have v: "task_run Unary (noop_task_hook True) 0 done_first (absorb ?r example_accepted) ex_suspended"
      "trace ex_suspended = trace (absorb ?r example_accepted)"
    unfolding ex_suspended_def by (rule rtranclp.rtrancl_refl, rule refl)
  have sop: "task_operation ?k AwaitSendInitialMetadata =
      Some (OnSendInitialMetadataStart :: (nat, nat) hook, SendInitialMetadata ?k (0, OpAwaiter))" by simp
  note yields = task_await_yields_outcome [OF example_reached(2) noop_well_behaved example_alive run r sop v st]
  with c show ?thesis by (metis coro.distinct(11))
qed

section \<open>The value of an expression of a user of a call\<close>

text \<open>The operation each is to issue on stream \<open>x\<close>, written out, and \<open>await_resume\<close> of its awaiter.\<close>

fun call_operation :: "stream_id \<Rightarrow> 'req call_action \<Rightarrow> 'req client_op option" where
  "call_operation x Read = Some (ClientRead x (0, AwaiterObj))"
| "call_operation x (Write msg) = Some (ClientWrite x msg (0, AwaiterObj))"
| "call_operation x (WriteLast msg) = Some (ClientWriteLast x msg (0, AwaiterObj))"
| "call_operation x WritesDone = Some (ClientWritesDone x (0, AwaiterObj))"
| "call_operation x _ = None"

fun call_value :: "'req call_action \<Rightarrow> call_state \<Rightarrow> 'req call_awaiter \<Rightarrow> ub + bool" where
  "call_value Read s a = aw_resume (call_read_awaitable s) a"
| "call_value (Write msg) s a = aw_resume (call_write_awaitable msg s) a"
| "call_value (WriteLast msg) s a = aw_resume (call_write_last_awaitable msg s) a"
| "call_value WritesDone s a = aw_resume (call_writes_done_awaitable s) a"
| "call_value _ s a = Inl UninitRead"

fun closes_side :: "'req call_action \<Rightarrow> bool" where
  "closes_side (WriteLast msg) = True"
| "closes_side WritesDone = True"
| "closes_side _ = False"

definition evaluates_to :: "'req call_action \<Rightarrow> coro_handle \<Rightarrow> bool \<Rightarrow> 'req call_sys \<Rightarrow> 'req call_sys \<Rightarrow> bool" where
  "evaluates_to action h ok t u \<longleftrightarrow>
     history u = history t @ [ResumeCoro h] \<and> user_of u = user.Running \<and> stream (cst u) = stream (cst t) \<and>
     m_need_writes_done (cst u) = (m_need_writes_done (cst t) \<and> \<not> closes_side action) \<and>
     (\<exists>a. caw u = Some a \<and> call_value action (cst u) a = Inr ok)"

lemma operation_suspends:
  assumes "call_operation x action = Some op" and "stream (cst s) = Some x" and "perform T dcq h action s = Some t"
  shows "\<exists>a. t = emit [Issue op] (s\<lparr>caw := Some a, user_of := Awaiting\<rparr>) \<and> call_handle a = Some h \<and>
    call_method_of a = (case action of Read \<Rightarrow> ReadMethod | Write msg \<Rightarrow> WriteMethod msg | WriteLast msg \<Rightarrow> WriteLastMethod msg
      | _ \<Rightarrow> WritesDoneMethod)"
  using assms
  by (cases action)
     (auto simp: await_op_def call_read_suspend_def call_write_suspend_def call_write_last_suspend_def
      call_writes_done_suspend_def call_read_def call_write_def call_write_last_def call_writes_done_def active_call_def
      new_call_awaiter_def split: if_splits)

lemma operation_evaluates:
  assumes "call_operation x action = Some op" and "caw t = Some a" and "user_of t = Awaiting" and "call_handle a = Some h"
    and "call_method_of a = (case action of Read \<Rightarrow> ReadMethod | Write msg \<Rightarrow> WriteMethod msg | WriteLast msg \<Rightarrow> WriteLastMethod msg
      | _ \<Rightarrow> WritesDoneMethod)"
  shows "evaluates_to action h ok t (complete T (0, AwaiterObj) ok t)"
  using assms
  by (cases action)
     (auto simp: evaluates_to_def complete_def stores_response_def emit_def call_read_event_def call_write_event_def
      call_write_last_event_def call_writes_done_event_def call_awaitable_defs call_await_resume_def Let_def)

text \<open>
C17: \<open>co_await\<close> of an operation on an active call has the outcome of that operation as its value: the user
at \<open>read\<close>, \<open>write\<close>, \<open>write_last\<close> or \<open>writes_done\<close> does what the language makes of the awaiter the member
returns, which issues exactly this operation on the stream of the call with the tag of the awaiter and
suspends the coroutine. The only thing that can happen to the call next is the completion of it, which
resumes this coroutine as its last action; \<open>await_resume\<close> returns the outcome, the call stays active, and
its side is closed by the two last operations only. Assumed is what a streaming call relies on: its stream
is stored before the completion of its start, it is used properly, and its response outlives it.
\<close>

theorem call_await_yields_outcome:
  assumes "call_reaches T all_assumed s" and "user_of s = user.Running" and "stream (cst s) = Some x"
    and "proper action s" and "call_operation x action = Some op" and "perform T dcq h action s = Some t"
  shows "t = user_expression T dcq h action s \<and> history t = history s @ [Issue op] \<and> user_of t = Awaiting \<and>
    pending t = {#(0, AwaiterObj)#} \<and> stream (cst t) = Some x \<and> m_need_writes_done (cst t) = m_need_writes_done (cst s) \<and>
    call_step T all_assumed t (complete T (0, AwaiterObj) ok t) \<and>
    {u. call_step T all_assumed t u} = {u. \<exists>ok. u = complete T (0, AwaiterObj) ok t \<and> evaluates_to action h ok t u}"
proof -
  obtain ph where ph: "call_inv T ph s" using call_reaches_inv [OF assms(1)] by blast
  then have s: "pending s = {#}" "assigning s = None" "call_failure s = None" "state_alive s"
    using assms(2,3) by (cases ph; simp add: call_inv_defs)+
  obtain a where t: "t = emit [Issue op] (s\<lparr>caw := Some a, user_of := Awaiting\<rparr>)" and h: "call_handle a = Some h"
    and m: "call_method_of a = (case action of Read \<Rightarrow> ReadMethod | Write msg \<Rightarrow> WriteMethod msg | WriteLast msg \<Rightarrow> WriteLastMethod msg
      | _ \<Rightarrow> WritesDoneMethod)"
    using operation_suspends [OF assms(5,3,6)] by blast
  have tag: "client_op_tag op = Some (0, AwaiterObj)" using assms(5) by (cases action) auto
  have f: "caw t = Some a" "user_of t = Awaiting" "pending t = {#(0, AwaiterObj)#}" "assigning t = None"
      "call_failure t = None" "history t = history s @ [Issue op]" "cst t = cst s"
    using s tag by (simp_all add: t)
  have step: "call_step T all_assumed t (complete T (0, AwaiterObj) ok t)" for ok
    by (rule call_step.completed) (simp_all add: f)
  have val: "evaluates_to action h ok t (complete T (0, AwaiterObj) ok t)" for ok
    by (rule operation_evaluates [OF assms(5) f(1,2) h m])
  have only: "\<exists>ok. u = complete T (0, AwaiterObj) ok t" if "call_step T all_assumed t u" for u
    using that by cases (use f in auto)
  have "action \<noteq> Drop" using assms(5) by auto
  then have "t = user_expression T dcq h action s" using user_evaluates [of action T dcq h s] assms(6) by simp
  moreover have "{u. call_step T all_assumed t u} = {u. \<exists>ok. u = complete T (0, AwaiterObj) ok t \<and> evaluates_to action h ok t u}"
    using step val only by blast
  ultimately show ?thesis using f assms(3) step by simp
qed

theorem call_await_yields_outcome_witness:
  "\<exists>t. perform ClientStreaming 3 7 (WriteLast 5) ex_active = Some t \<and>
     history t = history ex_active @ [Issue (ClientWriteLast 0 5 (0, AwaiterObj))] \<and>
     {u. call_step ClientStreaming all_assumed t u} =
       {u. \<exists>ok. u = complete ClientStreaming (0, AwaiterObj) ok t \<and> evaluates_to (WriteLast 5) 7 ok t u}"
proof -
  have p: "proper (WriteLast 5) ex_active" by (simp add: proper_def ex_active_fields)
  obtain t where t: "perform ClientStreaming 3 7 (WriteLast 5) ex_active = Some t"
    by (simp add: spec_client_client_streaming_def)
  have "stream (cst ex_active) = Some 0" by (simp add: ex_active_fields)
  note yields = call_await_yields_outcome [OF ex_reached(2) ex_active_fields(2) this p call_operation.simps(3) t]
  show ?thesis by (rule exI [of _ t], intro conjI, rule t) (use yields in blast)+
qed

end
