(* ===== verification/Call_Objects.thy ===== *)
theory Call_Objects
  imports Unary_Call
begin

text \<open>
  The objects of \<open>include/asyncpp/grpc/call.h\<close> a program holds: \<open>unary_call\<close>, whose awaiters point to the
  client context the object owns and to the stub it was given, and \<open>streaming_call\<close>, which owns its state.
  What the awaiters do with the call is in \<open>Unary_Call\<close> and \<open>Streaming_Call\<close>.
\<close>

section \<open>Contexts and calls\<close>

text \<open>
  \<open>::grpc::ClientContext\<close>: made new or from a server's context with propagation options, good for one call,
  which it has to outlive. Objects are numbered in the order of their construction.
\<close>

datatype context_use = NoCall | HasCall | Destroyed

record client_context =
  ctx_parent :: "(nat \<times> nat) option"
  ctx_use :: context_use

record unary_call =
  m_context :: nat            \<comment> \<open>the owned context\<close>
  m_stub :: "nat option"      \<comment> \<open>the stub, which may be a null pointer\<close>

datatype await_phase = Made | Waiting | Done

text \<open>An awaiter of a call, with the two raw pointers it copied.\<close>

record ('req, 'resp) unary_await =
  a_context :: nat
  a_stub :: "nat option"
  a_awaiter :: "('req, 'resp) unary_awaiter"
  a_phase :: await_phase

text \<open>\<open>None\<close> is a call object that was destroyed.\<close>

record ('req, 'resp) call_world =
  k_contexts :: "client_context list"
  k_calls :: "unary_call option list"
  k_awaits :: "('req, 'resp) unary_await list"

text \<open>Besides undefined behaviour, the runtime aborts when a context is given to a second call.\<close>

datatype call_failure = CallUndefined ub | ContextReused

section \<open>Operations\<close>

definition new_call :: "(nat \<times> nat) option \<Rightarrow> nat option \<Rightarrow> ('req, 'resp) call_world \<Rightarrow> ('req, 'resp) call_world" where
  "new_call parent stub w =
     w\<lparr>k_contexts := k_contexts w @ [\<lparr>ctx_parent = parent, ctx_use = NoCall\<rparr>],
       k_calls := k_calls w @ [Some \<lparr>m_context = length (k_contexts w), m_stub = stub\<rparr>]\<rparr>"

definition unary_call_of_stub where
  "unary_call_of_stub stub w = new_call None stub w"

definition unary_call_from_server where
  "unary_call_from_server stub ctx opts w = new_call (Some (ctx, opts)) stub w"

text \<open>A \<open>std::unique_ptr\<close> is the pointer it owns, which may be null; the call does not take it over.\<close>

definition unary_call_of_unique where
  "unary_call_of_unique stub w = unary_call_of_stub stub w"

definition unary_call_from_server_unique where
  "unary_call_from_server_unique stub ctx opts w = unary_call_from_server stub ctx opts w"

definition call_operator ::
  "cq_id \<Rightarrow> nat \<Rightarrow> 'req \<Rightarrow> 'resp \<Rightarrow> cq_id option \<Rightarrow> ('req, 'resp) call_world \<Rightarrow>
     call_failure + ('req, 'resp) call_world" where
  "call_operator default_cq i req resp cq w =
     (case k_calls w ! i of
        None \<Rightarrow> Inl (CallUndefined UseAfterFree)
      | Some u \<Rightarrow> Inr (w\<lparr>k_awaits := k_awaits w @
          [\<lparr>a_context = m_context u, a_stub = m_stub u, a_awaiter = unary_awaiter default_cq req resp cq,
            a_phase = Made\<rparr>]\<rparr>))"

definition use_context :: "context_use \<Rightarrow> nat \<Rightarrow> client_context list \<Rightarrow> client_context list" where
  "use_context use c cs = cs[c := (cs ! c)\<lparr>ctx_use := use\<rparr>]"

text \<open>\<open>m_reader = (m_stub->*FN)(m_context, m_request, m_cq)\<close>, then \<open>Finish\<close>.\<close>

definition call_suspend ::
  "nat \<Rightarrow> reader_id \<Rightarrow> coro_handle \<Rightarrow> ('req, 'resp) call_world \<Rightarrow> call_failure + ('req, 'resp) call_world" where
  "call_suspend j x h w =
     (let a = k_awaits w ! j in
      case a_stub a of None \<Rightarrow> Inl (CallUndefined NullDeref)
      | Some _ \<Rightarrow>
          (case ctx_use (k_contexts w ! a_context a) of
             Destroyed \<Rightarrow> Inl (CallUndefined UseAfterFree)
           | HasCall \<Rightarrow> Inl ContextReused
           | NoCall \<Rightarrow> Inr (w\<lparr>k_contexts := use_context HasCall (a_context a) (k_contexts w),
               k_awaits := (k_awaits w)[j := a\<lparr>a_awaiter := fst (unary_await_suspend x h (a_awaiter a)), a_phase := Waiting\<rparr>]\<rparr>)))"

text \<open>The completion: the context has to be there still.\<close>

definition call_completes ::
  "nat \<Rightarrow> bool \<Rightarrow> 'resp \<Rightarrow> status \<Rightarrow> ('req, 'resp) call_world \<Rightarrow> call_failure + ('req, 'resp) call_world" where
  "call_completes j ok resp st w =
     (let a = k_awaits w ! j in
      if ctx_use (k_contexts w ! a_context a) = Destroyed then Inl (CallUndefined UseAfterFree)
      else case unary_handle_event 0 ok (receive_response resp st (a_awaiter a)) of
             Inl u \<Rightarrow> Inl (CallUndefined u)
           | Inr (b, _) \<Rightarrow> Inr (w\<lparr>k_awaits := (k_awaits w)[j := a\<lparr>a_awaiter := b, a_phase := Done\<rparr>]\<rparr>))"

definition unary_call_destructor :: "nat \<Rightarrow> ('req, 'resp) call_world \<Rightarrow> call_failure + ('req, 'resp) call_world" where
  "unary_call_destructor i w =
     (case k_calls w ! i of
        None \<Rightarrow> Inl (CallUndefined UseAfterFree)
      | Some u \<Rightarrow> Inr (w\<lparr>k_contexts := use_context Destroyed (m_context u) (k_contexts w), k_calls := (k_calls w)[i := None]\<rparr>))"

section \<open>Programs that use the calls\<close>

datatype ('req, 'resp) call_action =
    MakeCall "(nat \<times> nat) option" "nat option"
  | CallOperator cq_id nat 'req 'resp "cq_id option"
  | SuspendOn nat reader_id coro_handle
  | Completes nat bool 'resp status
  | DestroyCall nat

fun act_on where
  "act_on (MakeCall None stub) w = Inr (unary_call_of_stub stub w)"
| "act_on (MakeCall (Some (ctx, opts)) stub) w = Inr (unary_call_from_server stub ctx opts w)"
| "act_on (CallOperator default_cq i req resp cq) w = call_operator default_cq i req resp cq w"
| "act_on (SuspendOn j x h) w = call_suspend j x h w"
| "act_on (Completes j ok resp st) w = call_completes j ok resp st w"
| "act_on (DestroyCall i) w = unary_call_destructor i w"

fun call_actions where
  "call_actions [] w = Inr w"
| "call_actions (a # as) w = (case act_on a w of Inl f \<Rightarrow> Inl f | Inr w \<Rightarrow> call_actions as w)"

definition no_calls :: "('req, 'resp) call_world" where
  "no_calls = \<lparr>k_contexts = [], k_calls = [], k_awaits = []\<rparr>"

text \<open>Whether an action is possible at all: it names an object, an awaiter is awaited once, and only what waits completes.\<close>

fun action_possible where
  "action_possible (MakeCall parent stub) w = True"
| "action_possible (CallOperator default_cq i req resp cq) w = (i < length (k_calls w))"
| "action_possible (SuspendOn j x h) w = (j < length (k_awaits w) \<and> a_phase (k_awaits w ! j) = Made)"
| "action_possible (Completes j ok resp st) w = (j < length (k_awaits w) \<and> a_phase (k_awaits w ! j) = Waiting)"
| "action_possible (DestroyCall i) w = (i < length (k_calls w))"

text \<open>
  What a program has to see to, as the types do not: the stub is not null, a call object is called once, and
  it outlives what waits for it.
\<close>

fun action_allowed where
  "action_allowed (MakeCall parent stub) w = (stub \<noteq> None)"
| "action_allowed (CallOperator default_cq i req resp cq) w =
     (case k_calls w ! i of None \<Rightarrow> False | Some u \<Rightarrow> list_all (\<lambda>a. a_context a \<noteq> m_context u) (k_awaits w))"
| "action_allowed (DestroyCall i) w =
     (case k_calls w ! i of None \<Rightarrow> False
      | Some u \<Rightarrow> list_all (\<lambda>a. a_context a = m_context u \<longrightarrow> a_phase a = Done) (k_awaits w))"
| "action_allowed _ w = True"

inductive careful_step :: "('req, 'resp) call_world \<Rightarrow> ('req, 'resp) call_world \<Rightarrow> bool" where
  "action_possible a w \<Longrightarrow> action_allowed a w \<Longrightarrow> act_on a w = Inr v \<Longrightarrow> careful_step w v"

inductive_cases careful_stepE: "careful_step w v"

section \<open>The invariant\<close>

definition call_ok :: "('req, 'resp) call_world \<Rightarrow> unary_call \<Rightarrow> bool" where
  "call_ok w u \<longleftrightarrow> m_stub u \<noteq> None \<and> m_context u < length (k_contexts w) \<and>
     ctx_use (k_contexts w ! m_context u) \<noteq> Destroyed \<and>
     (list_all (\<lambda>a. a_context a \<noteq> m_context u) (k_awaits w) \<longrightarrow> ctx_use (k_contexts w ! m_context u) = NoCall)"

definition await_ok :: "client_context list \<Rightarrow> ('req, 'resp) unary_await \<Rightarrow> bool" where
  "await_ok cs a \<longleftrightarrow> a_context a < length cs \<and>
     (case a_phase a of
        Made \<Rightarrow> a_stub a \<noteq> None \<and> ctx_use (cs ! a_context a) = NoCall
      | Waiting \<Rightarrow> u_handle (a_awaiter a) \<noteq> None \<and> ctx_use (cs ! a_context a) = HasCall
      | Done \<Rightarrow> True)"

definition calls_inv :: "('req, 'resp) call_world \<Rightarrow> bool" where
  "calls_inv w \<longleftrightarrow>
     (\<forall>i < length (k_calls w). \<forall>u. k_calls w ! i = Some u \<longrightarrow> call_ok w u) \<and>
     (\<forall>i < length (k_calls w). \<forall>j < length (k_calls w). \<forall>u v. k_calls w ! i = Some u \<longrightarrow>
        k_calls w ! j = Some v \<longrightarrow> m_context u = m_context v \<longrightarrow> i = j) \<and>
     (\<forall>j < length (k_awaits w). await_ok (k_contexts w) (k_awaits w ! j)) \<and>
     distinct (map a_context (k_awaits w))"

lemma use_context_nth:
  "length (use_context use c cs) = length cs"
  "d < length cs \<Longrightarrow> ctx_use (use_context use c cs ! d) = (if d = c then use else ctx_use (cs ! d))"
  by (auto simp: use_context_def nth_list_update)

lemma calls_invD:
  assumes "calls_inv w"
  shows "i < length (k_calls w) \<Longrightarrow> k_calls w ! i = Some u \<Longrightarrow> call_ok w u"
    and "j < length (k_awaits w) \<Longrightarrow> await_ok (k_contexts w) (k_awaits w ! j)"
    and "i < length (k_calls w) \<Longrightarrow> j < length (k_calls w) \<Longrightarrow> k_calls w ! i = Some u \<Longrightarrow> k_calls w ! j = Some v \<Longrightarrow>
      m_context u = m_context v \<Longrightarrow> i = j"
    and "j < length (k_awaits w) \<Longrightarrow> l < length (k_awaits w) \<Longrightarrow>
      a_context (k_awaits w ! j) = a_context (k_awaits w ! l) \<Longrightarrow> j = l"
  using assms unfolding calls_inv_def distinct_conv_nth by (blast, blast, blast, metis length_map nth_map)

lemma same_contexts:
  "j < length as \<Longrightarrow> a_context b = a_context (as ! j) \<Longrightarrow> map a_context (as[j := b]) = map a_context as"
  by (metis list_update_id map_update)

lemma contexts_all: "list_all (\<lambda>a. a_context a \<noteq> c) as = (c \<notin> set (map a_context as))"
  by (auto simp: list_all_iff)

lemma calls_invI:
  assumes "\<And>i u. i < length (k_calls w) \<Longrightarrow> k_calls w ! i = Some u \<Longrightarrow> call_ok w u"
    and "\<And>j. j < length (k_awaits w) \<Longrightarrow> await_ok (k_contexts w) (k_awaits w ! j)"
    and "\<And>i j u v. i < length (k_calls w) \<Longrightarrow> j < length (k_calls w) \<Longrightarrow> k_calls w ! i = Some u \<Longrightarrow>
      k_calls w ! j = Some v \<Longrightarrow> m_context u = m_context v \<Longrightarrow> i = j"
    and "distinct (map a_context (k_awaits w))"
  shows "calls_inv w"
  using assms by (auto simp: calls_inv_def)

lemma await_ok_use:
  "await_ok cs a \<Longrightarrow> a_context a \<noteq> c \<or> a_phase a = Done \<Longrightarrow> await_ok (use_context use c cs) a"
  by (auto simp: await_ok_def use_context_nth split: await_phase.splits)

lemma calls_inv_init: "calls_inv no_calls"
  by (simp add: calls_inv_def no_calls_def)

lemma new_call_keeps:
  assumes "calls_inv w" and "stub \<noteq> None"
  shows "calls_inv (new_call parent stub w)"
proof (rule calls_invI)
  fix i u
  assume "i < length (k_calls (new_call parent stub w))" "k_calls (new_call parent stub w) ! i = Some u"
  then show "call_ok (new_call parent stub w) u"
    using calls_invD(1) [OF assms(1), of i u] assms(2)
    by (auto simp: new_call_def nth_append call_ok_def split: if_splits)
next
  fix j assume "j < length (k_awaits (new_call parent stub w))"
  then show "await_ok (k_contexts (new_call parent stub w)) (k_awaits (new_call parent stub w) ! j)"
    using calls_invD(2) [OF assms(1), of j] by (auto simp: new_call_def await_ok_def nth_append split: await_phase.splits)
next
  fix i j u v
  assume i: "i < length (k_calls (new_call parent stub w))" "k_calls (new_call parent stub w) ! i = Some u"
    and j: "j < length (k_calls (new_call parent stub w))" "k_calls (new_call parent stub w) ! j = Some v"
    and "m_context u = m_context v"
  have "m_context x < length (k_contexts w)" if "l < length (k_calls w)" "k_calls w ! l = Some x" for l x
    using calls_invD(1) [OF assms(1) that] by (simp add: call_ok_def)
  from this [of i u] this [of j v] show "i = j"
    using i j \<open>m_context u = m_context v\<close> calls_invD(3) [OF assms(1), of i j u v]
    by (auto simp: new_call_def nth_append split: if_splits)
qed (use assms(1) in \<open>simp add: new_call_def calls_inv_def\<close>)

lemma operator_keeps:
  assumes "calls_inv w" and "i < length (k_calls w)" and "k_calls w ! i = Some u"
    and "list_all (\<lambda>a. a_context a \<noteq> m_context u) (k_awaits w)"
  shows "\<exists>v. call_operator d i req resp cq w = Inr v \<and> calls_inv v"
proof -
  let ?a = "\<lparr>a_context = m_context u, a_stub = m_stub u, a_awaiter = unary_awaiter d req resp cq, a_phase = Made\<rparr>"
  let ?v = "w\<lparr>k_awaits := k_awaits w @ [?a]\<rparr>"
  have u: "call_ok w u" by (rule calls_invD(1) [OF assms(1,2,3)])
  have "calls_inv ?v"
  proof (rule calls_invI)
    show "call_ok ?v x" if "l < length (k_calls ?v)" "k_calls ?v ! l = Some x" for l x
      using calls_invD(1) [OF assms(1), of l x] that by (simp add: call_ok_def)
    show "await_ok (k_contexts ?v) (k_awaits ?v ! j)" if "j < length (k_awaits ?v)" for j
      using calls_invD(2) [OF assms(1), of j] that u assms(4)
      by (auto simp: nth_append await_ok_def call_ok_def less_Suc_eq)
    show "distinct (map a_context (k_awaits ?v))"
      using assms(1,4) by (auto simp: calls_inv_def list_all_iff)
  qed (use calls_invD(3) [OF assms(1)] in simp)
  then show ?thesis using assms(3) by (simp add: call_operator_def)
qed

lemma waiting_keeps:
  assumes "calls_inv w" and j: "j < length (k_awaits w)" and "a_phase (k_awaits w ! j) = Made"
  shows "\<exists>v. call_suspend j x h w = Inr v \<and> calls_inv v"
proof -
  let ?a = "k_awaits w ! j" let ?cs = "use_context HasCall (a_context ?a) (k_contexts w)"
  let ?b = "?a\<lparr>a_awaiter := fst (unary_await_suspend x h (a_awaiter ?a)), a_phase := Waiting\<rparr>"
  let ?v = "w\<lparr>k_contexts := ?cs, k_awaits := (k_awaits w)[j := ?b]\<rparr>"
  have a: "a_context ?a < length (k_contexts w)" "a_stub ?a \<noteq> None" "ctx_use (k_contexts w ! a_context ?a) = NoCall"
    using calls_invD(2) [OF assms(1) j] assms(3) by (simp_all add: await_ok_def)
  have same: "map a_context (k_awaits ?v) = map a_context (k_awaits w)"
    using j by (simp add: same_contexts)
  have all: "list_all (\<lambda>a. a_context a \<noteq> c) (k_awaits ?v) = list_all (\<lambda>a. a_context a \<noteq> c) (k_awaits w)" for c
    unfolding contexts_all same ..
  have "calls_inv ?v"
  proof (rule calls_invI)
    fix l y assume l: "l < length (k_calls ?v)" "k_calls ?v ! l = Some y"
    then have ok: "call_ok w y" using calls_invD(1) [OF assms(1)] by simp
    have "\<not> list_all (\<lambda>a. a_context a \<noteq> m_context y) (k_awaits w)" if "m_context y = a_context ?a"
      using j that by (auto simp: list_all_length)
    with ok show "call_ok ?v y" using all by (auto simp: call_ok_def use_context_nth)
  next
    fix l assume l: "l < length (k_awaits ?v)"
    show "await_ok (k_contexts ?v) (k_awaits ?v ! l)"
    proof (cases "l = j")
      case True
      then show ?thesis
        using a j by (simp add: await_ok_def use_context_nth unary_await_suspend_def Let_def)
    next
      case False
      with l have "a_context (k_awaits w ! l) \<noteq> a_context ?a" using calls_invD(4) [OF assms(1) _ j] by auto
      with l False show ?thesis using calls_invD(2) [OF assms(1), of l] by (simp add: await_ok_use)
    qed
  next
    show "distinct (map a_context (k_awaits ?v))" unfolding same using assms(1) by (simp add: calls_inv_def)
  qed (use calls_invD(3) [OF assms(1)] in simp)
  then show ?thesis using a by (auto simp: call_suspend_def Let_def)
qed

lemma completion_keeps:
  assumes "calls_inv w" and j: "j < length (k_awaits w)" and "a_phase (k_awaits w ! j) = Waiting"
  shows "\<exists>v. call_completes j ok resp st w = Inr v \<and> calls_inv v"
proof -
  let ?a = "k_awaits w ! j"
  have a: "a_context ?a < length (k_contexts w)" "ctx_use (k_contexts w ! a_context ?a) = HasCall"
    using calls_invD(2) [OF assms(1) j] assms(3) by (simp_all add: await_ok_def)
  obtain h where "u_handle (a_awaiter ?a) = Some h"
    using calls_invD(2) [OF assms(1) j] assms(3) by (auto simp: await_ok_def)
  then obtain b effs where b: "unary_handle_event 0 ok (receive_response resp st (a_awaiter ?a)) = Inr (b, effs)"
    by (simp add: unary_handle_event_def receive_response_def)
  let ?b = "?a\<lparr>a_awaiter := b, a_phase := Done\<rparr>" let ?v = "w\<lparr>k_awaits := (k_awaits w)[j := ?b]\<rparr>"
  have same: "map a_context (k_awaits ?v) = map a_context (k_awaits w)" using j by (simp add: same_contexts)
  have all: "list_all (\<lambda>a. a_context a \<noteq> c) (k_awaits ?v) = list_all (\<lambda>a. a_context a \<noteq> c) (k_awaits w)" for c
    unfolding contexts_all same ..
  have "calls_inv ?v"
  proof (rule calls_invI)
    show "call_ok ?v y" if "l < length (k_calls ?v)" "k_calls ?v ! l = Some y" for l y
      using calls_invD(1) [OF assms(1), of l y] that all by (simp add: call_ok_def)
    show "await_ok (k_contexts ?v) (k_awaits ?v ! l)" if "l < length (k_awaits ?v)" for l
      using calls_invD(2) [OF assms(1), of l] that a j by (cases "l = j") (simp_all add: await_ok_def)
    show "distinct (map a_context (k_awaits ?v))" unfolding same using assms(1) by (simp add: calls_inv_def)
  qed (use calls_invD(3) [OF assms(1)] in simp)
  then show ?thesis using a b by (simp add: call_completes_def Let_def)
qed

lemma destroy_keeps:
  assumes "calls_inv w" and i: "i < length (k_calls w)" and u: "k_calls w ! i = Some u"
    and "list_all (\<lambda>a. a_context a = m_context u \<longrightarrow> a_phase a = Done) (k_awaits w)"
  shows "\<exists>v. unary_call_destructor i w = Inr v \<and> calls_inv v"
proof -
  let ?v = "w\<lparr>k_contexts := use_context Destroyed (m_context u) (k_contexts w), k_calls := (k_calls w)[i := None]\<rparr>"
  have "calls_inv ?v"
  proof (rule calls_invI)
    fix l y assume l: "l < length (k_calls ?v)" "k_calls ?v ! l = Some y"
    then have y: "l < length (k_calls w)" "k_calls w ! l = Some y" "l \<noteq> i" by (cases "l = i"; simp)+
    then have "m_context y \<noteq> m_context u" using calls_invD(3) [OF assms(1) y(1) i y(2) u] by blast
    then show "call_ok ?v y" using calls_invD(1) [OF assms(1) y(1,2)] by (simp add: call_ok_def use_context_nth)
  next
    fix l assume "l < length (k_awaits ?v)"
    then have l: "l < length (k_awaits w)" by simp
    have "a_context (k_awaits w ! l) \<noteq> m_context u \<or> a_phase (k_awaits w ! l) = Done"
      using assms(4) l by (auto simp: list_all_length)
    then show "await_ok (k_contexts ?v) (k_awaits ?v ! l)" using calls_invD(2) [OF assms(1) l] by (simp add: await_ok_use)
  next
    show "l = m" if "l < length (k_calls ?v)" "m < length (k_calls ?v)" "k_calls ?v ! l = Some x" "k_calls ?v ! m = Some y"
      "m_context x = m_context y" for l m x y
      using calls_invD(3) [OF assms(1), of l m x y] that by (cases "l = i"; cases "m = i"; simp)
    show "distinct (map a_context (k_awaits ?v))" using assms(1) by (simp add: calls_inv_def)
  qed
  then show ?thesis using u by (simp add: unary_call_destructor_def)
qed

lemma careful_action:
  assumes "calls_inv w" and "action_possible a w" and "action_allowed a w"
  shows "\<exists>v. act_on a w = Inr v \<and> calls_inv v"
proof (cases a)
  case (MakeCall parent stub)
  then show ?thesis
    using new_call_keeps [OF assms(1)] assms(3)
    by (cases parent) (auto simp: unary_call_of_stub_def unary_call_from_server_def)
next
  case (CallOperator d i req resp cq)
  then show ?thesis using operator_keeps [OF assms(1)] assms(2,3) by (auto split: option.splits)
next
  case (SuspendOn j x h)
  then show ?thesis using waiting_keeps [OF assms(1)] assms(2) by simp
next
  case (Completes j ok resp st)
  then show ?thesis using completion_keeps [OF assms(1)] assms(2) by simp
next
  case (DestroyCall i)
  then show ?thesis using destroy_keeps [OF assms(1)] assms(2,3) by (auto split: option.splits)
qed

lemma careful_inv: "careful_step\<^sup>*\<^sup>* no_calls w \<Longrightarrow> calls_inv w"
proof (erule rtranclp_invariant)
  show "calls_inv v" if "calls_inv u" "careful_step u v" for u v
    using that(2)
  proof (rule careful_stepE)
    fix a assume "action_possible a u" "action_allowed a u" "act_on a u = Inr v"
    then show "calls_inv v" using careful_action [OF that(1), of a] by auto
  qed
qed (rule calls_inv_init)

section \<open>The object of a streaming call\<close>

text \<open>
  \<open>m_state\<close> is made with the object, which cannot be moved, and leaves it in the destructor, which hands it to
  itself. \<open>None\<close> is the released pointer.
\<close>

record streaming_call =
  sc_state :: "call_state option"
  sc_stub :: "nat option"
  sc_parent :: "(nat \<times> nat) option"

definition streaming_call_of_stub :: "nat option \<Rightarrow> streaming_call" where
  "streaming_call_of_stub stub = \<lparr>sc_state = Some make_state, sc_stub = stub, sc_parent = None\<rparr>"

definition streaming_call_from_server :: "nat option \<Rightarrow> nat \<Rightarrow> nat \<Rightarrow> streaming_call" where
  "streaming_call_from_server stub ctx opts =
     \<lparr>sc_state = Some make_state, sc_stub = stub, sc_parent = Some (ctx, opts)\<rparr>"

definition streaming_call_of_unique :: "nat option \<Rightarrow> streaming_call" where
  "streaming_call_of_unique stub = streaming_call_of_stub stub"

definition streaming_call_from_server_unique :: "nat option \<Rightarrow> nat \<Rightarrow> nat \<Rightarrow> streaming_call" where
  "streaming_call_from_server_unique stub ctx opts = streaming_call_from_server stub ctx opts"

text \<open>\<open>*m_state->context\<close>: the pointers are dereferenced.\<close>

definition call_context :: "streaming_call \<Rightarrow> ub + unit" where
  "call_context c =
     (case sc_state c of None \<Rightarrow> Inl NullDeref | Some s \<Rightarrow> if has_context s then Inr () else Inl NullDeref)"

definition streaming_call_destructor :: "rpc_method_type \<Rightarrow> streaming_call \<Rightarrow> ub + streaming_call \<times> 'req call_effs" where
  "streaming_call_destructor T c =
     (case sc_state c of
        None \<Rightarrow> Inl NullDeref
      | Some s \<Rightarrow> (case destruct T s of Inl u \<Rightarrow> Inl u | Inr (_, effs) \<Rightarrow> Inr (c\<lparr>sc_state := None\<rparr>, effs)))"

text \<open>
  From construction to destruction \<open>context()\<close> finds the context, whatever the constructor, and the destructor
  hands the state to itself exactly once: a call that was not started is deleted at once.
\<close>

lemma streaming_call_object:
  "c \<in> {streaming_call_of_stub stub, streaming_call_from_server stub ctx opts, streaming_call_of_unique stub,
      streaming_call_from_server_unique stub ctx opts} \<Longrightarrow>
     call_context c = Inr () \<and> sc_stub c = stub \<and>
     streaming_call_destructor T c = Inr (c\<lparr>sc_state := None\<rparr>, [DeleteSelf :: ('req client_op, call_event) eff]) \<and>
     streaming_call_destructor T (c\<lparr>sc_state := None\<rparr>) = (Inl NullDeref :: ub + _ \<times> 'req call_effs)"
  by (auto simp: streaming_call_of_stub_def streaming_call_from_server_def streaming_call_of_unique_def
      streaming_call_from_server_unique_def call_context_def streaming_call_destructor_def make_state_def destruct_def)

section \<open>Properties\<close>

text \<open>
C21: a program that is careful with its unary calls never fails: if no call is made with a null stub, each call
object is called once, and none is destroyed before what waits for it is done, then in every order of the
steps of any number of calls, made new or from a server's context, each possible step succeeds, no two
awaiters share a context, and each object still owns a context that is there, which is used only after
the object was called.
\<close>

theorem unary_calls_safe:
  assumes "careful_step\<^sup>*\<^sup>* no_calls w" and "action_possible a w" and "action_allowed a w"
  shows "(\<exists>v. act_on a w = Inr v) \<and> distinct (map a_context (k_awaits w)) \<and>
    (i < length (k_calls w) \<and> k_calls w ! i = Some u \<longrightarrow> ctx_use (k_contexts w ! m_context u) \<noteq> Destroyed \<and>
       (ctx_use (k_contexts w ! m_context u) = HasCall \<longrightarrow> m_context u \<in> set (map a_context (k_awaits w))))"
proof -
  have inv: "calls_inv w" by (rule careful_inv [OF assms(1)])
  have "ctx_use (k_contexts w ! m_context u) \<noteq> Destroyed \<and>
      (ctx_use (k_contexts w ! m_context u) = HasCall \<longrightarrow> m_context u \<in> set (map a_context (k_awaits w)))"
    if "i < length (k_calls w)" "k_calls w ! i = Some u"
    using calls_invD(1) [OF inv that] by (auto simp: call_ok_def contexts_all)
  then show ?thesis using careful_action [OF inv assms(2,3)] inv by (auto simp: calls_inv_def)
qed

definition ex_call :: "(nat, nat) call_world" where
  "ex_call = unary_call_of_stub (Some 7) no_calls"

lemmas call_object_defs = unary_call_of_stub_def unary_call_from_server_def new_call_def call_operator_def
  call_suspend_def call_completes_def unary_call_destructor_def use_context_def unary_awaiter_def unary_await_suspend_def
  unary_handle_event_def receive_response_def

lemma ex_call_careful: "careful_step\<^sup>*\<^sup>* no_calls ex_call"
  by (rule r_into_rtranclp, rule careful_step.intros [where a = "MakeCall None (Some 7)"]) (simp_all add: ex_call_def)

theorem unary_calls_safe_witness: "\<exists>v. act_on (CallOperator 0 0 5 6 None) ex_call = Inr v"
  by (rule unary_calls_safe [OF ex_call_careful, THEN conjunct1]) (simp_all add: ex_call_def call_object_defs no_calls_def)

text \<open>
Nothing but the program's care keeps a unary call safe: used once and kept until it is done, a call object
ends well, but with a null stub the stub is dereferenced, an object called a second time gives its context
to a second call, and an object destroyed before the call, or while it runs, leaves its awaiter with a
pointer to a context that is gone.
\<close>

theorem unary_calls_misused:
  "(\<exists>w. call_actions [MakeCall parent (Some stub), CallOperator d 0 req resp cq, SuspendOn 0 x h,
       Completes 0 ok r st, DestroyCall 0] no_calls = Inr w \<and>
      unary_await_resume (a_awaiter (k_awaits w ! 0)) = (if ok then st else event_failed)) \<and>
   call_actions [MakeCall parent None, CallOperator d 0 req resp cq, SuspendOn 0 x h] no_calls =
      Inl (CallUndefined NullDeref) \<and>
   call_actions [MakeCall parent (Some stub), CallOperator d 0 req resp cq, SuspendOn 0 x h, Completes 0 ok r st,
       CallOperator d 0 req' resp' cq', SuspendOn 1 x' h'] no_calls = Inl ContextReused \<and>
   call_actions [MakeCall parent (Some stub), CallOperator d 0 req resp cq, DestroyCall 0, SuspendOn 0 x h] no_calls =
      Inl (CallUndefined UseAfterFree) \<and>
   call_actions [MakeCall parent (Some stub), CallOperator d 0 req resp cq, SuspendOn 0 x h, DestroyCall 0,
       Completes 0 ok r st] no_calls = Inl (CallUndefined UseAfterFree)"
proof -
  have m: "act_on (MakeCall parent s) no_calls =
      Inr \<lparr>k_contexts = [\<lparr>ctx_parent = parent, ctx_use = NoCall\<rparr>], k_calls = [Some \<lparr>m_context = 0, m_stub = s\<rparr>],
        k_awaits = []\<rparr>" for s
    by (cases parent) (auto simp: call_object_defs no_calls_def)
  show ?thesis
    by (intro conjI) (simp_all add: m call_object_defs unary_await_resume_def event_failed_def Let_def)
qed

end
