(* ===== verification/Dispatchers.thy ===== *)
theory Dispatchers
  imports Dispatch_Spec
begin

text \<open>
  The dispatchers of the program: \<open>client_cq::push\<close> and \<open>handle_event\<close> of \<open>src/grpc/client_cq.cpp\<close>,
  \<open>server::push\<close> and \<open>handle_event\<close> of \<open>src/grpc/server.cpp\<close>, as the atomic steps of their threads,
  interleaved in any order. A function is an optional callable: \<open>None\<close> is an empty \<open>std::function\<close>.
  How many threads are at which line is counted; the threads are otherwise alike.
\<close>

section \<open>The client queue\<close>

text \<open>
  Besides the members, the number of threads between two lines, and the alarms that were set and have
  not been delivered; \<open>c_pushed\<close> and \<open>c_popped\<close> record what went through the queue.
\<close>

record ('fn, 'q) client_dispatch =
  c_dispatched :: 'q
  c_alarm_set :: bool
  c_alarms :: nat              \<comment> \<open>\<open>m_alarm\<close>: set, its event not delivered\<close>
  c_emplaced :: nat            \<comment> \<open>threads in \<open>push\<close> before \<open>test_and_set\<close>\<close>
  c_setting :: nat             \<comment> \<open>threads in \<open>push\<close> before \<open>m_alarm.Set\<close>\<close>
  c_entered :: nat             \<comment> \<open>threads in \<open>handle_event\<close> before \<open>clear\<close>\<close>
  c_popping :: nat             \<comment> \<open>threads in the loop of \<open>handle_event\<close>\<close>
  c_pushed :: "'fn option list"
  c_popped :: "'fn option list"

definition client_init :: "'q \<Rightarrow> ('fn, 'q) client_dispatch" where
  "client_init empty_q = \<lparr>c_dispatched = empty_q, c_alarm_set = False, c_alarms = 0, c_emplaced = 0,
     c_setting = 0, c_entered = 0, c_popping = 0, c_pushed = [], c_popped = []\<rparr>"

definition client_emplace ::
  "('fn option \<Rightarrow> 'q \<Rightarrow> 'q) \<Rightarrow> 'fn option \<Rightarrow> ('fn, 'q) client_dispatch \<Rightarrow> ('fn, 'q) client_dispatch" where
  "client_emplace emplace fn s =
     s\<lparr>c_dispatched := emplace fn (c_dispatched s), c_emplaced := Suc (c_emplaced s),
       c_pushed := c_pushed s @ [fn]\<rparr>"

definition client_test_and_set :: "('fn, 'q) client_dispatch \<Rightarrow> ('fn, 'q) client_dispatch" where
  "client_test_and_set s =
     (let s' = s\<lparr>c_emplaced := c_emplaced s - 1, c_alarm_set := True\<rparr>
      in if \<not> c_alarm_set s then s'\<lparr>c_setting := Suc (c_setting s)\<rparr> else s')"

definition client_set_alarm :: "('fn, 'q) client_dispatch \<Rightarrow> ('fn, 'q) client_dispatch" where
  "client_set_alarm s = s\<lparr>c_setting := c_setting s - 1, c_alarms := Suc (c_alarms s)\<rparr>"

text \<open>The completion queue delivers the event of an alarm to the worker thread.\<close>

definition client_deliver :: "('fn, 'q) client_dispatch \<Rightarrow> ('fn, 'q) client_dispatch" where
  "client_deliver s = s\<lparr>c_alarms := c_alarms s - 1, c_entered := Suc (c_entered s)\<rparr>"

definition client_clear :: "('fn, 'q) client_dispatch \<Rightarrow> ('fn, 'q) client_dispatch" where
  "client_clear s = s\<lparr>c_alarm_set := False, c_entered := c_entered s - 1, c_popping := Suc (c_popping s)\<rparr>"

definition client_pop ::
  "('q \<Rightarrow> ('fn option \<times> 'q) option) \<Rightarrow> ('fn, 'q) client_dispatch \<Rightarrow> ('fn, 'q) client_dispatch" where
  "client_pop pop s =
     (case pop (c_dispatched s) of
        None \<Rightarrow> s\<lparr>c_popping := c_popping s - 1\<rparr>
      | Some (task, q) \<Rightarrow> s\<lparr>c_dispatched := q, c_popped := c_popped s @ [task]\<rparr>)"

inductive client_step ::
  "('q \<Rightarrow> ('fn option \<times> 'q) option) \<Rightarrow> ('fn, 'q) client_dispatch \<Rightarrow> ('fn, 'q) client_dispatch \<Rightarrow> bool"
  for pop where
  "0 < c_emplaced s \<Longrightarrow> client_step pop s (client_test_and_set s)"
| "0 < c_setting s \<Longrightarrow> client_step pop s (client_set_alarm s)"
| "0 < c_alarms s \<Longrightarrow> client_step pop s (client_deliver s)"
| "0 < c_entered s \<Longrightarrow> client_step pop s (client_clear s)"
| "0 < c_popping s \<Longrightarrow> client_step pop s (client_pop pop s)"

abbreviation "client_reaches empty_q emplace pop s \<equiv>
  (pushes_and_steps (client_emplace emplace) (client_step pop))\<^sup>*\<^sup>* (client_init empty_q) s"

text \<open>\<open>if (*task) (*task)()\<close>: the functions that were called.\<close>

definition executed :: "'fn option list \<Rightarrow> 'fn list" where
  "executed popped = List.map_filter id popped"

definition client_rel ::
  "('q \<Rightarrow> 'fn option list) \<Rightarrow> ('fn, 'q) client_dispatch \<Rightarrow> 'fn option dispatch \<Rightarrow> bool" where
  "client_rel contents s a \<longleftrightarrow>
     contents (c_dispatched s) = d_queue a \<and> c_pushed s = d_pushed a \<and> c_popped s = d_popped a \<and>
     c_emplaced s = d_checks a \<and> c_popping s = d_helpers a \<and>
     c_alarm_set s = (d_token a \<noteq> Free) \<and> d_token a \<noteq> Draining \<and>
     c_setting s = (if d_token a = Arming then 1 else 0) \<and>
     c_alarms s = (if d_token a = Armed then 1 else 0) \<and>
     c_entered s = (if d_token a = Releasing then 1 else 0)"

section \<open>The server\<close>

record ('fn, 'q) server_dispatch =
  s_queue :: 'q                \<comment> \<open>\<open>m_dispatch_queue\<close>\<close>
  s_need_alarm :: bool         \<comment> \<open>\<open>m_dispatch_need_alarm\<close>\<close>
  s_alarms :: nat
  s_alarm_cq :: nat            \<comment> \<open>the queue \<open>m_dispatch_alarm\<close> was last set on\<close>
  s_emplaced :: nat
  s_setting :: nat
  s_draining :: nat            \<comment> \<open>threads in the first loop of \<open>handle_event\<close>\<close>
  s_storing :: nat             \<comment> \<open>threads before \<open>store(true)\<close>\<close>
  s_popping :: nat             \<comment> \<open>threads in the second loop\<close>
  s_pushed :: "'fn option list"
  s_popped :: "'fn option list"

definition server_init :: "'q \<Rightarrow> ('fn, 'q) server_dispatch" where
  "server_init empty_q = \<lparr>s_queue = empty_q, s_need_alarm = True, s_alarms = 0, s_alarm_cq = 0,
     s_emplaced = 0, s_setting = 0, s_draining = 0, s_storing = 0, s_popping = 0,
     s_pushed = [], s_popped = []\<rparr>"

definition server_emplace ::
  "('fn option \<Rightarrow> 'q \<Rightarrow> 'q) \<Rightarrow> 'fn option \<Rightarrow> ('fn, 'q) server_dispatch \<Rightarrow> ('fn, 'q) server_dispatch" where
  "server_emplace emplace fn s =
     s\<lparr>s_queue := emplace fn (s_queue s), s_emplaced := Suc (s_emplaced s), s_pushed := s_pushed s @ [fn]\<rparr>"

definition server_exchange :: "('fn, 'q) server_dispatch \<Rightarrow> ('fn, 'q) server_dispatch" where
  "server_exchange s =
     (let s' = s\<lparr>s_emplaced := s_emplaced s - 1, s_need_alarm := False\<rparr>
      in if s_need_alarm s then s'\<lparr>s_setting := Suc (s_setting s)\<rparr> else s')"

text \<open>The index is reduced modulo the number of queues, which is 0 after \<open>stop\<close>.\<close>

definition server_set_alarm ::
  "nat \<Rightarrow> nat \<Rightarrow> ('fn, 'q) server_dispatch \<Rightarrow> ub + ('fn, 'q) server_dispatch" where
  "server_set_alarm n_cqs cq_idx s =
     (if n_cqs = 0 then Inl DivByZero
      else Inr (s\<lparr>s_setting := s_setting s - 1, s_alarms := Suc (s_alarms s), s_alarm_cq := cq_idx mod n_cqs\<rparr>))"

definition server_deliver :: "('fn, 'q) server_dispatch \<Rightarrow> ('fn, 'q) server_dispatch" where
  "server_deliver s = s\<lparr>s_alarms := s_alarms s - 1, s_draining := Suc (s_draining s)\<rparr>"

definition server_drain ::
  "('q \<Rightarrow> ('fn option \<times> 'q) option) \<Rightarrow> ('fn, 'q) server_dispatch \<Rightarrow> ('fn, 'q) server_dispatch" where
  "server_drain pop s =
     (case pop (s_queue s) of
        None \<Rightarrow> s\<lparr>s_draining := s_draining s - 1, s_storing := Suc (s_storing s)\<rparr>
      | Some (cb, q) \<Rightarrow> s\<lparr>s_queue := q, s_popped := s_popped s @ [cb]\<rparr>)"

definition server_store :: "('fn, 'q) server_dispatch \<Rightarrow> ('fn, 'q) server_dispatch" where
  "server_store s = s\<lparr>s_need_alarm := True, s_storing := s_storing s - 1, s_popping := Suc (s_popping s)\<rparr>"

definition server_pop ::
  "('q \<Rightarrow> ('fn option \<times> 'q) option) \<Rightarrow> ('fn, 'q) server_dispatch \<Rightarrow> ('fn, 'q) server_dispatch" where
  "server_pop pop s =
     (case pop (s_queue s) of
        None \<Rightarrow> s\<lparr>s_popping := s_popping s - 1\<rparr>
      | Some (cb, q) \<Rightarrow> s\<lparr>s_queue := q, s_popped := s_popped s @ [cb]\<rparr>)"

text \<open>\<open>cq_idx\<close> is the one the pushing thread was given; \<open>push(fn)\<close> passes 0.\<close>

inductive server_step ::
  "nat \<Rightarrow> ('q \<Rightarrow> ('fn option \<times> 'q) option) \<Rightarrow> ('fn, 'q) server_dispatch \<Rightarrow> ('fn, 'q) server_dispatch \<Rightarrow> bool"
  for n_cqs pop where
  "0 < s_emplaced s \<Longrightarrow> server_step n_cqs pop s (server_exchange s)"
| "0 < s_setting s \<Longrightarrow> server_set_alarm n_cqs cq_idx s = Inr t \<Longrightarrow> server_step n_cqs pop s t"
| "0 < s_alarms s \<Longrightarrow> server_step n_cqs pop s (server_deliver s)"
| "0 < s_draining s \<Longrightarrow> server_step n_cqs pop s (server_drain pop s)"
| "0 < s_storing s \<Longrightarrow> server_step n_cqs pop s (server_store s)"
| "0 < s_popping s \<Longrightarrow> server_step n_cqs pop s (server_pop pop s)"

abbreviation "server_reaches n_cqs empty_q emplace pop s \<equiv>
  (pushes_and_steps (server_emplace emplace) (server_step n_cqs pop))\<^sup>*\<^sup>* (server_init empty_q) s"

definition server_rel ::
  "nat \<Rightarrow> ('q \<Rightarrow> 'fn option list) \<Rightarrow> ('fn, 'q) server_dispatch \<Rightarrow> 'fn option dispatch \<Rightarrow> bool" where
  "server_rel n_cqs contents s a \<longleftrightarrow>
     contents (s_queue s) = d_queue a \<and> s_pushed s = d_pushed a \<and> s_popped s = d_popped a \<and>
     s_emplaced s = d_checks a \<and> s_popping s = d_helpers a \<and>
     s_need_alarm s = (d_token a = Free) \<and>
     s_setting s = (if d_token a = Arming then 1 else 0) \<and>
     s_alarms s = (if d_token a = Armed then 1 else 0) \<and>
     s_draining s = (if d_token a = Draining then 1 else 0) \<and>
     s_storing s = (if d_token a = Releasing then 1 else 0) \<and> s_alarm_cq s < n_cqs"

section \<open>Both implement the specification\<close>

lemmas client_defs = client_rel_def client_emplace_def client_test_and_set_def client_set_alarm_def
  client_deliver_def client_clear_def client_pop_def

lemmas server_defs = server_rel_def server_emplace_def server_exchange_def server_set_alarm_def
  server_deliver_def server_drain_def server_store_def server_pop_def

inductive_cases client_stepE: "client_step pop s t"
inductive_cases server_stepE: "server_step n_cqs pop s t"

lemma client_progress:
  assumes "client_rel contents s a" and "attended a"
  shows "\<exists>t. client_step pop s t"
proof -
  have "0 < c_emplaced s \<or> 0 < c_setting s \<or> 0 < c_alarms s \<or> 0 < c_entered s \<or> 0 < c_popping s"
    using assms by (cases "d_token a") (auto simp: client_rel_def attended_def)
  then show ?thesis by (blast intro: client_step.intros)
qed

lemma server_progress:
  assumes "server_rel n_cqs contents s a" and "attended a"
  shows "\<exists>t. server_step n_cqs pop s t"
proof -
  have "\<exists>t. server_set_alarm n_cqs 0 s = Inr t"
    using assms(1) by (auto simp: server_rel_def server_set_alarm_def)
  moreover have "0 < s_emplaced s \<or> 0 < s_setting s \<or> 0 < s_alarms s \<or> 0 < s_draining s \<or>
      0 < s_storing s \<or> 0 < s_popping s"
    using assms by (cases "d_token a") (auto simp: server_rel_def attended_def)
  ultimately show ?thesis by (blast intro: server_step.intros)
qed

text \<open>A queue of functions.\<close>

locale function_queue = fifo_queue empty emplace pop contents
  for empty :: 'q and emplace :: "'fn option \<Rightarrow> 'q \<Rightarrow> 'q" and pop and contents
begin

lemma client_simulates:
  assumes "client_rel contents s a" and "client_step pop s t"
  shows "\<exists>b. dispatch_step a b \<and> client_rel contents t b"
  using assms(2)
proof (rule client_stepE)
  assume t: "t = client_test_and_set s" and p: "0 < c_emplaced s"
  then obtain n where n: "d_checks a = Suc n" using assms(1) by (auto simp: client_rel_def gr0_conv_Suc)
  show ?thesis
  proof (cases "d_token a = Free")
    case True
    show ?thesis
      by (rule exI, rule conjI, rule dispatch_step.check_free [OF n True])
         (use assms(1) n True in \<open>simp add: t client_defs\<close>)
  next
    case False
    show ?thesis
      by (rule exI, rule conjI, rule dispatch_step.check_taken [OF n False])
         (use assms(1) n False in \<open>simp add: t client_defs\<close>)
  qed
next
  assume t: "t = client_set_alarm s" and p: "0 < c_setting s"
  then have d: "d_token a = Arming" using assms(1) by (auto simp: client_rel_def split: if_splits)
  show ?thesis
    by (rule exI, rule conjI, rule dispatch_step.arm [OF d])
       (use assms(1) d t in \<open>auto simp: client_defs split: if_splits\<close>)
next
  assume t: "t = client_deliver s" and p: "0 < c_alarms s"
  then have d: "d_token a = Armed" using assms(1) by (auto simp: client_rel_def split: if_splits)
  show ?thesis
    by (rule exI, rule conjI, rule dispatch_step.fire [OF d, of Releasing, simplified])
       (use assms(1) d t in \<open>auto simp: client_defs split: if_splits\<close>)
next
  assume t: "t = client_clear s" and p: "0 < c_entered s"
  then have d: "d_token a = Releasing" using assms(1) by (auto simp: client_rel_def split: if_splits)
  show ?thesis
    by (rule exI, rule conjI, rule dispatch_step.release [OF d])
       (use assms(1) d t in \<open>auto simp: client_defs split: if_splits\<close>)
next
  assume t: "t = client_pop pop s" and p: "0 < c_popping s"
  then obtain n where n: "d_helpers a = Suc n" using assms(1) by (auto simp: client_rel_def gr0_conv_Suc)
  consider "pop (c_dispatched s) = None" "contents (c_dispatched s) = []"
    | f q where "pop (c_dispatched s) = Some (f, q)" "contents (c_dispatched s) = f # contents q"
    by (rule pop_cases)
  then show ?thesis
  proof cases
    case 1
    then have "d_queue a = []" using assms(1) by (simp add: client_rel_def)
    then show ?thesis
      by - (rule exI, rule conjI, rule dispatch_step.leaves [OF n],
        use assms(1) n 1 in \<open>simp_all add: t client_defs\<close>)
  next
    case (2 f q)
    then have a: "d_queue a = f # contents q" "0 < d_helpers a" using assms(1) n by (simp_all add: client_rel_def)
    then have "dispatch_step a (dispatch_pop a)" by (intro dispatch_step.helps) simp_all
    moreover have "client_rel contents t (dispatch_pop a)"
      using assms(1) 2 a by (simp add: t client_defs dispatch_pop_def)
    ultimately show ?thesis by blast
  qed
qed

lemma server_simulates:
  assumes "server_rel n_cqs contents s a" and "server_step n_cqs pop s t"
  shows "\<exists>b. dispatch_step a b \<and> server_rel n_cqs contents t b"
  using assms(2)
proof (rule server_stepE)
  assume t: "t = server_exchange s" and p: "0 < s_emplaced s"
  then obtain n where n: "d_checks a = Suc n" using assms(1) by (auto simp: server_rel_def gr0_conv_Suc)
  show ?thesis
  proof (cases "d_token a = Free")
    case True
    show ?thesis
      by (rule exI, rule conjI, rule dispatch_step.check_free [OF n True])
         (use assms(1) n True in \<open>simp add: t server_defs\<close>)
  next
    case False
    show ?thesis
      by (rule exI, rule conjI, rule dispatch_step.check_taken [OF n False])
         (use assms(1) n False in \<open>simp add: t server_defs\<close>)
  qed
next
  fix cq_idx
  assume t: "server_set_alarm n_cqs cq_idx s = Inr t" and p: "0 < s_setting s"
  then have d: "d_token a = Arming" using assms(1) by (auto simp: server_rel_def split: if_splits)
  show ?thesis
    by (rule exI, rule conjI, rule dispatch_step.arm [OF d])
       (use assms(1) d t in \<open>auto simp: server_defs split: if_splits\<close>)
next
  assume t: "t = server_deliver s" and p: "0 < s_alarms s"
  then have d: "d_token a = Armed" using assms(1) by (auto simp: server_rel_def split: if_splits)
  show ?thesis
    by (rule exI, rule conjI, rule dispatch_step.fire [OF d, of Draining, simplified])
       (use assms(1) d t in \<open>auto simp: server_defs split: if_splits\<close>)
next
  assume t: "t = server_drain pop s" and p: "0 < s_draining s"
  then have d: "d_token a = Draining" using assms(1) by (auto simp: server_rel_def split: if_splits)
  consider "pop (s_queue s) = None" "contents (s_queue s) = []"
    | f q where "pop (s_queue s) = Some (f, q)" "contents (s_queue s) = f # contents q"
    by (rule pop_cases)
  then show ?thesis
  proof cases
    case 1
    then have "d_queue a = []" using assms(1) by (simp add: server_rel_def)
    then show ?thesis
      by - (rule exI, rule conjI, rule dispatch_step.drained [OF d],
        use assms(1) d 1 in \<open>simp_all add: t server_defs\<close>)
  next
    case (2 f q)
    then have a: "d_queue a = f # contents q" using assms(1) by (simp add: server_rel_def)
    then have "dispatch_step a (dispatch_pop a)" using d by (intro dispatch_step.drain) simp_all
    moreover have "server_rel n_cqs contents t (dispatch_pop a)"
      using assms(1) d 2 a by (simp add: t server_defs dispatch_pop_def)
    ultimately show ?thesis by blast
  qed
next
  assume t: "t = server_store s" and p: "0 < s_storing s"
  then have d: "d_token a = Releasing" using assms(1) by (auto simp: server_rel_def split: if_splits)
  show ?thesis
    by (rule exI, rule conjI, rule dispatch_step.release [OF d])
       (use assms(1) d t in \<open>auto simp: server_defs split: if_splits\<close>)
next
  assume t: "t = server_pop pop s" and p: "0 < s_popping s"
  then obtain n where n: "d_helpers a = Suc n" using assms(1) by (auto simp: server_rel_def gr0_conv_Suc)
  consider "pop (s_queue s) = None" "contents (s_queue s) = []"
    | f q where "pop (s_queue s) = Some (f, q)" "contents (s_queue s) = f # contents q"
    by (rule pop_cases)
  then show ?thesis
  proof cases
    case 1
    then have "d_queue a = []" using assms(1) by (simp add: server_rel_def)
    then show ?thesis
      by - (rule exI, rule conjI, rule dispatch_step.leaves [OF n],
        use assms(1) n 1 in \<open>simp_all add: t server_defs\<close>)
  next
    case (2 f q)
    then have a: "d_queue a = f # contents q" "0 < d_helpers a" using assms(1) n by (simp_all add: server_rel_def)
    then have "dispatch_step a (dispatch_pop a)" by (intro dispatch_step.helps) simp_all
    moreover have "server_rel n_cqs contents t (dispatch_pop a)"
      using assms(1) 2 a by (simp add: t server_defs dispatch_pop_def)
    ultimately show ?thesis by blast
  qed
qed

end

text \<open>The laws of a dispatcher, discharged for both.\<close>

sublocale function_queue \<subseteq> client: dispatcher empty emplace pop contents
  "client_init empty" "client_emplace emplace" "client_step pop" "client_rel contents"
proof unfold_locales
  show "client_rel contents (client_init empty) dispatch_init"
    by (simp add: client_rel_def client_init_def dispatch_init_def contents_empty)
  show "client_rel contents s a \<Longrightarrow> client_rel contents (client_emplace emplace f s) (dispatch_push f a)" for s a f
    by (simp add: client_rel_def client_emplace_def dispatch_push_def contents_emplace)
qed (use client_simulates client_progress in blast)+

sublocale function_queue \<subseteq> server: dispatcher empty emplace pop contents
  "server_init empty" "server_emplace emplace" "server_step (Suc n) pop" "server_rel (Suc n) contents" for n
proof unfold_locales
  show "server_rel (Suc n) contents (server_init empty) dispatch_init"
    by (simp add: server_rel_def server_init_def dispatch_init_def contents_empty)
  show "server_rel (Suc n) contents s a \<Longrightarrow>
      server_rel (Suc n) contents (server_emplace emplace f s) (dispatch_push f a)" for s a f
    by (simp add: server_rel_def server_emplace_def dispatch_push_def contents_emplace)
qed (use server_simulates server_progress in blast)+

context function_queue
begin

lemma client_facts:
  "client_reaches empty emplace pop s \<Longrightarrow> \<exists>a. client_rel contents s a \<and> dispatch_inv a"
  "client_reaches empty emplace pop s \<Longrightarrow> runs_bounded (client_step pop) s"
  "client_rel contents s a \<Longrightarrow> dispatch_inv a \<Longrightarrow> \<nexists>t. client_step pop s t \<Longrightarrow>
     d_queue a = [] \<and> d_popped a = d_pushed a"
  using client.reachable_rel client.runs_end client.stuck_is_done by blast+

lemma server_facts:
  "server_reaches (Suc n) empty emplace pop s \<Longrightarrow> \<exists>a. server_rel (Suc n) contents s a \<and> dispatch_inv a"
  "server_reaches (Suc n) empty emplace pop s \<Longrightarrow> runs_bounded (server_step (Suc n) pop) s"
  "server_rel (Suc n) contents s a \<Longrightarrow> dispatch_inv a \<Longrightarrow> \<nexists>t. server_step (Suc n) pop s t \<Longrightarrow>
     d_queue a = [] \<and> d_popped a = d_pushed a"
  using server.reachable_rel server.runs_end server.stuck_is_done by blast+

end

interpretation list_functions: function_queue "[] :: 'fn option list" "\<lambda>f q. q @ [f]" list_pop id
  by unfold_locales

section \<open>Properties\<close>

text \<open>Two functions pushed, the second one empty, on a queue that is a list.\<close>

abbreviation list_emplace :: "'f \<Rightarrow> 'f list \<Rightarrow> 'f list" where
  "list_emplace \<equiv> \<lambda>f q. q @ [f]"

definition ex_client :: "(nat, nat option list) client_dispatch" where
  "ex_client = client_emplace list_emplace None (client_emplace list_emplace (Some 5) (client_init []))"

definition ex_server :: "(nat, nat option list) server_dispatch" where
  "ex_server = server_emplace list_emplace None (server_emplace list_emplace (Some 5) (server_init []))"

lemma list_functions_queue: "function_queue [] list_emplace list_pop (id :: nat option list \<Rightarrow> _)"
  by unfold_locales

lemma ex_client_reached: "client_reaches [] list_emplace list_pop ex_client"
  unfolding ex_client_def
  by (rule converse_rtranclp_into_rtranclp, unfold pushes_and_steps_def, rule disjI2, rule exI, rule refl,
      rule r_into_rtranclp, blast)

lemma ex_server_reached: "server_reaches (Suc 1) [] list_emplace list_pop ex_server"
  unfolding ex_server_def
  by (rule converse_rtranclp_into_rtranclp, unfold pushes_and_steps_def, rule disjI2, rule exI, rule refl,
      rule r_into_rtranclp, blast)

text \<open>
The client queue loses and repeats nothing: in every reachable state, whatever threads push and
however their steps interleave with those of the worker, the functions pushed so far are those taken
out, in the order of the pushes, followed by those still queued; and the alarm is set at most once
before its event is delivered and handled, the flag being exactly the right to set it.
\<close>

theorem client_queue_in_order:
  assumes "function_queue empty_q emplace pop contents" and "client_reaches empty_q emplace pop s"
  shows "c_pushed s = c_popped s @ contents (c_dispatched s) \<and>
         c_setting s + c_alarms s + c_entered s = (if c_alarm_set s then 1 else 0)"
proof -
  obtain a where "client_rel contents s a" "dispatch_inv a"
    using function_queue.client_facts(1) [OF assms] by blast
  then show ?thesis by (cases "d_token a") (simp_all add: client_rel_def dispatch_inv_def)
qed

theorem client_queue_in_order_witness:
  "c_pushed ex_client = c_popped ex_client @ id (c_dispatched ex_client) \<and>
   c_setting ex_client + c_alarms ex_client + c_entered ex_client = (if c_alarm_set ex_client then 1 else 0)"
  by (rule client_queue_in_order [OF list_functions_queue ex_client_reached])

text \<open>
C8: no wake-up of the client queue is lost: from every reachable state, if nobody pushes any more,
every run ends, and as long as it has not ended some thread can go on; when none can, every function
ever pushed has been taken out, in order, and the non-empty ones were called.
\<close>

theorem client_queue_wakes_up:
  assumes "function_queue empty_q emplace pop contents" and "client_reaches empty_q emplace pop s"
  shows "runs_bounded (client_step pop) s \<and>
         ((\<exists>t. client_step pop s t) \<or>
          contents (c_dispatched s) = [] \<and> executed (c_popped s) = executed (c_pushed s))"
proof -
  obtain a where a: "client_rel contents s a" "dispatch_inv a"
    using function_queue.client_facts(1) [OF assms] by blast
  then show ?thesis
    using function_queue.client_facts(2) [OF assms] function_queue.client_facts(3) [OF assms(1) a]
    by (auto simp: client_rel_def)
qed

theorem client_queue_wakes_up_witness:
  "runs_bounded (client_step list_pop) ex_client \<and>
   ((\<exists>t. client_step list_pop ex_client t) \<or>
    id (c_dispatched ex_client) = [] \<and> executed (c_popped ex_client) = executed (c_pushed ex_client))"
  by (rule client_queue_wakes_up [OF list_functions_queue ex_client_reached])

text \<open>
The server's dispatch queue, drained by several workers and woken through any of its completion
queues, loses and repeats nothing and keeps the order of the pushes, the alarm is set at most once
before it is handled, and always on one of the server's queues.
\<close>

theorem server_queue_in_order:
  assumes "function_queue empty_q emplace pop contents"
    and "server_reaches (Suc n) empty_q emplace pop s"
  shows "s_pushed s = s_popped s @ contents (s_queue s) \<and>
         s_setting s + s_alarms s + s_draining s + s_storing s = (if s_need_alarm s then 0 else 1) \<and>
         s_alarm_cq s < Suc n"
proof -
  obtain a where "server_rel (Suc n) contents s a" "dispatch_inv a"
    using function_queue.server_facts(1) [OF assms] by blast
  then show ?thesis by (cases "d_token a") (simp_all add: server_rel_def dispatch_inv_def)
qed

theorem server_queue_in_order_witness:
  "s_pushed ex_server = s_popped ex_server @ id (s_queue ex_server) \<and>
   s_setting ex_server + s_alarms ex_server + s_draining ex_server + s_storing ex_server =
     (if s_need_alarm ex_server then 0 else 1) \<and> s_alarm_cq ex_server < Suc 1"
  by (rule server_queue_in_order [OF list_functions_queue ex_server_reached])

text \<open>
C7: no wake-up of the server is lost: the second loop of \<open>handle_event\<close>, after the flag was set again,
catches what was pushed while the flag was still cleared. Without further pushes every run ends, and
when no thread can go on every function pushed has been taken out, in order.
\<close>

theorem server_queue_wakes_up:
  assumes "function_queue empty_q emplace pop contents"
    and "server_reaches (Suc n) empty_q emplace pop s"
  shows "runs_bounded (server_step (Suc n) pop) s \<and>
         ((\<exists>t. server_step (Suc n) pop s t) \<or>
          contents (s_queue s) = [] \<and> executed (s_popped s) = executed (s_pushed s))"
proof -
  obtain a where a: "server_rel (Suc n) contents s a" "dispatch_inv a"
    using function_queue.server_facts(1) [OF assms] by blast
  then show ?thesis
    using function_queue.server_facts(2) [OF assms] function_queue.server_facts(3) [OF assms(1) a]
    by (auto simp: server_rel_def)
qed

theorem server_queue_wakes_up_witness:
  "runs_bounded (server_step (Suc 1) list_pop) ex_server \<and>
   ((\<exists>t. server_step (Suc 1) list_pop ex_server t) \<or>
    id (s_queue ex_server) = [] \<and> executed (s_popped ex_server) = executed (s_pushed ex_server))"
  by (rule server_queue_wakes_up [OF list_functions_queue ex_server_reached])

end
