(* ===== verification/Handler_Runs.thy ===== *)
theory Handler_Runs
  imports Dispatchers
begin

text \<open>
  The handlers of the two dispatchers from the call to the return, with the functions they run. A function
  may push others, may throw, and need not let the handler come to an end; the handlers are
  \<open>noexcept\<close>. \<open>src/grpc/client_cq.cpp\<close> and \<open>src/grpc/server.cpp\<close>.
\<close>

section \<open>The loop of a handler\<close>

text \<open>
  What running a function does, in a world of type \<open>'w\<close>: it changes the world, pushes functions to the
  dispatcher that runs it, and returns or throws.
\<close>

type_synonym ('fn, 'w) runner = "'fn \<Rightarrow> 'w \<Rightarrow> 'w \<times> 'fn option list \<times> bool"

text \<open>An exception that leaves a \<open>noexcept\<close> function terminates the program.\<close>

datatype handler_end = Returns | Terminates | Undefined ub

text \<open>
  All three loops have the shape of this one: take a function out, leave if there was none, call it if
  it is not empty. \<open>next_fn\<close> is what the pop returns, \<open>popped\<close> the state after it. \<open>None\<close>: the loop does not
  come to an end.
\<close>

partial_function (option) handler_loop ::
  "('s \<Rightarrow> 'fn option option) \<Rightarrow> ('s \<Rightarrow> 's) \<Rightarrow> ('fn option list \<Rightarrow> 's \<Rightarrow> ub + 's) \<Rightarrow> ('fn, 'w) runner \<Rightarrow> 'w \<Rightarrow> 's \<Rightarrow>
     (handler_end \<times> 'w \<times> 's) option" where
  "handler_loop next_fn popped push_all run w s =
     (case next_fn s of
        None \<Rightarrow> Some (Returns, w, popped s)
      | Some cb \<Rightarrow>
          (case cb of
             None \<Rightarrow> handler_loop next_fn popped push_all run w (popped s)
           | Some f \<Rightarrow>
               (case run f w of (w', fns, throws) \<Rightarrow>
                  (case push_all fns (popped s) of
                     Inl u \<Rightarrow> Some (Undefined u, w', popped s)
                   | Inr s' \<Rightarrow>
                       if throws then Some (Terminates, w', s')
                       else handler_loop next_fn popped push_all run w' s'))))"

section \<open>The two handlers\<close>

text \<open>The whole of \<open>push\<close>, by a thread that is not interrupted.\<close>

definition client_push ::
  "('fn option \<Rightarrow> 'q \<Rightarrow> 'q) \<Rightarrow> 'fn option \<Rightarrow> ('fn, 'q) client_dispatch \<Rightarrow> ('fn, 'q) client_dispatch" where
  "client_push emplace fn s =
     (let s1 = client_emplace emplace fn s; s2 = client_test_and_set s1
      in if \<not> c_alarm_set s1 then client_set_alarm s2 else s2)"

definition server_push ::
  "nat \<Rightarrow> ('fn option \<Rightarrow> 'q \<Rightarrow> 'q) \<Rightarrow> 'fn option \<Rightarrow> nat \<Rightarrow> ('fn, 'q) server_dispatch \<Rightarrow>
     ub + ('fn, 'q) server_dispatch" where
  "server_push n_cqs emplace fn cq_idx s =
     (let s1 = server_emplace emplace fn s; s2 = server_exchange s1
      in if s_need_alarm s1 then server_set_alarm n_cqs cq_idx s2 else Inr s2)"

text \<open>\<open>push(fn)\<close> passes the index 0.\<close>

fun server_pushes ::
  "nat \<Rightarrow> ('fn option \<Rightarrow> 'q \<Rightarrow> 'q) \<Rightarrow> 'fn option list \<Rightarrow> ('fn, 'q) server_dispatch \<Rightarrow>
     ub + ('fn, 'q) server_dispatch" where
  "server_pushes n_cqs emplace [] s = Inr s"
| "server_pushes n_cqs emplace (fn # fns) s =
     (case server_push n_cqs emplace fn 0 s of Inl u \<Rightarrow> Inl u | Inr s \<Rightarrow> server_pushes n_cqs emplace fns s)"

definition client_handle_event where
  "client_handle_event run emplace pop w s =
     handler_loop (\<lambda>s. map_option fst (pop (c_dispatched s))) (client_pop pop)
       (\<lambda>fns s. Inr (fold (client_push emplace) fns s)) run w (client_clear s)"

text \<open>
  The handler of the server, while other threads push the functions \<open>others\<close> after its first loop has found
  the queue empty and before it has stored the flag.
\<close>

definition server_handle_event_during where
  "server_handle_event_during n_cqs others run emplace pop w s =
     (case handler_loop (\<lambda>s. map_option fst (pop (s_queue s))) (server_drain pop) (server_pushes n_cqs emplace) run w s of
        None \<Rightarrow> None
      | Some (Returns, w, s) \<Rightarrow>
          (case server_pushes n_cqs emplace others s of
             Inl u \<Rightarrow> Some (Undefined u, w, s)
           | Inr s \<Rightarrow> handler_loop (\<lambda>s. map_option fst (pop (s_queue s))) (server_pop pop) (server_pushes n_cqs emplace) run w
               (server_store s))
      | Some r \<Rightarrow> Some r)"

definition server_handle_event where
  "server_handle_event n_cqs = server_handle_event_during n_cqs []"

lemma server_handle_event_alone:
  "server_handle_event n_cqs run emplace pop w s =
     (case handler_loop (\<lambda>s. map_option fst (pop (s_queue s))) (server_drain pop) (server_pushes n_cqs emplace) run w s of
        None \<Rightarrow> None
      | Some (Returns, w, s) \<Rightarrow>
          handler_loop (\<lambda>s. map_option fst (pop (s_queue s))) (server_pop pop) (server_pushes n_cqs emplace) run w
            (server_store s)
      | Some r \<Rightarrow> Some r)"
  by (simp add: server_handle_event_def server_handle_event_during_def split: option.split prod.split handler_end.split)

section \<open>The reference: a list of functions\<close>

text \<open>
  What a dispatcher is to do with the functions that wait, \<open>fst qp\<close>: one after the other is taken out and
  added to \<open>snd qp\<close>, an empty one is skipped, what a function pushes waits behind the others, and the first
  exception ends the program.
\<close>

partial_function (option) run_all ::
  "('fn, 'w) runner \<Rightarrow> 'w \<Rightarrow> 'fn option list \<times> 'fn option list \<Rightarrow>
     (handler_end \<times> 'w \<times> 'fn option list \<times> 'fn option list) option" where
  "run_all run w qp =
     (case fst qp of
        [] \<Rightarrow> Some (Returns, w, [], snd qp)
      | None # q \<Rightarrow> run_all run w (q, snd qp @ [None])
      | Some f # q \<Rightarrow>
          (case run f w of (w', fns, throws) \<Rightarrow>
             if throws then Some (Terminates, w', q @ fns, snd qp @ [Some f])
             else run_all run w' (q @ fns, snd qp @ [Some f])))"

lemma run_all_simps:
  "run_all run w ([], p) = Some (Returns, w, [], p)"
  "run_all run w (None # q, p) = run_all run w (q, p @ [None])"
  "run_all run w (Some f # q, p) = (case run f w of (w', fns, throws) \<Rightarrow>
     if throws then Some (Terminates, w', q @ fns, p @ [Some f])
     else run_all run w' (q @ fns, p @ [Some f]))"
  by (subst run_all.simps, simp split: prod.split)+

text \<open>Functions that others push once all have run are run as well.\<close>

definition run_all_during ::
  "'fn option list \<Rightarrow> ('fn, 'w) runner \<Rightarrow> 'w \<Rightarrow> 'fn option list \<times> 'fn option list \<Rightarrow>
     (handler_end \<times> 'w \<times> 'fn option list \<times> 'fn option list) option" where
  "run_all_during others run w qp =
     (case run_all run w qp of Some (Returns, w', q, p) \<Rightarrow> run_all run w' (q @ others, p) | r \<Rightarrow> r)"

text \<open>The loop of the handlers on a plain list.\<close>

abbreviation list_next :: "'fn option list \<times> 'fn option list \<Rightarrow> 'fn option option" where
  "list_next \<equiv> \<lambda>(q, p). case q of [] \<Rightarrow> None | f # _ \<Rightarrow> Some f"

abbreviation list_taken :: "'fn option list \<times> 'fn option list \<Rightarrow> 'fn option list \<times> 'fn option list" where
  "list_taken \<equiv> \<lambda>(q, p). case q of [] \<Rightarrow> ([], p) | f # q \<Rightarrow> (q, p @ [f])"

abbreviation list_pushes ::
  "'fn option list \<Rightarrow> 'fn option list \<times> 'fn option list \<Rightarrow> ub + 'fn option list \<times> 'fn option list" where
  "list_pushes \<equiv> \<lambda>fns (q, p). Inr (q @ fns, p)"

abbreviation list_loop ::
  "('fn, 'w) runner \<Rightarrow> 'w \<Rightarrow> 'fn option list \<times> 'fn option list \<Rightarrow>
     (handler_end \<times> 'w \<times> 'fn option list \<times> 'fn option list) option" where
  "list_loop \<equiv> handler_loop list_next list_taken list_pushes"

lemma list_loop_simps:
  "list_loop run w ([], p) = Some (Returns, w, [], p)"
  "list_loop run w (None # q, p) = list_loop run w (q, p @ [None])"
  "list_loop run w (Some f # q, p) = (case run f w of (w', fns, throws) \<Rightarrow>
     if throws then Some (Terminates, w', q @ fns, p @ [Some f])
     else list_loop run w' (q @ fns, p @ [Some f]))"
  by (subst handler_loop.simps, simp split: prod.split)+

lemma run_all_in_loop:
  assumes "run_all run w qp = Some r"
  shows "list_loop run w qp = Some r"
proof (rule run_all.raw_induct [where P = "\<lambda>run w qp r. list_loop run w qp = Some r", OF _ assms])
  fix loop run w qp r
  assume IH: "\<And>run w qp r. loop run w qp = Some r \<Longrightarrow> list_loop run w qp = Some r"
    and ret: "(case fst qp of [] \<Rightarrow> Some (Returns, w, [], snd qp)
      | None # q \<Rightarrow> loop run w (q, snd qp @ [None])
      | Some f # q \<Rightarrow> (case run f w of (w', fns, throws) \<Rightarrow>
          if throws then Some (Terminates, w', q @ fns, snd qp @ [Some f])
          else loop run w' (q @ fns, snd qp @ [Some f]))) = Some r"
  obtain q p where qp: "qp = (q, p)" by (cases qp)
  show "list_loop run w qp = Some r"
  proof (cases q)
    case Nil
    with ret qp show ?thesis by (simp add: list_loop_simps)
  next
    case (Cons cb rest)
    with ret qp IH show ?thesis
      by (cases cb) (auto simp: list_loop_simps split: prod.splits if_splits)
  qed
qed

lemma loop_in_run_all:
  assumes "handler_loop next_fn popped push_all run w qp = Some r"
  shows "next_fn = list_next \<longrightarrow> popped = list_taken \<longrightarrow> push_all = list_pushes \<longrightarrow> run_all run w qp = Some r"
proof (rule handler_loop.raw_induct [where P = "\<lambda>next_fn popped push_all run w qp r.
    next_fn = list_next \<longrightarrow> popped = list_taken \<longrightarrow> push_all = list_pushes \<longrightarrow> run_all run w qp = Some r", OF _ assms],
    intro impI)
  fix loop next_fn popped push_all run w qp r
  assume IH: "\<And>next_fn popped push_all run w qp r. loop next_fn popped push_all run w qp = Some r \<Longrightarrow>
      next_fn = list_next \<longrightarrow> popped = list_taken \<longrightarrow> push_all = list_pushes \<longrightarrow> run_all run w qp = Some r"
    and ret: "(case next_fn qp of None \<Rightarrow> Some (Returns, w, popped qp)
      | Some None \<Rightarrow> loop next_fn popped push_all run w (popped qp)
      | Some (Some f) \<Rightarrow> (case run f w of (w', fns, throws) \<Rightarrow>
          (case push_all fns (popped qp) of Inl u \<Rightarrow> Some (Undefined u, w', popped qp)
           | Inr s' \<Rightarrow> if throws then Some (Terminates, w', s') else loop next_fn popped push_all run w' s'))) = Some r"
    and eqs: "next_fn = list_next" "popped = list_taken" "push_all = list_pushes"
  note IH = IH [rule_format, OF _ refl refl refl]
  obtain q p where qp: "qp = (q, p)" by (cases qp)
  show "run_all run w qp = Some r"
  proof (cases q)
    case Nil
    with ret eqs qp show ?thesis by (simp add: run_all_simps)
  next
    case (Cons cb rest)
    with ret eqs qp IH show ?thesis
      by (cases cb) (auto simp: run_all_simps split: prod.splits if_splits)
  qed
qed

lemma run_all_loop: "run_all run w qp = list_loop run w qp"
proof (cases "list_loop run w qp")
  case None
  then show ?thesis using run_all_in_loop [of run w qp] by (cases "run_all run w qp") simp_all
qed (use loop_in_run_all [of list_next list_taken list_pushes run w qp] in simp)

section \<open>Loops that do the same\<close>

text \<open>
  Two loops whose queues hold the same functions run the same functions: if one of them ends, so does the
  other, in the same way.
\<close>

definition same_end :: "('s \<Rightarrow> 't \<Rightarrow> bool) \<Rightarrow> handler_end \<times> 'w \<times> 's \<Rightarrow> handler_end \<times> 'w \<times> 't \<Rightarrow> bool" where
  "same_end rel x y \<longleftrightarrow> fst x = fst y \<and> fst (snd x) = fst (snd y) \<and> rel (snd (snd x)) (snd (snd y))"

lemma loop_follows:
  assumes nexts: "\<And>s t. rel s t \<Longrightarrow> next_s s = next_t t"
    and pops: "\<And>s t. rel s t \<Longrightarrow> rel (pop_s s) (pop_t t)"
    and pushes: "\<And>s t fns. rel s t \<Longrightarrow> \<exists>s' t'. push_s fns s = Inr s' \<and> push_t fns t = Inr t' \<and> rel s' t'"
    and ret: "handler_loop next_s pop_s push_s run w s = Some r" and "rel s t"
  shows "\<exists>r'. handler_loop next_t pop_t push_t run w t = Some r' \<and> same_end rel r r'"
proof -
  let ?goal = "\<lambda>run w s r. \<forall>t. rel s t \<longrightarrow>
    (\<exists>r'. handler_loop next_t pop_t push_t run w t = Some r' \<and> same_end rel r r')"
  have "next_s = next_s \<longrightarrow> pop_s = pop_s \<longrightarrow> push_s = push_s \<longrightarrow> ?goal run w s r"
  proof (rule handler_loop.raw_induct [where P = "\<lambda>next_fn popped push_all run w s r.
      next_fn = next_s \<longrightarrow> popped = pop_s \<longrightarrow> push_all = push_s \<longrightarrow> ?goal run w s r", OF _ ret], intro impI allI)
    fix loop next_fn popped push_all run w s r t
    assume IH: "\<And>next_fn popped push_all run w s r. loop next_fn popped push_all run w s = Some r \<Longrightarrow>
        next_fn = next_s \<longrightarrow> popped = pop_s \<longrightarrow> push_all = push_s \<longrightarrow> ?goal run w s r"
      and ret: "(case next_fn s of None \<Rightarrow> Some (Returns, w, popped s)
        | Some None \<Rightarrow> loop next_fn popped push_all run w (popped s)
        | Some (Some f) \<Rightarrow> (case run f w of (w', fns, throws) \<Rightarrow>
            (case push_all fns (popped s) of Inl u \<Rightarrow> Some (Undefined u, w', popped s)
             | Inr s' \<Rightarrow> if throws then Some (Terminates, w', s') else loop next_fn popped push_all run w' s'))) = Some r"
      and eqs: "next_fn = next_s" "popped = pop_s" "push_all = push_s" and rel: "rel s t"
    note IH = IH [rule_format, OF _ refl refl refl]
    show "\<exists>r'. handler_loop next_t pop_t push_t run w t = Some r' \<and> same_end rel r r'"
    proof (cases "next_s s")
      case None
      then show ?thesis
        using ret eqs nexts [OF rel] pops [OF rel] by (auto simp: handler_loop.simps same_end_def)
    next
      case (Some cb)
      note cb = Some
      show ?thesis
      proof (cases cb)
        case None
        then have "loop next_s pop_s push_s run w (pop_s s) = Some r" using ret eqs cb by simp
        moreover have "next_t t = Some None" using nexts [OF rel] cb None by simp
        then have "handler_loop next_t pop_t push_t run w t = handler_loop next_t pop_t push_t run w (pop_t t)"
          by (subst handler_loop.simps) simp
        ultimately show ?thesis using IH pops [OF rel] by simp
      next
        case (Some f)
        obtain w' fns throws where run: "run f w = (w', fns, throws)" by (cases "run f w")
        obtain s' t' where p: "push_s fns (pop_s s) = Inr s'" "push_t fns (pop_t t) = Inr t'" "rel s' t'"
          using pushes [OF pops [OF rel]] by blast
        have "next_t t = Some (Some f)" using nexts [OF rel] cb Some by simp
        then have unfold: "handler_loop next_t pop_t push_t run w t =
            (if throws then Some (Terminates, w', t') else handler_loop next_t pop_t push_t run w' t')"
          using run p(2) by (subst handler_loop.simps) simp
        show ?thesis
        proof (cases throws)
          case True
          then show ?thesis using ret eqs cb Some run p by (auto simp: unfold same_end_def)
        next
          case False
          then have "loop next_s pop_s push_s run w' s' = Some r" using ret eqs cb Some run p(1) by simp
          from IH [OF this p(3)] show ?thesis using False by (simp add: unfold)
        qed
      qed
    qed
  qed
  with \<open>rel s t\<close> show ?thesis by blast
qed

text \<open>What holds in every round of a loop, and what then holds where it ends.\<close>

lemma loop_keeps:
  assumes ret: "handler_loop next_fn popped push_all run w s = Some r" and "I s"
    and skip: "\<And>s. I s \<Longrightarrow> next_fn s = Some None \<Longrightarrow> I (popped s)"
    and call: "\<And>s f w w' fns throws s'. I s \<Longrightarrow> next_fn s = Some (Some f) \<Longrightarrow> run f w = (w', fns, throws) \<Longrightarrow>
      push_all fns (popped s) = Inr s' \<Longrightarrow> I s'"
    and leave: "\<And>s. I s \<Longrightarrow> next_fn s = None \<Longrightarrow> E Returns (popped s)"
    and throw: "\<And>s f w. I s \<Longrightarrow> snd (snd (run f w)) \<Longrightarrow> E Terminates s"
    and undef: "\<And>s f fns u. I s \<Longrightarrow> next_fn s = Some (Some f) \<Longrightarrow> push_all fns (popped s) = Inl u \<Longrightarrow>
      E (Undefined u) (popped s)"
  shows "E (fst r) (snd (snd r))"
proof -
  let ?goal = "\<lambda>next_fn' popped' push_all' run' s r. next_fn' = next_fn \<longrightarrow> popped' = popped \<longrightarrow>
    push_all' = push_all \<longrightarrow> run' = run \<longrightarrow> I s \<longrightarrow> E (fst r) (snd (snd r))"
  have "?goal next_fn popped push_all run s r"
  proof (rule handler_loop.raw_induct [where P = "\<lambda>next_fn popped push_all run w s r.
      ?goal next_fn popped push_all run s r", OF _ ret], intro impI)
    fix loop next_fn' popped' push_all' run' w s r
    assume IH: "\<And>next_fn' popped' push_all' run' w s r. loop next_fn' popped' push_all' run' w s = Some r \<Longrightarrow>
        ?goal next_fn' popped' push_all' run' s r"
      and ret: "(case next_fn' s of None \<Rightarrow> Some (Returns, w, popped' s)
        | Some None \<Rightarrow> loop next_fn' popped' push_all' run' w (popped' s)
        | Some (Some f) \<Rightarrow> (case run' f w of (w', fns, throws) \<Rightarrow>
            (case push_all' fns (popped' s) of Inl u \<Rightarrow> Some (Undefined u, w', popped' s)
             | Inr s' \<Rightarrow> if throws then Some (Terminates, w', s')
                 else loop next_fn' popped' push_all' run' w' s'))) = Some r"
      and eqs: "next_fn' = next_fn" "popped' = popped" "push_all' = push_all" "run' = run" and I: "I s"
    note IH = IH [rule_format, OF _ refl refl refl refl]
    show "E (fst r) (snd (snd r))"
    proof (cases "next_fn s")
      case None
      then show ?thesis using ret eqs leave [OF I] by auto
    next
      case (Some cb)
      note cb = Some
      show ?thesis
      proof (cases cb)
        case None
        then show ?thesis using ret eqs cb IH skip [OF I] by simp
      next
        case (Some f)
        note cb = cb [unfolded Some]
        obtain w' fns throws where run: "run f w = (w', fns, throws)" by (cases "run f w")
        show ?thesis
        proof (cases "push_all fns (popped s)")
          case (Inl u)
          then show ?thesis using ret eqs cb run undef [OF I cb Inl] by auto
        next
          case (Inr s')
          then show ?thesis
            using ret eqs cb run call [OF I cb run Inr] IH throw [of s' f w] by (auto split: if_splits)
        qed
      qed
    qed
  qed
  with \<open>I s\<close> show ?thesis by simp
qed

section \<open>The handlers and the list\<close>

definition on_list :: "('s \<Rightarrow> 'q) \<Rightarrow> ('q \<Rightarrow> 'fn option list) \<Rightarrow> ('s \<Rightarrow> 'fn option list) \<Rightarrow>
     handler_end \<times> 'w \<times> 's \<Rightarrow> handler_end \<times> 'w \<times> 'fn option list \<times> 'fn option list" where
  "on_list queue contents popped = (\<lambda>r. case r of (e, w, s) \<Rightarrow> (e, w, contents (queue s), popped s))"

lemma loop_is_run_all:
  fixes abs :: "'s \<Rightarrow> 'fn option list \<times> 'fn option list"
  assumes nexts: "\<And>s. next_s s = (case fst (abs s) of [] \<Rightarrow> None | f # _ \<Rightarrow> Some f)"
    and pops: "\<And>s. abs (pop_s s) = (case abs s of ([], p) \<Rightarrow> ([], p) | (f # q, p) \<Rightarrow> (q, p @ [f]))"
    and pushes: "\<And>s fns. \<exists>s'. push_s fns s = Inr s' \<and> abs s' = (fst (abs s) @ fns, snd (abs s))"
  shows "map_option (\<lambda>(e, w, s). (e, w, abs s)) (handler_loop next_s pop_s push_s run w s) = run_all run w (abs s)"
proof -
  let ?loop = "handler_loop next_s pop_s push_s run w s"
  let ?next = "\<lambda>(q :: 'fn option list, p :: 'fn option list). case q of [] \<Rightarrow> None | f # _ \<Rightarrow> Some f"
  let ?pop = "\<lambda>(q :: 'fn option list, p). case q of [] \<Rightarrow> ([], p) | f # q \<Rightarrow> (q, p @ [f])"
  let ?push = "\<lambda>fns (q :: 'fn option list, p :: 'fn option list). Inr (q @ fns, p)"
  have same: "next_s s = ?next (abs s)" "abs (pop_s s) = ?pop (abs s)" for s
    using nexts [of s] pops [of s] by (auto split: prod.splits list.splits)
  have push: "\<exists>s'. push_s fns s = Inr s' \<and> ?push fns (abs s) = Inr (abs s')" for fns s
  proof -
    obtain s' where "push_s fns s = Inr s'" "abs s' = (fst (abs s) @ fns, snd (abs s))" using pushes by blast
    then show ?thesis by (cases "abs s") auto
  qed
  have forwards: "\<exists>r'. run_all run w (abs s) = Some r' \<and> same_end (\<lambda>s t. t = abs s) r r'" if "?loop = Some r" for r
    unfolding run_all_loop
    by (rule loop_follows [of "\<lambda>s t. t = abs s" next_s ?next pop_s ?pop push_s ?push, OF _ _ _ that])
       (simp_all only: same push, metis push)
  have backwards: "\<exists>r'. ?loop = Some r' \<and> same_end (\<lambda>t s. t = abs s) r r'" if "run_all run w (abs s) = Some r" for r
    by (rule loop_follows [of "\<lambda>t s. t = abs s" ?next next_s ?pop pop_s ?push push_s, OF _ _ _ that [unfolded run_all_loop]])
       (simp_all only: same push, metis push)
  show ?thesis
  proof (cases ?loop)
    case None
    then show ?thesis using backwards by (cases "run_all run w (abs s)") auto
  next
    case (Some r)
    then show ?thesis using forwards [OF Some] by (auto simp: same_end_def split: prod.splits)
  qed
qed

lemma run_all_keeps:
  assumes "run_all run w t = Some (e, w', t')" and "\<not> e = Terminates"
  shows "e = Returns \<and> fst t' = []"
proof -
  have "(\<lambda>e t. e = Terminates \<or> e = Returns \<and> fst t = []) (fst (e, w', t')) (snd (snd (e, w', t')))"
    by (rule loop_keeps [OF assms(1) [unfolded run_all_loop], where I = "\<lambda>_. True"]) (auto split: list.splits)
  with assms(2) show ?thesis by simp
qed

lemma client_pushed:
  "c_popped (fold (client_push emplace) fns s) = c_popped s"
  "c_popping (fold (client_push emplace) fns s) = c_popping s"
  by (induction fns arbitrary: s)
     (simp_all add: client_push_def client_emplace_def client_test_and_set_def client_set_alarm_def Let_def)

lemma server_push_total:
  "\<exists>t. server_push (Suc n) emplace fn i s = Inr t \<and> s_queue t = emplace fn (s_queue s) \<and>
     s_popped t = s_popped s \<and> s_draining t = s_draining s \<and> s_popping t = s_popping s"
  by (simp add: server_push_def server_emplace_def server_exchange_def server_set_alarm_def Let_def)

context function_queue
begin

lemma client_push_contents: "contents (c_dispatched (fold (client_push emplace) fns s)) = contents (c_dispatched s) @ fns"
  by (induction fns arbitrary: s)
     (simp_all add: client_push_def client_emplace_def client_test_and_set_def client_set_alarm_def Let_def contents_emplace)

lemma server_push_contents:
  "\<exists>t. server_pushes (Suc n) emplace fns s = Inr t \<and> contents (s_queue t) = contents (s_queue s) @ fns \<and>
     s_popped t = s_popped s \<and> s_draining t = s_draining s \<and> s_popping t = s_popping s"
proof (induction fns arbitrary: s)
  case (Cons fn fns)
  obtain u where u: "server_push (Suc n) emplace fn 0 s = Inr u" "s_queue u = emplace fn (s_queue s)"
      "s_popped u = s_popped s" "s_draining u = s_draining s" "s_popping u = s_popping s"
    using server_push_total by blast
  with Cons.IH [of u] show ?case by (auto simp: contents_emplace)
qed simp

lemma next_head: "map_option fst (pop q) = (case contents q of [] \<Rightarrow> None | f # _ \<Rightarrow> Some f)"
  by (rule pop_cases [of q]) simp_all

lemma client_runs_list:
  "map_option (on_list c_dispatched contents c_popped) (client_handle_event run emplace pop w s) =
     run_all run w (contents (c_dispatched s), c_popped s)"
proof -
  let ?abs = "\<lambda>s :: ('fn, 'q) client_dispatch. (contents (c_dispatched s), c_popped s)"
  have "?abs (client_pop pop s) = (case ?abs s of ([], p) \<Rightarrow> ([], p) | (f # q, p) \<Rightarrow> (q, p @ [f]))" for s
    by (rule pop_cases [of "c_dispatched s"]) (simp_all add: client_pop_def)
  then have "map_option (\<lambda>(e, w, s). (e, w, ?abs s)) (client_handle_event run emplace pop w s) =
      run_all run w (?abs (client_clear s))"
    unfolding client_handle_event_def
    by (intro loop_is_run_all) (simp_all add: next_head client_push_contents client_pushed)
  then show ?thesis by (simp add: on_list_def client_clear_def)
qed

lemma server_loop_runs_list:
  assumes "popped = server_drain pop \<or> popped = server_pop pop"
  shows "map_option (on_list s_queue contents s_popped)
     (handler_loop (\<lambda>s. map_option fst (pop (s_queue s))) popped (server_pushes (Suc n) emplace) run w s) =
     run_all run w (contents (s_queue s), s_popped s)"
proof -
  let ?abs = "\<lambda>s :: ('fn, 'q) server_dispatch. (contents (s_queue s), s_popped s)"
  have "?abs (popped s) = (case ?abs s of ([], p) \<Rightarrow> ([], p) | (f # q, p) \<Rightarrow> (q, p @ [f]))" for s
    by (rule pop_cases [of "s_queue s"]) (use assms in \<open>auto simp: server_drain_def server_pop_def\<close>)
  moreover have "\<exists>t. server_pushes (Suc n) emplace fns s = Inr t \<and> ?abs t = (fst (?abs s) @ fns, snd (?abs s))" for fns s
    using server_push_contents [of n fns s] by auto
  ultimately have "map_option (\<lambda>(e, w, s). (e, w, ?abs s))
      (handler_loop (\<lambda>s. map_option fst (pop (s_queue s))) popped (server_pushes (Suc n) emplace) run w s) =
      run_all run w (?abs s)"
    by (intro loop_is_run_all) (simp_all only: next_head fst_conv)
  then show ?thesis by (simp add: on_list_def)
qed

lemma server_runs_list:
  "map_option (on_list s_queue contents s_popped) (server_handle_event (Suc n) run emplace pop w s) =
     run_all run w (contents (s_queue s), s_popped s)"
proof -
  let ?loop = "\<lambda>popped. handler_loop (\<lambda>s. map_option fst (pop (s_queue s))) popped (server_pushes (Suc n) emplace) run"
  note list = server_loop_runs_list [of "server_drain pop" n run w s, OF disjI1 [OF refl]]
  show ?thesis
  proof (cases "?loop (server_drain pop) w s")
    case None
    then show ?thesis using list by (simp add: server_handle_event_alone)
  next
    case (Some r)
    obtain e w' t where r: "r = (e, w', t)" by (cases r)
    with list Some have ran: "run_all run w (contents (s_queue s), s_popped s) = Some (e, w', contents (s_queue t), s_popped t)"
      by (simp add: on_list_def)
    show ?thesis
    proof (cases "e = Returns")
      case True
      then have "contents (s_queue (server_store t)) = []" "contents (s_queue t) = []"
          "s_popped (server_store t) = s_popped t"
        using run_all_keeps [OF ran] by (simp_all add: server_store_def)
      then show ?thesis
        using Some r True ran server_loop_runs_list [of "server_pop pop" n run w' "server_store t", OF disjI2 [OF refl]]
        by (simp add: server_handle_event_alone run_all_simps)
    next
      case False
      then show ?thesis using Some r ran by (cases e) (simp_all add: server_handle_event_alone on_list_def)
    qed
  qed
qed

lemma server_during_runs_list:
  "map_option (on_list s_queue contents s_popped) (server_handle_event_during (Suc n) others run emplace pop w s) =
     run_all_during others run w (contents (s_queue s), s_popped s)"
proof -
  let ?loop = "\<lambda>popped. handler_loop (\<lambda>s. map_option fst (pop (s_queue s))) popped (server_pushes (Suc n) emplace) run"
  note list = server_loop_runs_list [of "server_drain pop" n run w s, OF disjI1 [OF refl]]
  show ?thesis
  proof (cases "?loop (server_drain pop) w s")
    case None
    then show ?thesis using list by (simp add: server_handle_event_during_def run_all_during_def)
  next
    case (Some r)
    obtain e w' t where r: "r = (e, w', t)" by (cases r)
    with list Some have ran: "run_all run w (contents (s_queue s), s_popped s) = Some (e, w', contents (s_queue t), s_popped t)"
      by (simp add: on_list_def)
    show ?thesis
    proof (cases "e = Returns")
      case True
      obtain u where u: "server_pushes (Suc n) emplace others t = Inr u"
          "contents (s_queue u) = contents (s_queue t) @ others" "s_popped u = s_popped t"
        using server_push_contents by blast
      then show ?thesis
        using Some r True ran server_loop_runs_list [of "server_pop pop" n run w' "server_store u", OF disjI2 [OF refl]]
        by (simp add: server_handle_event_during_def run_all_during_def server_store_def)
    next
      case False
      then show ?thesis using Some r ran
        by (cases e) (simp_all add: server_handle_event_during_def run_all_during_def on_list_def)
    qed
  qed
qed

lemma client_ends:
  "client_handle_event run emplace pop w s = Some (e, w', t) \<Longrightarrow>
     run_all run w (contents (c_dispatched s), c_popped s) = Some (e, w', contents (c_dispatched t), c_popped t)"
  using client_runs_list [of run w s] by (auto simp: on_list_def)

lemma server_ends:
  "server_handle_event (Suc n) run emplace pop w s = Some (e, w', t) \<Longrightarrow>
     run_all run w (contents (s_queue s), s_popped s) = Some (e, w', contents (s_queue t), s_popped t)"
  using server_runs_list [of n run w s] by (auto simp: on_list_def)

lemma client_as_list:
  "run_all run w (contents (c_dispatched s), c_popped s) = Some (e, w', q, p) \<Longrightarrow>
     \<exists>t. client_handle_event run emplace pop w s = Some (e, w', t) \<and> contents (c_dispatched t) = q \<and> c_popped t = p"
  "run_all run w (contents (c_dispatched s), c_popped s) = None \<Longrightarrow> client_handle_event run emplace pop w s = None"
  using client_runs_list [of run w s] by (auto simp: on_list_def)

lemma server_as_list:
  "run_all run w (contents (s_queue s), s_popped s) = Some (e, w', q, p) \<Longrightarrow>
     \<exists>t. server_handle_event (Suc n) run emplace pop w s = Some (e, w', t) \<and> contents (s_queue t) = q \<and> s_popped t = p"
  "run_all run w (contents (s_queue s), s_popped s) = None \<Longrightarrow> server_handle_event (Suc n) run emplace pop w s = None"
  using server_runs_list [of n run w s] by (auto simp: on_list_def)

end

section \<open>The alarm a handler leaves behind\<close>

text \<open>Since \<open>clear\<close>, the alarm was set once if anything was pushed.\<close>

definition client_alarm_since :: "('fn, 'q) client_dispatch \<Rightarrow> ('fn, 'q) client_dispatch \<Rightarrow> bool" where
  "client_alarm_since s t \<longleftrightarrow> length (c_pushed s) \<le> length (c_pushed t) \<and>
     (c_alarm_set t \<longleftrightarrow> length (c_pushed s) < length (c_pushed t)) \<and>
     c_alarms t = c_alarms s + (if c_alarm_set t then 1 else 0)"

lemma client_pushes_alarm:
  "client_alarm_since s t \<Longrightarrow> client_alarm_since s (fold (client_push emplace) fns t)"
proof (induction fns arbitrary: t)
  case (Cons fn fns)
  have "client_alarm_since s (client_push emplace fn t)"
    using Cons.prems by (auto simp: client_alarm_since_def client_push_def client_emplace_def client_test_and_set_def
      client_set_alarm_def Let_def)
  from Cons.IH [OF this] show ?case by simp
qed simp

lemma client_pop_alarm: "client_alarm_since s t \<Longrightarrow> client_alarm_since s (client_pop pop t)"
  by (simp add: client_alarm_since_def client_pop_def split: option.split)

lemma client_handler_alarm:
  assumes "client_handle_event run emplace pop w s = Some (e, w', t)"
  shows "client_alarm_since s t"
proof -
  have "(\<lambda>_. client_alarm_since s) (fst (e, w', t)) (snd (snd (e, w', t)))"
    by (rule loop_keeps [OF assms [unfolded client_handle_event_def], where I = "client_alarm_since s"])
       (auto simp: client_pop_alarm client_pushes_alarm, simp add: client_alarm_since_def client_clear_def)
  then show ?thesis by simp
qed

text \<open>Until \<open>store\<close> no alarm is set; after it one is set with the flag.\<close>

lemma server_pushes_quiet:
  "server_pushes (Suc n) emplace fns s = Inr t \<Longrightarrow> \<not> s_need_alarm s \<Longrightarrow> \<not> s_need_alarm t \<and> s_alarms t = s_alarms s"
proof (induction fns arbitrary: s)
  case (Cons fn fns)
  from Cons.IH Cons.prems show ?case
    by (auto simp: server_push_def server_emplace_def server_exchange_def Let_def split: sum.splits)
qed simp

definition server_alarm_with_flag :: "nat \<Rightarrow> ('fn, 'q) server_dispatch \<Rightarrow> bool" where
  "server_alarm_with_flag k s \<longleftrightarrow> s_alarms s = k + (if s_need_alarm s then 0 else 1)"

lemma server_pushes_alarm:
  "server_pushes (Suc n) emplace fns s = Inr t \<Longrightarrow> server_alarm_with_flag k s \<Longrightarrow> server_alarm_with_flag k t"
proof (induction fns arbitrary: s)
  case (Cons fn fns)
  from Cons.prems(1) obtain u where u: "server_push (Suc n) emplace fn 0 s = Inr u" "server_pushes (Suc n) emplace fns u = Inr t"
    by (auto split: sum.splits)
  have "server_alarm_with_flag k u"
    using u(1) Cons.prems(2) by (auto simp: server_alarm_with_flag_def server_push_def server_emplace_def server_exchange_def
      server_set_alarm_def Let_def split: if_splits)
  from Cons.IH [OF u(2) this] show ?case .
qed simp

lemma server_handler_alarm:
  assumes "server_handle_event_during (Suc n) others run emplace pop w s = Some (Returns, w', t)" and "\<not> s_need_alarm s"
  shows "server_alarm_with_flag (s_alarms s) t"
proof -
  let ?loop = "\<lambda>popped. handler_loop (\<lambda>s. map_option fst (pop (s_queue s))) popped (server_pushes (Suc n) emplace) run"
  let ?quiet = "\<lambda>t. \<not> s_need_alarm t \<and> s_alarms t = s_alarms s"
  obtain w1 t1 u where first: "?loop (server_drain pop) w s = Some (Returns, w1, t1)"
      and u: "server_pushes (Suc n) emplace others t1 = Inr u"
      and second: "?loop (server_pop pop) w1 (server_store u) = Some (Returns, w', t)"
    using assms(1) by (auto simp: server_handle_event_during_def split: option.splits handler_end.splits sum.splits)
  have drain: "?quiet (server_drain pop x)" if "?quiet x" for x
    using that by (simp add: server_drain_def split: option.split)
  have "(\<lambda>_. ?quiet) (fst (Returns, w1, t1)) (snd (snd (Returns, w1, t1)))"
  proof (rule loop_keeps [OF first, where I = ?quiet])
    fix x f w w' fns throws x'
    assume "?quiet x" and push: "server_pushes (Suc n) emplace fns (server_drain pop x) = Inr x'"
    then show "?quiet x'" using server_pushes_quiet [OF push] drain [of x] by simp
  qed (use assms(2) drain in auto)
  then have "?quiet u" using server_pushes_quiet [OF u] by simp
  then have start: "server_alarm_with_flag (s_alarms s) (server_store u)"
    by (simp add: server_alarm_with_flag_def server_store_def)
  have popped: "server_alarm_with_flag k (server_pop pop x)" if "server_alarm_with_flag k x" for k x
    using that by (simp add: server_alarm_with_flag_def server_pop_def split: option.split)
  have "(\<lambda>_. server_alarm_with_flag (s_alarms s)) (fst (Returns, w', t)) (snd (snd (Returns, w', t)))"
    by (rule loop_keeps [OF second, where I = "server_alarm_with_flag (s_alarms s)"])
       (use start in \<open>auto intro: server_pushes_alarm popped\<close>)
  then show ?thesis by simp
qed

section \<open>The handlers and the interleaved steps\<close>

lemma client_reaches_step: "client_reaches e emplace pop s \<Longrightarrow> client_step pop s t \<Longrightarrow> client_reaches e emplace pop t"
  by (erule rtranclp.rtrancl_into_rtrancl) (simp add: pushes_and_steps_def)

lemma server_reaches_step:
  "server_reaches n e emplace pop s \<Longrightarrow> server_step n pop s t \<Longrightarrow> server_reaches n e emplace pop t"
  by (erule rtranclp.rtrancl_into_rtrancl) (simp add: pushes_and_steps_def)

lemma client_push_reaches:
  assumes "client_reaches e emplace pop s"
  shows "client_reaches e emplace pop (client_push emplace fn s)"
proof -
  let ?s1 = "client_emplace emplace fn s" let ?s2 = "client_test_and_set ?s1"
  have "client_reaches e emplace pop ?s1"
    by (rule rtranclp.rtrancl_into_rtrancl [OF assms]) (auto simp: pushes_and_steps_def)
  moreover have "client_step pop ?s1 ?s2" by (rule client_step.intros) (simp add: client_emplace_def)
  ultimately have r: "client_reaches e emplace pop ?s2" by (rule client_reaches_step)
  show ?thesis
  proof (cases "c_alarm_set ?s1")
    case False
    then have "client_step pop ?s2 (client_set_alarm ?s2)"
      by (intro client_step.intros) (simp add: client_test_and_set_def Let_def)
    with False show ?thesis using client_reaches_step [OF r] by (simp add: client_push_def)
  qed (use r in \<open>simp add: client_push_def\<close>)
qed

lemma client_pushes_reach:
  "client_reaches e emplace pop s \<Longrightarrow> client_reaches e emplace pop (fold (client_push emplace) fns s)"
proof (induction fns arbitrary: s)
  case (Cons fn fns)
  then show ?case using Cons.IH [OF client_push_reaches [OF Cons.prems]] by simp
qed simp

lemma server_push_reaches:
  assumes "server_reaches n e emplace pop s" and "server_push n emplace fn i s = Inr t"
  shows "server_reaches n e emplace pop t"
proof -
  let ?s1 = "server_emplace emplace fn s" let ?s2 = "server_exchange ?s1"
  have "server_reaches n e emplace pop ?s1"
    by (rule rtranclp.rtrancl_into_rtrancl [OF assms(1)]) (auto simp: pushes_and_steps_def)
  moreover have "server_step n pop ?s1 ?s2" by (rule server_step.intros) (simp add: server_emplace_def)
  ultimately have r: "server_reaches n e emplace pop ?s2" by (rule server_reaches_step)
  show ?thesis
  proof (cases "s_need_alarm ?s1")
    case True
    then have "server_set_alarm n i ?s2 = Inr t" using assms(2) by (simp add: server_push_def)
    moreover have "0 < s_setting ?s2" using True by (simp add: server_exchange_def Let_def)
    ultimately have "server_step n pop ?s2 t" by (intro server_step.intros(2))
    then show ?thesis using server_reaches_step [OF r] by simp
  qed (use r assms(2) in \<open>simp add: server_push_def\<close>)
qed

lemma server_pushes_reach:
  "server_reaches n e emplace pop s \<Longrightarrow> server_pushes n emplace fns s = Inr t \<Longrightarrow> server_reaches n e emplace pop t"
  by (induction fns arbitrary: s) (auto split: sum.splits dest: server_push_reaches)

lemma client_handler_reaches:
  assumes "client_reaches e emplace pop s" and "0 < c_entered s"
    and "client_handle_event run emplace pop w s = Some (en, w', t)"
  shows "client_reaches e emplace pop t"
proof -
  let ?I = "\<lambda>s. client_reaches e emplace pop s \<and> 0 < c_popping s"
  have step: "client_reaches e emplace pop (client_pop pop s)" if "?I s" for s
    using that client_step.intros(5) [of s pop] by (auto intro: client_reaches_step [where s = s])
  have "client_reaches e emplace pop (client_clear s)"
    using client_reaches_step [OF assms(1) client_step.intros(4) [OF assms(2)]] .
  then have I: "?I (client_clear s)" by (simp add: client_clear_def)
  have "(\<lambda>_. client_reaches e emplace pop) (fst (en, w', t)) (snd (snd (en, w', t)))"
  proof (rule loop_keeps [OF assms(3) [unfolded client_handle_event_def], where I = ?I])
    fix s f w w' fns throws s'
    assume s: "?I s" "map_option fst (pop (c_dispatched s)) = Some (Some f)"
      and s': "Inr (fold (client_push emplace) fns (client_pop pop s)) = Inr s'"
    have "c_popping (client_pop pop s) = c_popping s" using s(2) by (auto simp: client_pop_def)
    then show "?I s'" using s s' client_pushes_reach [OF step [OF s(1)]] by (auto simp: client_pushed)
  next
    fix s assume s: "?I s" "map_option fst (pop (c_dispatched s)) = Some None"
    then have "c_popping (client_pop pop s) = c_popping s" by (auto simp: client_pop_def)
    then show "?I (client_pop pop s)" using s step [OF s(1)] by simp
  qed (use I step in simp_all)
  then show ?thesis by simp
qed

context function_queue
begin

lemma server_loop_reaches:
  assumes "server_reaches (Suc n) e emplace pop s" and "0 < phase s"
    and "popped = server_drain pop \<and> phase = s_draining \<or> popped = server_pop pop \<and> phase = s_popping"
    and "handler_loop (\<lambda>s. map_option fst (pop (s_queue s))) popped (server_pushes (Suc n) emplace) run w s = Some (en, w', t)"
  shows "server_reaches (Suc n) e emplace pop t \<and> (popped = server_drain pop \<and> en = Returns \<longrightarrow> 0 < s_storing t)"
proof -
  let ?I = "\<lambda>s. server_reaches (Suc n) e emplace pop s \<and> 0 < phase s"
  let ?E = "\<lambda>en t. server_reaches (Suc n) e emplace pop t \<and> (popped = server_drain pop \<and> en = Returns \<longrightarrow> 0 < s_storing t)"
  have step: "server_reaches (Suc n) e emplace pop (popped s)" if "?I s" for s
    using that assms(3) server_step.intros(4,6) [of s "Suc n" pop] by (auto intro: server_reaches_step [where s = s])
  have phase: "0 < phase (popped s)" if "?I s" "map_option fst (pop (s_queue s)) = Some cb" for s cb
    using that assms(3) by (auto simp: server_drain_def server_pop_def)
  have "?E (fst (en, w', t)) (snd (snd (en, w', t)))"
  proof (rule loop_keeps [OF assms(4), where I = ?I])
    fix s f w w' fns throws s'
    assume I: "?I s" and cb: "map_option fst (pop (s_queue s)) = Some (Some f)"
      and push: "server_pushes (Suc n) emplace fns (popped s) = Inr s'"
    then have "phase s' = phase (popped s)" using server_push_contents [of n fns "popped s"] assms(3) by auto
    then show "?I s'" using server_pushes_reach [OF step [OF I] push] phase [OF I cb] by simp
  next
    fix s assume "?I s" "map_option fst (pop (s_queue s)) = None"
    then show "?E Returns (popped s)" using step by (auto simp: server_drain_def)
  qed (use assms(1,2) step phase in simp_all)
  then show ?thesis by simp
qed

lemma server_handler_reaches:
  assumes "server_reaches (Suc n) e emplace pop s" and "0 < s_draining s"
    and "server_handle_event (Suc n) run emplace pop w s = Some (en, w', t)"
  shows "server_reaches (Suc n) e emplace pop t"
proof -
  note reach = server_loop_reaches [where e = e and n = n]
  let ?loop = "\<lambda>popped. handler_loop (\<lambda>s. map_option fst (pop (s_queue s))) popped (server_pushes (Suc n) emplace) run"
  obtain en1 w1 t1 where first: "?loop (server_drain pop) w s = Some (en1, w1, t1)"
    using assms(3) by (auto simp: server_handle_event_alone split: option.splits)
  have r1: "server_reaches (Suc n) e emplace pop t1" "en1 = Returns \<Longrightarrow> 0 < s_storing t1"
    using reach [of s s_draining, OF assms(1,2) _ first] by simp_all
  show ?thesis
  proof (cases "en1 = Returns")
    case True
    then have second: "?loop (server_pop pop) w1 (server_store t1) = Some (en, w', t)"
      using assms(3) first by (simp add: server_handle_event_alone)
    have "server_reaches (Suc n) e emplace pop (server_store t1)"
      using r1 True by (intro server_reaches_step [OF r1(1)] server_step.intros) simp
    moreover have "0 < s_popping (server_store t1)" by (simp add: server_store_def)
    ultimately show ?thesis using reach [of _ s_popping, OF _ _ _ second] by simp
  next
    case False
    then show ?thesis using assms(3) first r1(1) by (cases en1) (simp_all add: server_handle_event_alone)
  qed
qed

end

section \<open>When a handler comes to an end\<close>

text \<open>
  Every function is given a weight, more than the number of functions it pushes together with their
  weights; \<open>load\<close> is what a queue can still lead to.
\<close>

definition load :: "('fn \<Rightarrow> nat) \<Rightarrow> 'fn option list \<Rightarrow> nat" where
  "load weight q = sum_list (map (\<lambda>f. case f of None \<Rightarrow> 1 | Some f \<Rightarrow> Suc (weight f)) q)"

lemma load_simps [simp]:
  "load weight [] = 0" "load weight (None # q) = Suc (load weight q)"
  "load weight (Some f # q) = Suc (weight f) + load weight q"
  "load weight (q @ q') = load weight q + load weight q'"
  by (simp_all add: load_def)

lemma run_all_returns:
  assumes "\<And>f w. load weight (fst (snd (run f w))) \<le> weight f"
  shows "\<exists>e w' q' p'. run_all run w (q, p) = Some (e, w', q', p') \<and>
    (e = Terminates \<or> e = Returns \<and> q' = []) \<and> length p' + load weight q' \<le> length p + load weight q"
proof (induction "load weight q" arbitrary: q p w rule: less_induct)
  case less
  show ?case
  proof (cases q)
    case Nil
    then show ?thesis by (simp add: run_all_simps)
  next
    case (Cons cb rest)
    show ?thesis
    proof (cases cb)
      case None
      with Cons less [of rest w "p @ [None]"] show ?thesis by (auto simp: run_all_simps)
    next
      case (Some f)
      obtain w' fns throws where run: "run f w = (w', fns, throws)" by (cases "run f w")
      have le: "load weight fns \<le> weight f" using assms [of f w] run by simp
      show ?thesis
      proof (cases throws)
        case True
        with Cons Some run le show ?thesis by (simp add: run_all_simps)
      next
        case False
        with Cons Some run le less [of "rest @ fns" w' "p @ [Some f]"] show ?thesis by (fastforce simp: run_all_simps)
      qed
    qed
  qed
qed

text \<open>A function that pushes itself again is always waiting.\<close>

lemma run_all_starves:
  assumes "\<And>w. Some f \<in> set (fst (snd (run f w)))" and "\<And>g w. \<not> snd (snd (run g w))" and "Some f \<in> set q"
  shows "run_all run w (q, p) = None"
proof (rule ccontr)
  assume "run_all run w (q, p) \<noteq> None"
  then obtain r where r: "run_all run w (q, p) = Some r" by blast
  have "(\<lambda>_ _. False) (fst r) (snd (snd r))"
  proof (rule loop_keeps [OF r [unfolded run_all_loop], where I = "\<lambda>(q, p). Some f \<in> set q"])
    fix t g w w' fns throws t'
    assume "case t of (q, p) \<Rightarrow> Some f \<in> set q" "(case t of (q, p) \<Rightarrow> case q of [] \<Rightarrow> None | f # _ \<Rightarrow> Some f) = Some (Some g)"
      and "run g w = (w', fns, throws)"
      and "(case case t of (q, p) \<Rightarrow> case q of [] \<Rightarrow> ([], p) | f # q \<Rightarrow> (q, p @ [f]) of (q, p) \<Rightarrow> Inr (q @ fns, p)) = Inr t'"
    then show "case t' of (q, p) \<Rightarrow> Some f \<in> set q" using assms(1) [of w] by (cases t) (auto split: list.splits)
  qed (use assms(2,3) in \<open>auto split: list.splits\<close>)
  then show False .
qed

lemma run_all_throws:
  "run f w = (w', fns, True) \<Longrightarrow> run_all run w (Some f # rest, p) = Some (Terminates, w', rest @ fns, p @ [Some f])"
  by (simp add: run_all_simps)

section \<open>Properties\<close>

text \<open>
  Functions are numbers; \<open>n + 1\<close> pushes \<open>n\<close> and an empty function, and the world adds up the functions
  that ran.
\<close>

definition countdown :: "(nat, nat) runner" where
  "countdown f w = (w + f, (case f of 0 \<Rightarrow> [] | Suc n \<Rightarrow> [Some n, None]), False)"

definition countdown_weight :: "nat \<Rightarrow> nat" where "countdown_weight n = 2 * n"

lemma countdown_bounded: "load countdown_weight (fst (snd (countdown f w))) \<le> countdown_weight f"
  by (simp add: countdown_def countdown_weight_def split: nat.split)

text \<open>The two example queues when the event of the alarm has reached the handler.\<close>

definition ex_entered :: "(nat, nat option list) client_dispatch" where
  "ex_entered = client_deliver (client_set_alarm (client_test_and_set (client_test_and_set ex_client)))"

definition ex_draining :: "(nat, nat option list) server_dispatch" where
  "ex_draining = (let s = server_exchange (server_exchange ex_server)
     in server_deliver (case server_set_alarm (Suc 1) 0 s of Inr t \<Rightarrow> t | Inl _ \<Rightarrow> s))"

lemmas ex_handler_defs = ex_entered_def ex_draining_def ex_client_def ex_server_def client_init_def server_init_def
  client_emplace_def client_test_and_set_def client_set_alarm_def client_deliver_def
  server_emplace_def server_exchange_def server_set_alarm_def server_deliver_def

lemma ex_entered_reached: "client_reaches [] list_emplace list_pop ex_entered"
  unfolding ex_entered_def
  by (rule client_reaches_step [OF client_reaches_step [OF client_reaches_step [OF
        client_reaches_step [OF ex_client_reached]]]], (rule client_step.intros, simp add: ex_handler_defs)+)

lemma ex_draining_reached: "server_reaches (Suc 1) [] list_emplace list_pop ex_draining"
proof -
  let ?s = "server_exchange (server_exchange ex_server)"
  obtain t where t: "server_set_alarm (Suc 1) 0 ?s = Inr t" "s_alarms t = 1"
    by (simp add: ex_handler_defs)
  have "server_reaches (Suc 1) [] list_emplace list_pop ?s"
    by (rule server_reaches_step [OF server_reaches_step [OF ex_server_reached]],
        (rule server_step.intros, simp add: ex_handler_defs)+)
  then have "server_reaches (Suc 1) [] list_emplace list_pop t"
    by (rule server_reaches_step, intro server_step.intros(2) [OF _ t(1)]) (simp add: ex_handler_defs)
  then have "server_reaches (Suc 1) [] list_emplace list_pop (server_deliver t)"
    by (rule server_reaches_step, intro server_step.intros) (simp add: t)
  then show ?thesis unfolding ex_draining_def Let_def t by simp
qed

text \<open>
C10: both handlers do with their queue what the reference says, which takes the functions of a plain list
one after the other: with any queue, any functions, which may push others, throw or keep the handler from
coming to an end, and from any state, they end in the same way or not at all, with the same effects, and
leave the same functions. For the server this includes functions that other threads push between its two
loops. The client has then set the alarm once exactly if a function was pushed meanwhile, and the server,
when it returns, once exactly if the next push will not: no function is left without an alarm.
\<close>

theorem handlers_run_the_same:
  assumes "function_queue empty_q emplace pop contents"
  shows "map_option (on_list c_dispatched contents c_popped) (client_handle_event run emplace pop w s) =
           run_all run w (contents (c_dispatched s), c_popped s) \<and>
         map_option (on_list s_queue contents s_popped) (server_handle_event_during (Suc n) others run emplace pop w u) =
           run_all_during others run w (contents (s_queue u), s_popped u) \<and>
         (client_handle_event run emplace pop w s = Some (e, w', t) \<longrightarrow>
           (c_alarm_set t \<longleftrightarrow> length (c_pushed s) < length (c_pushed t)) \<and>
           c_alarms t = c_alarms s + (if c_alarm_set t then 1 else 0)) \<and>
         (server_handle_event_during (Suc n) others run emplace pop w u = Some (Returns, w'', v) \<and> \<not> s_need_alarm u \<longrightarrow>
           s_alarms v = s_alarms u + (if s_need_alarm v then 0 else 1))"
proof (intro conjI impI)
  show "map_option (on_list c_dispatched contents c_popped) (client_handle_event run emplace pop w s) =
      run_all run w (contents (c_dispatched s), c_popped s)"
    by (rule function_queue.client_runs_list [OF assms])
  show "map_option (on_list s_queue contents s_popped) (server_handle_event_during (Suc n) others run emplace pop w u) =
      run_all_during others run w (contents (s_queue u), s_popped u)"
    by (rule function_queue.server_during_runs_list [OF assms])
next
  assume "client_handle_event run emplace pop w s = Some (e, w', t)"
  from client_handler_alarm [OF this]
  show "c_alarm_set t \<longleftrightarrow> length (c_pushed s) < length (c_pushed t)"
    and "c_alarms t = c_alarms s + (if c_alarm_set t then 1 else 0)"
    by (simp_all add: client_alarm_since_def)
next
  assume "server_handle_event_during (Suc n) others run emplace pop w u = Some (Returns, w'', v) \<and> \<not> s_need_alarm u"
  then show "s_alarms v = s_alarms u + (if s_need_alarm v then 0 else 1)"
    using server_handler_alarm [of n others run emplace pop w u w'' v] by (simp add: server_alarm_with_flag_def)
qed

theorem handlers_run_the_same_witness:
  "map_option (on_list c_dispatched id c_popped) (client_handle_event countdown list_emplace list_pop 0 ex_entered) =
     Some (Returns, 15, [], [Some 5, None, Some 4, None, Some 3, None, Some 2, None, Some 1, None, Some 0, None]) \<and>
   map_option (on_list s_queue id s_popped)
       (server_handle_event_during (Suc 1) [Some 1] countdown list_emplace list_pop 0 ex_draining) =
     Some (Returns, 16, [], [Some 5, None, Some 4, None, Some 3, None, Some 2, None, Some 1, None, Some 0, None,
       Some 1, Some 0, None])"
proof -
  have c: "c_dispatched ex_entered = [Some 5, None]" "c_popped ex_entered = []"
    and s: "s_queue ex_draining = [Some 5, None]" "s_popped ex_draining = []"
    by (simp_all add: ex_handler_defs)
  note same = handlers_run_the_same [OF list_functions_queue, where run = countdown and n = 1 and others = "[Some 1]" and w = 0
      and s = ex_entered and u = ex_draining]
  have ran: "run_all countdown 0 ([Some 5, None], []) =
      Some (Returns, 15, [], [Some 5, None, Some 4, None, Some 3, None, Some 2, None, Some 1, None, Some 0, None])"
    by (simp add: run_all_simps countdown_def numeral_eq_Suc)
  have "run_all countdown 15 ([Some 1], p) = Some (Returns, 16, [], p @ [Some 1, Some 0, None])" for p
    by (simp add: run_all_simps countdown_def)
  with ran show ?thesis
    using same [THEN conjunct1] same [THEN conjunct2, THEN conjunct1]
    by (simp add: c s run_all_during_def)
qed

text \<open>
C18: a handler that runs functions is a run of the interleaved steps: from a reachable state in which a worker
is at the beginning of the handler, whatever the functions do, the state in which the handler ends is
reachable by the single steps of the threads, and when the handler has returned every function pushed up
to then, also by the functions themselves, was taken out, in order.
\<close>

theorem handler_runs_are_interleavings:
  assumes "function_queue empty_q emplace pop contents"
    and "client_reaches empty_q emplace pop s" and "0 < c_entered s"
    and "client_handle_event run emplace pop w s = Some (e, w', t)"
    and "server_reaches (Suc n) empty_q emplace pop u" and "0 < s_draining u"
    and "server_handle_event (Suc n) run emplace pop w u = Some (d, w'', v)"
  shows "client_reaches empty_q emplace pop t \<and> (e = Returns \<longrightarrow> c_popped t = c_pushed t) \<and>
         server_reaches (Suc n) empty_q emplace pop v \<and> (d = Returns \<longrightarrow> s_popped v = s_pushed v)"
proof -
  have t: "client_reaches empty_q emplace pop t" by (rule client_handler_reaches [OF assms(2,3,4)])
  have v: "server_reaches (Suc n) empty_q emplace pop v"
    by (rule function_queue.server_handler_reaches [OF assms(1,5,6,7)])
  have "contents (c_dispatched t) = []" if "e = Returns"
    using run_all_keeps [OF function_queue.client_ends [OF assms(1,4)]] that by simp
  moreover have "contents (s_queue v) = []" if "d = Returns"
    using run_all_keeps [OF function_queue.server_ends [OF assms(1,7)]] that by simp
  moreover obtain a b where "client_rel contents t a" "dispatch_inv a" "server_rel (Suc n) contents v b" "dispatch_inv b"
    using function_queue.client_facts(1) [OF assms(1) t] function_queue.server_facts(1) [OF assms(1) v] by blast
  ultimately show ?thesis using t v by (auto simp: client_rel_def server_rel_def dispatch_inv_def)
qed

theorem handler_runs_are_interleavings_witness:
  "\<exists>t v. client_handle_event (\<lambda>f w. (w + f, if f = 5 then [Some 1] else [], False)) list_emplace list_pop 0 ex_entered =
            Some (Returns, 6, t) \<and> c_popped t = c_pushed t \<and> client_reaches [] list_emplace list_pop t \<and>
          server_handle_event (Suc 1) (\<lambda>f w. (w + f, if f = 5 then [Some 1] else [], False)) list_emplace list_pop 0 ex_draining =
            Some (Returns, 6, v) \<and> s_popped v = s_pushed v \<and> server_reaches (Suc 1) [] list_emplace list_pop v"
proof -
  let ?run = "\<lambda>f w. (w + f, if f = (5 :: nat) then [Some 1] else [], False)"
  have c: "run_all ?run 0 (id (c_dispatched ex_entered), c_popped ex_entered) = Some (Returns, 6 :: nat, [], [Some 5, None, Some 1])"
    and c0: "0 < c_entered ex_entered"
    by (simp_all add: ex_handler_defs run_all_simps)
  have s: "run_all ?run 0 (id (s_queue ex_draining), s_popped ex_draining) = Some (Returns, 6 :: nat, [], [Some 5, None, Some 1])"
    and s0: "0 < s_draining ex_draining"
    by (simp_all add: ex_handler_defs run_all_simps)
  obtain t where t: "client_handle_event ?run list_emplace list_pop 0 ex_entered = Some (Returns, 6, t)"
    using function_queue.client_as_list(1) [OF list_functions_queue c] by blast
  obtain v where v: "server_handle_event (Suc 1) ?run list_emplace list_pop 0 ex_draining = Some (Returns, 6, v)"
    using function_queue.server_as_list(1) [OF list_functions_queue s] by blast
  show ?thesis
    using handler_runs_are_interleavings [OF list_functions_queue ex_entered_reached c0 t ex_draining_reached s0 v] t v
    by blast
qed

text \<open>
C19: the handlers return: if the functions pushed by a function, with all that these push in turn, are
bounded for each function, both handlers come to an end from any state; they have then emptied their
queue, or a function threw, and have called no more functions than the weights of those waiting allow.
\<close>

theorem handlers_return:
  assumes "function_queue empty_q emplace pop contents"
    and "\<And>f w. load weight (fst (snd (run f w))) \<le> weight f"
  shows "(\<exists>e w' t. client_handle_event run emplace pop w s = Some (e, w', t) \<and>
           (e = Terminates \<or> e = Returns \<and> contents (c_dispatched t) = []) \<and>
           length (c_popped t) \<le> length (c_popped s) + load weight (contents (c_dispatched s))) \<and>
         (\<exists>e w' t. server_handle_event (Suc n) run emplace pop w u = Some (e, w', t) \<and>
           (e = Terminates \<or> e = Returns \<and> contents (s_queue t) = []) \<and>
           length (s_popped t) \<le> length (s_popped u) + load weight (contents (s_queue u)))"
proof -
  obtain e w' q p where ran: "run_all run w (contents (c_dispatched s), c_popped s) = Some (e, w', q, p)"
    and c: "e = Terminates \<or> e = Returns \<and> q = []"
      "length p + load weight q \<le> length (c_popped s) + load weight (contents (c_dispatched s))"
    using run_all_returns [where run = run and weight = weight, OF assms(2)] by blast
  obtain t where t: "client_handle_event run emplace pop w s = Some (e, w', t)"
      "contents (c_dispatched t) = q" "c_popped t = p"
    using function_queue.client_as_list(1) [OF assms(1) ran] by blast
  obtain d w'' q' p' where ran': "run_all run w (contents (s_queue u), s_popped u) = Some (d, w'', q', p')"
    and d: "d = Terminates \<or> d = Returns \<and> q' = []"
      "length p' + load weight q' \<le> length (s_popped u) + load weight (contents (s_queue u))"
    using run_all_returns [where run = run and weight = weight, OF assms(2)] by blast
  obtain v where v: "server_handle_event (Suc n) run emplace pop w u = Some (d, w'', v)"
      "contents (s_queue v) = q'" "s_popped v = p'"
    using function_queue.server_as_list(1) [OF assms(1) ran'] by blast
  show ?thesis using t v c d by auto
qed

theorem handlers_return_witness:
  "(\<exists>e w' t. client_handle_event countdown list_emplace list_pop 0 ex_client = Some (e, w', t) \<and>
      (e = Terminates \<or> e = Returns \<and> id (c_dispatched t) = []) \<and> length (c_popped t) \<le> 12) \<and>
   (\<exists>e w' t. server_handle_event (Suc 1) countdown list_emplace list_pop 0 ex_server = Some (e, w', t) \<and>
      (e = Terminates \<or> e = Returns \<and> id (s_queue t) = []) \<and> length (s_popped t) \<le> 12)"
  using handlers_return [where weight = countdown_weight and run = countdown and s = ex_client and u = ex_server,
      OF list_functions_queue countdown_bounded]
  by (simp add: ex_client_def ex_server_def client_init_def server_init_def client_emplace_def server_emplace_def
      countdown_weight_def)

text \<open>
C27: what a function can do to the queue that runs it: a function that pushes itself again whenever it runs
keeps both handlers from ever returning once it waits anywhere in the queue, as long as no function
throws, so that the worker delivers no other completion; and one that throws ends the program, since the
handlers are \<open>noexcept\<close>, with the functions behind it not run.
\<close>

theorem functions_hold_up_the_queue:
  assumes "function_queue empty_q emplace pop contents"
  shows "((\<forall>w. Some f \<in> set (fst (snd (run f w)))) \<and> (\<forall>g w. \<not> snd (snd (run g w))) \<longrightarrow>
           (Some f \<in> set (contents (c_dispatched s)) \<longrightarrow> client_handle_event run emplace pop w s = None) \<and>
           (Some f \<in> set (contents (s_queue u)) \<longrightarrow> server_handle_event (Suc n) run emplace pop w u = None)) \<and>
         (run g w = (w', fns, True) \<longrightarrow>
           (contents (c_dispatched s) = Some g # rest \<longrightarrow> (\<exists>t. contents (c_dispatched t) = rest @ fns \<and>
              client_handle_event run emplace pop w s = Some (Terminates, w', t))) \<and>
           (contents (s_queue u) = Some g # rest \<longrightarrow> (\<exists>t. contents (s_queue t) = rest @ fns \<and>
              server_handle_event (Suc n) run emplace pop w u = Some (Terminates, w', t))))"
proof (intro conjI impI)
  assume "(\<forall>w. Some f \<in> set (fst (snd (run f w)))) \<and> (\<forall>g w. \<not> snd (snd (run g w)))"
  then have starves: "Some f \<in> set q \<Longrightarrow> run_all run w (q, p) = None" for q p
    using run_all_starves [of f run q w p] by blast
  show "client_handle_event run emplace pop w s = None" if "Some f \<in> set (contents (c_dispatched s))"
    by (rule function_queue.client_as_list(2) [OF assms starves [OF that]])
  show "server_handle_event (Suc n) run emplace pop w u = None" if "Some f \<in> set (contents (s_queue u))"
    by (rule function_queue.server_as_list(2) [OF assms starves [OF that]])
next
  assume run: "run g w = (w', fns, True)"
  have ran: "run_all run w (q, p) = Some (Terminates, w', rest @ fns, p @ [Some g])" if "q = Some g # rest" for q p
    unfolding that by (rule run_all_throws [of run, OF run])
  show "\<exists>t. contents (c_dispatched t) = rest @ fns \<and> client_handle_event run emplace pop w s = Some (Terminates, w', t)"
    if "contents (c_dispatched s) = Some g # rest"
    using function_queue.client_as_list(1) [OF assms ran [OF that]] by blast
  show "\<exists>t. contents (s_queue t) = rest @ fns \<and> server_handle_event (Suc n) run emplace pop w u = Some (Terminates, w', t)"
    if "contents (s_queue u) = Some g # rest"
    using function_queue.server_as_list(1) [OF assms ran [OF that]] by blast
qed

theorem functions_hold_up_the_queue_witness:
  "client_handle_event (\<lambda>f w. (w, [Some f], False)) list_emplace list_pop () ex_client = None \<and>
   (\<exists>t. id (s_queue t) = [None, Some 6] \<and>
      server_handle_event (Suc 1) (\<lambda>f w. (Suc w, [Some 6], True)) list_emplace list_pop 0 ex_server = Some (Terminates, 1, t))"
proof -
  have c: "Some 5 \<in> set (id (c_dispatched ex_client))" and s: "id (s_queue ex_server) = Some 5 # [None]"
    by (simp_all add: ex_client_def ex_server_def client_init_def server_init_def client_emplace_def server_emplace_def)
  show ?thesis
    using functions_hold_up_the_queue [OF list_functions_queue, where f = 5 and s = ex_client and w = "()"
          and run = "\<lambda>f w. (w, [Some f], False)"] c
      functions_hold_up_the_queue [OF list_functions_queue, where g = 5 and u = ex_server and w = 0 and n = 1
          and rest = "[None]" and run = "\<lambda>f w. (Suc w, [Some 6], True)"] s
    by simp
qed

end
