(* ===== verification/Client_Queue.thy ===== *)
theory Client_Queue
  imports Dispatch_Loop Dispatchers
begin

text \<open>
  The life of a \<open>client_cq\<close> of \<open>src/grpc/client_cq.cpp\<close>: its worker thread, its destruction, and the
  default instance all calls without a queue of their own share. Its worker loop is in the theory of
  the event loops, its dispatching in that of the dispatchers.
\<close>

section \<open>Construction and destruction\<close>

datatype queue_call = StartWorker | ShutdownCq | JoinWorker | FreeCq | FreeAlarm

record client_cq =
  cq_thread :: bool      \<comment> \<open>\<open>m_thread\<close> is joinable\<close>
  cq_open :: bool        \<comment> \<open>\<open>m_cq\<close> was not shut down\<close>

definition client_cq_constructor :: "client_cq \<times> queue_call list" where
  "client_cq_constructor = (\<lparr>cq_thread = True, cq_open = True\<rparr>, [StartWorker])"

text \<open>
  The destructor body, then the members in reverse order of declaration. Joining the calling thread
  throws, which a destructor must not: the program is terminated (\<open>None\<close>).
\<close>

definition client_cq_destructor :: "bool \<Rightarrow> client_cq \<Rightarrow> queue_call list option" where
  "client_cq_destructor on_worker s =
     (if cq_thread s \<and> on_worker then None
      else Some ([ShutdownCq] @ (if cq_thread s then [JoinWorker] else []) @ [FreeCq, FreeAlarm]))"

section \<open>The default instance\<close>

text \<open>
  The function-local static: \<open>None\<close> until the first call. Each instance has a number; \<open>made\<close> counts
  the instances made, \<open>shared\<close> the references handed out besides the static one.
\<close>

record default_queue =
  instance_of :: "nat option"
  made :: nat
  shared :: nat

definition get_default :: "default_queue \<Rightarrow> default_queue \<times> nat" where
  "get_default s =
     (case instance_of s of
        None \<Rightarrow> (s\<lparr>instance_of := Some (made s), made := Suc (made s), shared := Suc (shared s)\<rparr>, made s)
      | Some i \<Rightarrow> (s\<lparr>shared := Suc (shared s)\<rparr>, i))"

fun get_defaults :: "nat \<Rightarrow> default_queue \<Rightarrow> default_queue \<times> nat list" where
  "get_defaults 0 s = (s, [])"
| "get_defaults (Suc n) s =
     (case get_default s of (s, i) \<Rightarrow> (case get_defaults n s of (s, is) \<Rightarrow> (s, i # is)))"

section \<open>Properties\<close>

lemma get_defaults_made:
  "instance_of s = Some i \<Longrightarrow> get_defaults n s = (s\<lparr>shared := shared s + n\<rparr>, replicate n i)"
  by (induction n arbitrary: s) (simp_all add: get_default_def)

text \<open>
  All users of the default queue share one instance, made by the first of them: however often it is
  asked for, exactly one queue is made, everyone gets that one, and each holds a reference to it. A
  queue is torn down, from any other thread, by shutting it down, joining its worker, which by then has
  drained it, and only then freeing the completion queue and the alarm.
\<close>

lemma default_queue_is_shared:
  "(\<exists>s. get_defaults (Suc n) \<lparr>instance_of = None, made = 0, shared = 0\<rparr> = (s, replicate (Suc n) 0) \<and>
      made s = 1 \<and> shared s = Suc n) \<and>
   client_cq_destructor False (fst client_cq_constructor) =
     Some [ShutdownCq, JoinWorker, FreeCq, FreeAlarm]"
  by (simp add: get_default_def get_defaults_made client_cq_destructor_def client_cq_constructor_def)

section \<open>Who destroys the default queue\<close>

text \<open>
  The static reference goes at the exit of the program; the others are members of awaiters and of the
  state of streaming calls, which a completion may delete on the worker of the queue. The last one to go
  destroys the queue where it goes.
\<close>

record queue_refs =
  static_ref :: bool
  call_refs :: nat

definition drop_static :: "queue_refs \<Rightarrow> queue_refs" where
  "drop_static r = r\<lparr>static_ref := False\<rparr>"

definition drop_call :: "queue_refs \<Rightarrow> queue_refs" where
  "drop_call r = r\<lparr>call_refs := call_refs r - 1\<rparr>"

definition after_drop :: "bool \<Rightarrow> client_cq \<Rightarrow> queue_refs \<Rightarrow> queue_call list option" where
  "after_drop on_worker s r =
     (if static_ref r \<or> 0 < call_refs r then Some [] else client_cq_destructor on_worker s)"

text \<open>
  While the static reference exists no call ever destroys the queue. After it, the exit leaves the queue to
  the calls that still hold it, and if the last of them is deleted by a completion, the worker joins
  itself in the destructor and the program is terminated.
\<close>

lemma last_reference_on_worker:
  "(static_ref r \<longrightarrow> after_drop on_worker s (drop_call r) = Some []) \<and>
   after_drop False s (drop_static \<lparr>static_ref = True, call_refs = 1\<rparr>) = Some [] \<and>
   after_drop True (fst client_cq_constructor)
     (drop_call (drop_static \<lparr>static_ref = True, call_refs = 1\<rparr>)) = None"
  by (simp add: after_drop_def drop_static_def drop_call_def client_cq_destructor_def client_cq_constructor_def)

end
