(* ===== verification/Client_Life.thy ===== *)
theory Client_Life
  imports Client_Queue
begin

text \<open>
  The client queue from its construction to its destruction: the one worker thread of
  \<open>src/grpc/client_cq.cpp\<close>, in its loop or in \<open>handle_event\<close>, the threads that push, and the thread
  that destroys the queue, step by step.
\<close>

section \<open>State and steps\<close>

datatype cq_worker = InNext | InHandler | LoopLeft

record ('fn, 'q) client_life =
  q_dispatch :: "('fn, 'q) client_dispatch"
  q_worker :: cq_worker
  q_open :: bool                \<comment> \<open>\<open>m_cq\<close> was not shut down\<close>
  q_joined :: bool              \<comment> \<open>the destructor joined the worker\<close>

definition client_life_init :: "'q \<Rightarrow> ('fn, 'q) client_life" where
  "client_life_init empty_q =
     \<lparr>q_dispatch = client_init empty_q, q_worker = InNext, q_open = True, q_joined = False\<rparr>"

definition on_dispatch ::
  "(('fn, 'q) client_dispatch \<Rightarrow> ('fn, 'q) client_dispatch) \<Rightarrow> ('fn, 'q) client_life \<Rightarrow> ('fn, 'q) client_life" where
  "on_dispatch f s = s\<lparr>q_dispatch := f (q_dispatch s)\<rparr>"

text \<open>\<open>m_cq.Next\<close> returns the event of the alarm, and the loop calls \<open>handle_event\<close>.\<close>

definition worker_enters :: "('fn, 'q) client_life \<Rightarrow> ('fn, 'q) client_life" where
  "worker_enters s = (on_dispatch client_deliver s)\<lparr>q_worker := InHandler\<rparr>"

text \<open>A round of the loop in \<open>handle_event\<close>; the handler returns when the queue is empty.\<close>

definition worker_pops ::
  "('q \<Rightarrow> ('fn option \<times> 'q) option) \<Rightarrow> ('fn, 'q) client_life \<Rightarrow> ('fn, 'q) client_life" where
  "worker_pops pop s =
     (on_dispatch (client_pop pop) s)\<lparr>q_worker := (if pop (c_dispatched (q_dispatch s)) = None then InNext else InHandler)\<rparr>"

text \<open>\<open>m_cq.Shutdown()\<close>: after it the loop goes on until there are no more events.\<close>

definition destructor_shuts_down :: "('fn, 'q) client_life \<Rightarrow> ('fn, 'q) client_life" where
  "destructor_shuts_down s = s\<lparr>q_open := False\<rparr>"

definition worker_leaves :: "('fn, 'q) client_life \<Rightarrow> ('fn, 'q) client_life" where
  "worker_leaves s = s\<lparr>q_worker := LoopLeft\<rparr>"

definition destructor_joins :: "('fn, 'q) client_life \<Rightarrow> ('fn, 'q) client_life" where
  "destructor_joins s = s\<lparr>q_joined := True\<rparr>"

text \<open>
  Pushing threads are inside \<open>push\<close> only while the object lives: none is when the destructor starts and
  none comes after. \<open>Next\<close> returns false when the queue is shut down and no event is left.
\<close>

inductive life_step ::
  "('fn option \<Rightarrow> 'q \<Rightarrow> 'q) \<Rightarrow> ('q \<Rightarrow> ('fn option \<times> 'q) option) \<Rightarrow>
     ('fn, 'q) client_life \<Rightarrow> ('fn, 'q) client_life \<Rightarrow> bool"
  for emplace pop where
  pushes: "q_open s \<Longrightarrow> life_step emplace pop s (on_dispatch (client_emplace emplace fn) s)"
| tests: "0 < c_emplaced (q_dispatch s) \<Longrightarrow> life_step emplace pop s (on_dispatch client_test_and_set s)"
| sets: "0 < c_setting (q_dispatch s) \<Longrightarrow> life_step emplace pop s (on_dispatch client_set_alarm s)"
| enters: "q_worker s = InNext \<Longrightarrow> 0 < c_alarms (q_dispatch s) \<Longrightarrow> life_step emplace pop s (worker_enters s)"
| clears: "q_worker s = InHandler \<Longrightarrow> 0 < c_entered (q_dispatch s) \<Longrightarrow>
     life_step emplace pop s (on_dispatch client_clear s)"
| pops: "q_worker s = InHandler \<Longrightarrow> 0 < c_popping (q_dispatch s) \<Longrightarrow> life_step emplace pop s (worker_pops pop s)"
| shuts_down: "q_open s \<Longrightarrow> c_emplaced (q_dispatch s) = 0 \<Longrightarrow> c_setting (q_dispatch s) = 0 \<Longrightarrow>
     life_step emplace pop s (destructor_shuts_down s)"
| leaves: "q_worker s = InNext \<Longrightarrow> \<not> q_open s \<Longrightarrow> c_alarms (q_dispatch s) = 0 \<Longrightarrow>
     life_step emplace pop s (worker_leaves s)"
| joins: "q_worker s = LoopLeft \<Longrightarrow> \<not> q_open s \<Longrightarrow> \<not> q_joined s \<Longrightarrow>
     life_step emplace pop s (destructor_joins s)"

abbreviation "life_reaches empty_q emplace pop s \<equiv> (life_step emplace pop)\<^sup>*\<^sup>* (client_life_init empty_q) s"

lemmas life_defs = on_dispatch_def worker_enters_def worker_pops_def destructor_shuts_down_def
  worker_leaves_def destructor_joins_def

section \<open>The invariant\<close>

text \<open>Where the worker is, against what the dispatcher counts.\<close>

definition life_inv :: "('fn, 'q) client_life \<Rightarrow> bool" where
  "life_inv s \<longleftrightarrow>
     c_entered (q_dispatch s) + c_popping (q_dispatch s) = (if q_worker s = InHandler then 1 else 0) \<and>
     (\<not> q_open s \<longrightarrow> c_emplaced (q_dispatch s) = 0 \<and> c_setting (q_dispatch s) = 0) \<and>
     (q_worker s = LoopLeft \<longrightarrow> \<not> q_open s \<and> c_alarms (q_dispatch s) = 0) \<and>
     (q_joined s \<longrightarrow> q_worker s = LoopLeft)"

lemma life_inv_init: "life_inv (client_life_init empty_q)"
  by (simp add: life_inv_def client_life_init_def client_init_def)

lemma life_inv_step:
  assumes "life_step emplace pop s t" and "life_inv s"
  shows "life_inv t"
  using assms
  by (cases rule: life_step.cases)
     (auto simp: life_inv_def life_defs client_emplace_def client_test_and_set_def client_set_alarm_def
      client_deliver_def client_clear_def client_pop_def Let_def split: if_splits option.splits)

text \<open>Every step is one of the dispatcher, or none of its business.\<close>

lemma life_step_dispatch:
  assumes "life_step emplace pop s t"
  shows "q_dispatch t = q_dispatch s \<or>
    pushes_and_steps (client_emplace emplace) (client_step pop) (q_dispatch s) (q_dispatch t)"
  using assms
  by (cases rule: life_step.cases)
     (auto simp: life_defs pushes_and_steps_def intro: client_step.intros)

lemma life_reaches_client:
  assumes "life_reaches empty_q emplace pop s"
  shows "client_reaches empty_q emplace pop (q_dispatch s) \<and> life_inv s"
  using assms
proof (induction rule: rtranclp_induct)
  case base
  show ?case using life_inv_init by (simp add: client_life_init_def)
next
  case (step u v)
  then show ?case
    using life_step_dispatch [OF step(2)] life_inv_step [OF step(2)]
    by (metis rtranclp.rtrancl_into_rtrancl)
qed

section \<open>After the shutdown\<close>

fun worker_stage :: "cq_worker \<Rightarrow> nat" where
  "worker_stage LoopLeft = 0"
| "worker_stage _ = 1"

definition life_left :: "'f dispatch \<Rightarrow> ('fn, 'q) client_life \<Rightarrow> nat" where
  "life_left a s = work_left a + worker_stage (q_worker s) + (if q_joined s then 0 else 1)"

context function_queue
begin

text \<open>Once the queue is shut down, every step uses up work, the dispatcher's or the destructor's own.\<close>

lemma closed_step_cases:
  assumes "life_step emplace pop s t" and "\<not> q_open s"
  shows "\<not> q_open t \<and>
    (client_step pop (q_dispatch s) (q_dispatch t) \<and> q_joined t = q_joined s \<and>
       worker_stage (q_worker t) \<le> worker_stage (q_worker s) \<or>
     q_dispatch t = q_dispatch s \<and> (\<forall>a :: 'fn option dispatch. life_left a t < life_left a s))"
  using assms by (cases rule: life_step.cases) (auto simp: life_defs life_left_def intro: client_step.intros)

lemma closed_step_works:
  assumes "life_step emplace pop s t" and "\<not> q_open s" and "client_rel contents (q_dispatch s) a"
  shows "\<exists>b. client_rel contents (q_dispatch t) b \<and> \<not> q_open t \<and> life_left b t < life_left a s"
  using closed_step_cases [OF assms(1,2)]
proof (elim conjE disjE)
  assume st: "client_step pop (q_dispatch s) (q_dispatch t)" and "\<not> q_open t" "q_joined t = q_joined s"
    "worker_stage (q_worker t) \<le> worker_stage (q_worker s)"
  moreover obtain b where "dispatch_step a b" "client_rel contents (q_dispatch t) b"
    using client_simulates [OF assms(3) st] by blast
  ultimately show ?thesis
    using dispatch_step_works [of a b] by (intro exI [of _ b]) (simp add: life_left_def)
next
  assume "\<not> q_open t" "q_dispatch t = q_dispatch s" "\<forall>a :: 'fn option dispatch. life_left a t < life_left a s"
  with assms(3) show ?thesis by (intro exI [of _ a]) simp
qed

lemma closed_runs_bounded:
  "(life_step emplace pop ^^ k) s t \<Longrightarrow> \<not> q_open s \<Longrightarrow> client_rel contents (q_dispatch s) a \<Longrightarrow>
     \<exists>b. client_rel contents (q_dispatch t) b \<and> \<not> q_open t \<and> life_left b t + k \<le> life_left a s"
proof (induction k arbitrary: t)
  case (Suc k)
  from Suc.prems(1) obtain u where u: "(life_step emplace pop ^^ k) s u" "life_step emplace pop u t" by auto
  obtain b where b: "client_rel contents (q_dispatch u) b" "\<not> q_open u" "life_left b u + k \<le> life_left a s"
    using Suc.IH [OF u(1) Suc.prems(2,3)] by blast
  from closed_step_works [OF u(2) b(2,1)] b(3) show ?case by fastforce
qed auto

text \<open>A worker that left its loop has left nothing behind.\<close>

lemma left_empty:
  assumes "life_inv s" and "client_rel contents (q_dispatch s) a" and "dispatch_inv a"
    and "q_worker s = LoopLeft"
  shows "d_queue a = [] \<and> d_popped a = d_pushed a"
proof -
  have "\<not> attended a"
    using assms by (cases "d_token a") (auto simp: life_inv_def client_rel_def attended_def)
  with assms(3) show ?thesis by (simp add: dispatch_inv_def)
qed

lemma closed_progress:
  assumes "life_inv s" and "client_rel contents (q_dispatch s) a" and "\<not> q_open s" and "\<not> q_joined s"
  shows "\<exists>t. life_step emplace pop s t"
proof (cases "q_worker s")
  case InNext
  then show ?thesis
    using assms(3) life_step.enters [of s emplace pop] life_step.leaves [of s emplace pop] by blast
next
  case InHandler
  then have "0 < c_entered (q_dispatch s) \<or> 0 < c_popping (q_dispatch s)"
    using assms(1) by (auto simp: life_inv_def)
  with InHandler show ?thesis
    using life_step.clears [of s emplace pop] life_step.pops [of s emplace pop] by blast
next
  case LoopLeft
  with assms(3,4) show ?thesis using life_step.joins [of s emplace pop] by blast
qed

end

section \<open>Properties\<close>

text \<open>A function is pushed, and its alarm is set and delivered; then the queue is shut down.\<close>

definition ex_closed :: "(nat, nat option list) client_life" where
  "ex_closed = destructor_shuts_down (on_dispatch client_set_alarm (on_dispatch client_test_and_set
     (on_dispatch (client_emplace list_emplace (Some 5)) (client_life_init []))))"

lemma ex_closed_reached: "life_reaches [] list_emplace list_pop ex_closed"
proof -
  let ?s1 = "on_dispatch (client_emplace list_emplace (Some 5)) (client_life_init [])
    :: (nat, nat option list) client_life"
  let ?s2 = "on_dispatch client_test_and_set ?s1" let ?s3 = "on_dispatch client_set_alarm ?s2"
  have st1: "life_step list_emplace list_pop (client_life_init []) ?s1"
    by (rule life_step.pushes) (simp add: client_life_init_def)
  have st2: "life_step list_emplace list_pop ?s1 ?s2"
    by (rule life_step.tests) (simp add: on_dispatch_def client_emplace_def)
  have st3: "life_step list_emplace list_pop ?s2 ?s3"
    by (rule life_step.sets) (simp add: on_dispatch_def client_emplace_def client_life_init_def client_init_def client_test_and_set_def)
  have st4: "life_step list_emplace list_pop ?s3 ex_closed" unfolding ex_closed_def
    by (rule life_step.shuts_down) (simp_all add: on_dispatch_def client_emplace_def client_life_init_def
      client_init_def client_test_and_set_def client_set_alarm_def)
  note run = rtranclp.rtrancl_into_rtrancl
  show ?thesis
    by (rule run [OF run [OF run [OF r_into_rtranclp [where r = "life_step list_emplace list_pop", OF st1] st2] st3] st4])
qed

text \<open>
Destroying the client queue loses no function: when the destructor has joined the worker, every
function pushed in the life of the queue has been taken out, in order, and the non-empty ones were called,
those whose alarm was still pending at the shutdown included.
\<close>

theorem client_queue_runs_everything:
  assumes "function_queue empty_q emplace pop contents" and "life_reaches empty_q emplace pop s"
    and "q_joined s"
  shows "contents (c_dispatched (q_dispatch s)) = [] \<and>
    c_popped (q_dispatch s) = c_pushed (q_dispatch s) \<and>
    executed (c_popped (q_dispatch s)) = executed (c_pushed (q_dispatch s))"
proof -
  have r: "client_reaches empty_q emplace pop (q_dispatch s)" and inv: "life_inv s"
    using life_reaches_client [OF assms(2)] by simp_all
  obtain a where a: "client_rel contents (q_dispatch s) a" "dispatch_inv a"
    using function_queue.client_facts(1) [OF assms(1) r] by blast
  have "q_worker s = LoopLeft" using inv assms(3) by (simp add: life_inv_def)
  from function_queue.left_empty [OF assms(1) inv a this] a(1) show ?thesis by (simp add: client_rel_def)
qed

text \<open>The run of the example goes on: the worker handles the alarm, leaves the loop and is joined.\<close>

definition ex_joined :: "(nat, nat option list) client_life" where
  "ex_joined = destructor_joins (worker_leaves (worker_pops list_pop (worker_pops list_pop
     (on_dispatch client_clear (worker_enters ex_closed)))))"

lemmas ex_life_defs = ex_closed_def life_defs client_emplace_def client_life_init_def client_init_def
  client_test_and_set_def client_set_alarm_def client_deliver_def client_clear_def client_pop_def list_pop_def

lemma ex_joined_reached: "life_reaches [] list_emplace list_pop ex_joined"
proof -
  let ?s1 = "worker_enters ex_closed" let ?s2 = "on_dispatch client_clear ?s1"
  let ?s3 = "worker_pops list_pop ?s2" let ?s4 = "worker_pops list_pop ?s3" let ?s5 = "worker_leaves ?s4"
  have st1: "life_step list_emplace list_pop ex_closed ?s1"
    by (rule life_step.enters) (simp_all add: ex_life_defs)
  have st2: "life_step list_emplace list_pop ?s1 ?s2"
    by (rule life_step.clears) (simp_all add: ex_life_defs)
  have st3: "life_step list_emplace list_pop ?s2 ?s3"
    by (rule life_step.pops) (simp_all add: ex_life_defs)
  have st4: "life_step list_emplace list_pop ?s3 ?s4"
    by (rule life_step.pops) (simp_all add: ex_life_defs)
  have st5: "life_step list_emplace list_pop ?s4 ?s5"
    by (rule life_step.leaves) (simp_all add: ex_life_defs)
  have st6: "life_step list_emplace list_pop ?s5 ex_joined" unfolding ex_joined_def
    by (rule life_step.joins) (simp_all add: ex_life_defs)
  note run = rtranclp.rtrancl_into_rtrancl
  show ?thesis
    by (rule run [OF run [OF run [OF run [OF run [OF run [OF ex_closed_reached st1] st2] st3] st4] st5] st6])
qed

theorem client_queue_runs_everything_witness:
  "q_joined ex_joined \<and> executed (c_popped (q_dispatch ex_joined)) = [5]"
proof -
  have j: "q_joined ex_joined" by (simp add: ex_joined_def destructor_joins_def)
  have "c_pushed (q_dispatch ex_joined) = [Some 5]" by (simp add: ex_joined_def ex_life_defs)
  with j client_queue_runs_everything [OF list_functions_queue ex_joined_reached j] show ?thesis
    by (simp add: executed_def)
qed

text \<open>
The destructor of the client queue returns: once it has shut the queue down, every run of the program's
threads ends, and as long as the worker has not been joined one of them can go on.
\<close>

theorem client_queue_destructor_returns:
  assumes "function_queue empty_q emplace pop contents" and "life_reaches empty_q emplace pop s"
    and "\<not> q_open s"
  shows "runs_bounded (life_step emplace pop) s \<and> (q_joined s \<or> (\<exists>t. life_step emplace pop s t))"
proof -
  have r: "client_reaches empty_q emplace pop (q_dispatch s)" and inv: "life_inv s"
    using life_reaches_client [OF assms(2)] by simp_all
  obtain a where a: "client_rel contents (q_dispatch s) a" "dispatch_inv a"
    using function_queue.client_facts(1) [OF assms(1) r] by blast
  have "runs_bounded (life_step emplace pop) s"
    unfolding runs_bounded_def
    using function_queue.closed_runs_bounded [OF assms(1) _ assms(3) a(1)]
    by (intro exI [of _ "life_left a s"]) fastforce
  then show ?thesis using function_queue.closed_progress [OF assms(1) inv a(1) assms(3)] by blast
qed

theorem client_queue_destructor_returns_witness:
  "runs_bounded (life_step list_emplace list_pop) ex_closed \<and>
   (q_joined ex_closed \<or> (\<exists>t. life_step list_emplace list_pop ex_closed t))"
  by (rule client_queue_destructor_returns [OF list_functions_queue ex_closed_reached])
     (simp add: ex_closed_def destructor_shuts_down_def)

end
