(* ===== verification/Client_Calls.thy ===== *)
theory Client_Calls
  imports Client_Life Streaming_Correct
begin

text \<open>
  A client queue with the streaming calls on it (\<open>src/grpc/client_cq.cpp\<close>, \<open>include/asyncpp/grpc/call.h\<close>):
  the worker, the pushing threads and the destructor as in the theory of the life of the queue, the users of
  the calls and the runtime that completes their operations. The calls are given the queue explicitly, so
  that nothing but the program keeps it alive.
\<close>

section \<open>State and steps\<close>

text \<open>\<open>k_left\<close>: how many actions the user of the call takes once the queue is being destroyed.\<close>

record 'req live_call =
  k_type :: rpc_method_type
  k_left :: nat
  k_sys :: "'req call_sys"

text \<open>\<open>z_late\<close>: an operation was issued on the queue after it was shut down, which ends the program.\<close>

record ('req, 'fn, 'q) called =
  z_life :: "('fn, 'q) client_life"
  z_calls :: "'req live_call list"
  z_late :: bool

definition called_init :: "'q \<Rightarrow> ('req, 'fn, 'q) called" where
  "called_init empty_q = \<lparr>z_life = client_life_init empty_q, z_calls = [], z_late = False\<rparr>"

definition make_call :: "rpc_method_type \<Rightarrow> nat \<Rightarrow> 'req live_call" where
  "make_call T k = \<lparr>k_type = T, k_left = k, k_sys = initial_call\<rparr>"

text \<open>A step of a call leaves this behind; \<open>issues\<close> is whether it issued an operation.\<close>

definition issues :: "'req call_sys \<Rightarrow> 'req call_sys \<Rightarrow> bool" where
  "issues s t \<longleftrightarrow> pending t - pending s \<noteq> {#}"

definition call_moves ::
  "nat \<Rightarrow> 'req live_call \<Rightarrow> ('req, 'fn, 'q) called \<Rightarrow> ('req, 'fn, 'q) called" where
  "call_moves j c s =
     s\<lparr>z_calls := (z_calls s)[j := c], z_late := issues (k_sys (z_calls s ! j)) (k_sys c) \<and> \<not> q_open (z_life s)\<rparr>"

text \<open>The queue a call is started on is this one, which is given a name, here 0.\<close>

fun on_queue :: "'req call_action \<Rightarrow> bool" where
  "on_queue (Start req cq) = (cq = Some 0)"
| "on_queue _ = True"

text \<open>
  The worker leaves its loop when \<open>Next\<close> returns false, which it does when the queue was shut down and
  has no event left, that of an operation of a call included. Users act within their rights.
\<close>

inductive called_step ::
  "('fn option \<Rightarrow> 'q \<Rightarrow> 'q) \<Rightarrow> ('q \<Rightarrow> ('fn option \<times> 'q) option) \<Rightarrow>
     ('req, 'fn, 'q) called \<Rightarrow> ('req, 'fn, 'q) called \<Rightarrow> bool"
  for emplace pop where
  lives: "\<not> z_late s \<Longrightarrow> life_step emplace pop (z_life s) l \<Longrightarrow>
     q_worker l = LoopLeft \<longrightarrow> q_worker (z_life s) = LoopLeft \<or> list_all (\<lambda>c. pending (k_sys c) = {#}) (z_calls s) \<Longrightarrow>
     called_step emplace pop s (s\<lparr>z_life := l\<rparr>)"
| makes: "\<not> z_late s \<Longrightarrow> q_open (z_life s) \<Longrightarrow> called_step emplace pop s (s\<lparr>z_calls := z_calls s @ [make_call T k]\<rparr>)"
| acts: "\<not> z_late s \<Longrightarrow> j < length (z_calls s) \<Longrightarrow> z_calls s ! j = c \<Longrightarrow> user_of (k_sys c) = Running \<Longrightarrow>
     q_open (z_life s) \<or> 0 < k_left c \<Longrightarrow> on_queue a \<Longrightarrow> proper a (k_sys c) \<Longrightarrow>
     perform (k_type c) dcq h a (k_sys c) = Some t \<Longrightarrow>
     called_step emplace pop s
       (call_moves j (c\<lparr>k_left := (if q_open (z_life s) then k_left c else k_left c - 1), k_sys := t\<rparr>) s)"
| stores: "\<not> z_late s \<Longrightarrow> j < length (z_calls s) \<Longrightarrow> z_calls s ! j = c \<Longrightarrow> assigning (k_sys c) = Some (x, b) \<Longrightarrow>
     called_step emplace pop s (call_moves j (c\<lparr>k_sys := store_stream x b (k_sys c)\<rparr>) s)"
| completes: "\<not> z_late s \<Longrightarrow> j < length (z_calls s) \<Longrightarrow> z_calls s ! j = c \<Longrightarrow> q_worker (z_life s) = InNext \<Longrightarrow>
     tag \<in># pending (k_sys c) \<Longrightarrow> assigning (k_sys c) = None \<Longrightarrow>
     called_step emplace pop s (call_moves j (c\<lparr>k_sys := complete (k_type c) tag ok (k_sys c)\<rparr>) s)"

abbreviation "called_reaches empty_q emplace pop s \<equiv> (called_step emplace pop)\<^sup>*\<^sup>* (called_init empty_q) s"

section \<open>One call\<close>

text \<open>What is left to do for a call, action by action of its user and completion by completion.\<close>

fun call_stage :: "call_phase \<Rightarrow> nat" where
  "call_stage Storing = 3"
| "call_stage Starting = 2"
| "call_stage HalfClosing = 2"
| "call_stage Detaching = 2"
| "call_stage Operating = 1"
| "call_stage Finishing = 1"
| "call_stage Detached = 1"
| "call_stage _ = 0"

definition call_left :: "'req live_call \<Rightarrow> nat" where
  "call_left c = call_stage (call_phase_of (k_sys c)) + 4 * k_left c"

definition call_ok :: "'req live_call \<Rightarrow> bool" where
  "call_ok c \<longleftrightarrow> call_inv (k_type c) (call_phase_of (k_sys c)) (k_sys c)"

lemma call_okI: "call_inv (k_type c) ph (k_sys c) \<Longrightarrow> call_ok c \<and> call_phase_of (k_sys c) = ph"
  using call_phase_unique [of "k_type c" ph "k_sys c"] by (simp add: call_ok_def)

lemma made_ok:
  fixes T :: rpc_method_type and k :: nat
  defines "c \<equiv> make_call T k :: 'req live_call"
  shows "call_ok c" and "call_phase_of (k_sys c) = Idle" and "pending (k_sys c) = {#}"
proof -
  have "call_inv (k_type c) Idle (k_sys c)" by (simp add: c_def make_call_def call_inv_initial)
  from call_okI [OF this] this show "call_ok c" "call_phase_of (k_sys c) = Idle" "pending (k_sys c) = {#}"
    by (simp_all add: call_inv_defs)
qed

lemma call_stage_bound: "call_stage ph \<le> 3"
  by (cases ph) simp_all

text \<open>An action: the user was running, so that nothing was pending.\<close>

lemma user_acts:
  assumes "call_ok c" and "user_of (k_sys c) = Running" and "proper a (k_sys c)"
    and "perform (k_type c) dcq h a (k_sys c) = Some t"
  shows "call_inv (k_type c) (call_phase_of t) t" and "pending (k_sys c) = {#}"
proof -
  let ?ph = "call_phase_of (k_sys c)"
  have inv: "call_inv (k_type c) ?ph (k_sys c)" using assms(1) by (simp add: call_ok_def)
  have "?ph \<in> {Idle, Active}" by (rule running_assigns_nothing(2) [OF inv assms(2)])
  then show "pending (k_sys c) = {#}" using inv by (auto simp: call_inv_defs)
  have "\<exists>ph'. call_inv (k_type c) ph' t"
    using \<open>?ph \<in> {Idle, Active}\<close> idle_acts [OF _ assms(3,4)] active_acts [OF _ assms(3,4)] inv by auto
  then show "call_inv (k_type c) (call_phase_of t) t" using call_phase_unique by metis
qed

lemma stream_stored:
  assumes "call_ok c" and "assigning (k_sys c) = Some (x, b)"
  shows "call_phase_of (k_sys c) = Storing" and "call_inv (k_type c) Starting (store_stream x b (k_sys c))"
    and "pending (store_stream x b (k_sys c)) = pending (k_sys c)"
proof -
  have inv: "call_inv (k_type c) (call_phase_of (k_sys c)) (k_sys c)" using assms(1) by (simp add: call_ok_def)
  then show ph: "call_phase_of (k_sys c) = Storing" using assms(2) by (auto simp: call_inv_defs split: if_splits)
  show st: "call_inv (k_type c) Starting (store_stream x b (k_sys c))"
    using storing_stores inv assms(2) unfolding ph by blast
  show "pending (store_stream x b (k_sys c)) = pending (k_sys c)" using inv st unfolding ph by (simp add: call_inv_defs)
qed

text \<open>A completion: the phase goes on, and only two phases issue another operation.\<close>

lemma operation_completes:
  fixes ok :: bool and c :: "'req live_call"
  assumes "call_ok c" and "tag \<in># pending (k_sys c)" and "assigning (k_sys c) = None"
  defines "t \<equiv> complete (k_type c) tag ok (k_sys c)"
  shows "call_inv (k_type c) (call_phase_of t) t" and "call_phase_step (call_phase_of (k_sys c)) (call_phase_of t)"
    and "call_stage (call_phase_of t) < call_stage (call_phase_of (k_sys c))"
    and "issues (k_sys c) t \<longleftrightarrow> call_phase_of (k_sys c) \<in> {Detaching, HalfClosing}"
proof -
  let ?ph = "call_phase_of (k_sys c)"
  have inv: "call_inv (k_type c) ?ph (k_sys c)" using assms(1) by (simp add: call_ok_def)
  obtain ph' where ph': "call_phase_step ?ph ph'" "call_inv (k_type c) ph' t"
    using completion_keeps_inv [OF inv assms(2,3), of ok] unfolding t_def by blast
  have eq: "call_phase_of t = ph'" by (rule call_phase_unique [OF ph'(2)])
  show "call_inv (k_type c) (call_phase_of t) t" "call_phase_step ?ph (call_phase_of t)" using ph' eq by simp_all
  have pend: "pending (k_sys c) = call_awaits ?ph" "pending t = call_awaits ph'" "?ph \<noteq> Storing"
    using inv ph'(2) assms(3) by (auto simp: call_inv_defs)
  then have "call_awaits ?ph \<noteq> {#}" using assms(2) by auto
  then have "call_stage ph' < call_stage ?ph \<and> (issues (k_sys c) t \<longleftrightarrow> ?ph \<in> {Detaching, HalfClosing})"
    using ph'(1) pend by (cases ?ph) (auto simp: issues_def)
  then show "call_stage (call_phase_of t) < call_stage ?ph" "issues (k_sys c) t \<longleftrightarrow> ?ph \<in> {Detaching, HalfClosing}"
    by (simp_all add: eq)
qed

section \<open>The invariant\<close>

definition called_inv :: "('req, 'fn, 'q) called \<Rightarrow> bool" where
  "called_inv s \<longleftrightarrow> life_inv (z_life s) \<and> list_all call_ok (z_calls s) \<and>
     (q_worker (z_life s) = LoopLeft \<longrightarrow> z_late s \<or> list_all (\<lambda>c. pending (k_sys c) = {#}) (z_calls s))"

lemma update_all: "list_all P xs \<Longrightarrow> P x \<Longrightarrow> list_all P (xs[j := x])"
  by (induction xs arbitrary: j) (auto split: nat.split)

lemma nth_all: "list_all P xs \<Longrightarrow> j < length xs \<Longrightarrow> P (xs ! j)"
  by (simp add: list_all_length)

text \<open>A call that moves after the worker has left issues an operation too late, or has nothing pending.\<close>

lemma moved_inv:
  assumes "called_inv s" and "\<not> z_late s" and "j < length (z_calls s)" and "call_ok c"
    and "q_worker (z_life s) = LoopLeft \<Longrightarrow> pending (k_sys (z_calls s ! j)) = {#} \<Longrightarrow>
      issues (k_sys (z_calls s ! j)) (k_sys c) \<or> pending (k_sys c) = {#}"
  shows "called_inv (call_moves j c s)"
proof -
  have "\<not> q_open (z_life s)" if "q_worker (z_life s) = LoopLeft"
    using assms(1) that by (simp add: called_inv_def life_inv_def)
  moreover have "issues (k_sys (z_calls s ! j)) (k_sys c) \<or> list_all (\<lambda>c. pending (k_sys c) = {#}) ((z_calls s)[j := c])"
    if "q_worker (z_life s) = LoopLeft"
  proof -
    have all: "list_all (\<lambda>c. pending (k_sys c) = {#}) (z_calls s)" using assms(1,2) that by (simp add: called_inv_def)
    have "pending (k_sys (z_calls s ! j)) = {#}" using nth_all [OF all assms(3)] .
    from assms(5) [OF that this] show ?thesis using update_all [OF all, of c j] by fast
  qed
  ultimately show ?thesis
    using assms(1,4) by (auto simp: called_inv_def call_moves_def update_all)
qed

lemma called_inv_step:
  assumes "called_step emplace pop s t" and "called_inv s"
  shows "called_inv t"
  using assms(1)
proof cases
  case (lives l)
  then show ?thesis using assms(2) life_inv_step [OF lives(3)] by (auto simp: called_inv_def)
next
  case (makes T k)
  then show ?thesis using assms(2) made_ok [of T k] by (auto simp: called_inv_def life_inv_def)
next
  case (acts j c a dcq h u)
  have "call_ok c" using assms(2) acts(3,4) by (auto simp: called_inv_def nth_all)
  note act = user_acts [OF this acts(5,8,9)]
  show ?thesis unfolding acts(1)
    by (rule moved_inv [OF assms(2) acts(2,3)])
       (use act acts(4) call_okI in \<open>auto simp: issues_def call_ok_def\<close>)
next
  case (stores j c x b)
  have "call_ok c" using assms(2) stores(3,4) by (auto simp: called_inv_def nth_all)
  note store = stream_stored [OF this stores(5)]
  show ?thesis unfolding stores(1)
    by (rule moved_inv [OF assms(2) stores(2,3)])
       (use store stores(4) call_phase_unique [OF store(2)] in \<open>auto simp: call_ok_def\<close>)
next
  case (completes j c tag ok)
  have "call_ok c" using assms(2) completes(3,4) by (auto simp: called_inv_def nth_all)
  note fin = operation_completes [OF this completes(6,7), of ok]
  show ?thesis unfolding completes(1)
    by (rule moved_inv [OF assms(2) completes(2,3)])
       (use fin completes(4,5) in \<open>auto simp: call_ok_def\<close>)
qed

lemma called_inv_init: "called_inv (called_init empty_q)"
  using life_inv_init [of empty_q] by (simp add: called_inv_def called_init_def)

lemma called_reaches_inv: "called_reaches empty_q emplace pop s \<Longrightarrow> called_inv s"
  by (erule rtranclp_invariant) (auto intro: called_inv_init called_inv_step)

lemma called_life:
  "called_step emplace pop s t \<Longrightarrow> z_life t = z_life s \<or> life_step emplace pop (z_life s) (z_life t)"
  by (erule called_step.cases) (auto simp: call_moves_def)

lemma called_life_reaches:
  "called_reaches empty_q emplace pop s \<Longrightarrow> life_reaches empty_q emplace pop (z_life s)"
proof (induction rule: rtranclp_induct)
  case base
  show ?case by (simp add: called_init_def)
next
  case (step u v)
  then show ?case using called_life [OF step(2)] by (metis rtranclp.rtrancl_into_rtrancl)
qed

section \<open>The queue comes to an end\<close>

definition called_left :: "'f dispatch \<Rightarrow> ('req, 'fn, 'q) called \<Rightarrow> nat" where
  "called_left a s = life_left a (z_life s) + sum_list (map call_left (z_calls s))"

lemma moved_left:
  "j < length xs \<Longrightarrow> call_left c < call_left (xs ! j) \<Longrightarrow>
     sum_list (map call_left (xs[j := c])) < sum_list (map call_left xs)"
proof (induction xs arbitrary: j)
  case (Cons x xs)
  then show ?case by (cases j) auto
qed simp

context function_queue
begin

lemma called_step_works:
  assumes "called_step emplace pop s t" and "called_inv s" and "\<not> q_open (z_life s)"
    and "client_rel contents (q_dispatch (z_life s)) a"
  shows "\<exists>b. client_rel contents (q_dispatch (z_life t)) b \<and> \<not> q_open (z_life t) \<and> called_left b t < called_left a s"
proof -
  have moves: ?thesis if "t = call_moves j c s" "j < length (z_calls s)" "call_left c < call_left (z_calls s ! j)" for j c
    using that moved_left [of j "z_calls s" c] assms(3,4)
    by (intro exI [of _ a]) (simp add: call_moves_def called_left_def)
  show ?thesis
    using assms(1)
  proof cases
    case (lives l)
    with closed_step_works [OF lives(3) assms(3,4)] show ?thesis by (auto simp: called_left_def)
  next
    case (makes T k)
    with assms(3) show ?thesis by simp
  next
    case (acts j c a' dcq h u)
    have "call_ok c" using assms(2) acts(3,4) by (auto simp: called_inv_def nth_all)
    then show ?thesis
      using moves [OF acts(1,3)] acts(4,6) assms(3) call_stage_bound [of "call_phase_of u"]
      by (auto simp: call_left_def)
  next
    case (stores j c x b)
    have "call_ok c" using assms(2) stores(3,4) by (auto simp: called_inv_def nth_all)
    note store = stream_stored [OF this stores(5)]
    show ?thesis
      by (rule moves [OF stores(1,3)]) (use store(1) stores(4) call_phase_unique [OF store(2)] in \<open>simp add: call_left_def\<close>)
  next
    case (completes j c tag ok)
    have "call_ok c" using assms(2) completes(3,4) by (auto simp: called_inv_def nth_all)
    from operation_completes(3) [OF this completes(6,7), of ok] show ?thesis
      by (intro moves [OF completes(1,3)]) (use completes(4) in \<open>simp add: call_left_def\<close>)
  qed
qed

lemma called_runs_bounded:
  "(called_step emplace pop ^^ k) s t \<Longrightarrow> called_inv s \<Longrightarrow> \<not> q_open (z_life s) \<Longrightarrow>
     client_rel contents (q_dispatch (z_life s)) a \<Longrightarrow>
     \<exists>b. client_rel contents (q_dispatch (z_life t)) b \<and> called_inv t \<and> \<not> q_open (z_life t) \<and>
       called_left b t + k \<le> called_left a s"
proof (induction k arbitrary: t)
  case (Suc k)
  from Suc.prems(1) obtain u where u: "(called_step emplace pop ^^ k) s u" "called_step emplace pop u t" by auto
  obtain b where b: "client_rel contents (q_dispatch (z_life u)) b" "called_inv u" "\<not> q_open (z_life u)"
      "called_left b u + k \<le> called_left a s"
    using Suc.IH [OF u(1) Suc.prems(2,3,4)] by blast
  from called_step_works [OF u(2) b(2,3,1)] b(4) called_inv_step [OF u(2) b(2)] show ?case by fastforce
qed auto

text \<open>Until the worker is joined something goes on: a call's operation, or the queue itself.\<close>

lemma called_goes_on:
  assumes "called_inv s" and "client_rel contents (q_dispatch (z_life s)) a" and "\<not> q_open (z_life s)"
    and "\<not> q_joined (z_life s)" and late: "\<not> z_late s"
  shows "\<exists>t. called_step emplace pop s t"
proof -
  have inv: "life_inv (z_life s)" using assms(1) by (simp add: called_inv_def)
  obtain l where l: "life_step emplace pop (z_life s) l" using closed_progress [OF inv assms(2,3,4)] by blast
  show ?thesis
  proof (cases "list_all (\<lambda>c. pending (k_sys c) = {#}) (z_calls s)")
    case True
    from called_step.lives [OF late l] True show ?thesis by blast
  next
    case False
    then obtain j tag where j: "j < length (z_calls s)" "tag \<in># pending (k_sys (z_calls s ! j))"
      by (auto simp: list_all_length)
    have "q_worker (z_life s) \<noteq> LoopLeft" using assms(1) False late by (auto simp: called_inv_def)
    then consider "assigning (k_sys (z_calls s ! j)) \<noteq> None" | "q_worker (z_life s) = InHandler"
      | "assigning (k_sys (z_calls s ! j)) = None" "q_worker (z_life s) = InNext"
      by (cases "q_worker (z_life s)"; cases "assigning (k_sys (z_calls s ! j)) = None") blast+
    then show ?thesis
    proof cases
      case 1
      then obtain x b where "assigning (k_sys (z_calls s ! j)) = Some (x, b)" by auto
      from called_step.stores [OF late j(1) refl this] show ?thesis by blast
    next
      case 2
      then have "0 < c_entered (q_dispatch (z_life s)) \<or> 0 < c_popping (q_dispatch (z_life s))"
        using inv by (auto simp: life_inv_def)
      then have "\<exists>l. life_step emplace pop (z_life s) l \<and> q_worker l \<noteq> LoopLeft"
      proof
        assume "0 < c_entered (q_dispatch (z_life s))"
        from life_step.clears [OF 2 this] 2 show ?thesis by (intro exI conjI) (auto simp: life_defs)
      next
        assume "0 < c_popping (q_dispatch (z_life s))"
        from life_step.pops [OF 2 this] show ?thesis by (intro exI conjI) (auto simp: life_defs split: if_splits)
      qed
      then obtain l where "life_step emplace pop (z_life s) l" "q_worker l \<noteq> LoopLeft" by blast
      from called_step.lives [OF late this(1)] this(2) show ?thesis by blast
    next
      case 3
      from called_step.completes [OF late j(1) refl 3(2) j(2) 3(1)] show ?thesis by blast
    qed
  qed
qed

end


section \<open>Calls that are over in time\<close>

text \<open>The user of the call takes no action any more, and no operation in flight leads to another.\<close>

definition quiet :: "'req live_call \<Rightarrow> bool" where
  "quiet c \<longleftrightarrow> k_left c = 0 \<and> call_phase_of (k_sys c) \<notin> {Detaching, HalfClosing}"

lemma moved_quiet:
  assumes "list_all quiet (z_calls s)" and "quiet c" and "\<not> issues (k_sys (z_calls s ! j)) (k_sys c)"
  shows "list_all quiet (z_calls (call_moves j c s)) \<and> \<not> z_late (call_moves j c s)"
  using assms by (simp add: call_moves_def update_all)

lemma quiet_step:
  assumes "called_step emplace pop s t" and "called_inv s" and "\<not> q_open (z_life s)" and quiet: "list_all quiet (z_calls s)"
  shows "\<not> q_open (z_life t) \<and> list_all quiet (z_calls t) \<and> \<not> z_late t"
proof -
  have "q_open (z_life t) \<Longrightarrow> q_open (z_life s)"
    using called_life [OF assms(1)] by (auto elim!: life_step.cases simp: life_defs)
  moreover have "list_all quiet (z_calls t) \<and> \<not> z_late t"
    using assms(1)
  proof cases
    case (lives l)
    with quiet show ?thesis by simp
  next
    case (makes T k)
    with assms(3) show ?thesis by simp
  next
    case (acts j c a dcq h u)
    with assms(3) nth_all [OF quiet acts(3)] show ?thesis by (simp add: quiet_def)
  next
    case (stores j c x b)
    have "call_ok c" using assms(2) stores(3,4) by (auto simp: called_inv_def nth_all)
    note store = stream_stored [OF this stores(5)]
    have "call_phase_of (store_stream x b (k_sys c)) = Starting" by (rule call_phase_unique [OF store(2)])
    then show ?thesis unfolding stores(1)
      using nth_all [OF quiet stores(3)] store(3) stores(4)
      by (intro moved_quiet [OF quiet]) (auto simp: quiet_def issues_def)
  next
    case (completes j c tag ok)
    let ?t = "complete (k_type c) tag ok (k_sys c)"
    have ok: "call_ok c" using assms(2) completes(3,4) by (auto simp: called_inv_def nth_all)
    note fin = operation_completes [OF ok completes(6,7)]
    have q: "quiet c" using nth_all [OF quiet completes(3)] completes(4) by simp
    have "call_phase_of (k_sys c) \<noteq> Storing" using ok completes(7) by (auto simp: call_ok_def call_inv_defs)
    then have "call_stage (call_phase_of (k_sys c)) \<le> 2"
      by (cases "call_phase_of (k_sys c)") simp_all
    with fin(3) [of ok] have "call_stage (call_phase_of ?t) \<le> 1" by simp
    then have "quiet (c\<lparr>k_sys := ?t\<rparr>)" using q by (auto simp: quiet_def)
    then show ?thesis unfolding completes(1)
      using q fin(4) [of ok] completes(4) by (intro moved_quiet [OF quiet]) (auto simp: quiet_def)
  qed
  ultimately show ?thesis using assms(3) by blast
qed

lemma quiet_never_late:
  assumes "(called_step emplace pop)\<^sup>*\<^sup>* s t" and "called_inv s" and "\<not> q_open (z_life s)"
    and "list_all quiet (z_calls s)" and "\<not> z_late s"
  shows "\<not> z_late t"
proof -
  have "called_inv t \<and> \<not> q_open (z_life t) \<and> list_all quiet (z_calls t) \<and> \<not> z_late t"
    using assms(1)
    by (induction rule: rtranclp_induct) (use assms(2-5) called_inv_step quiet_step in blast)+
  then show ?thesis by blast
qed

text \<open>A call with nothing outstanding was never used, is active, or was dropped and is gone.\<close>

definition over :: "'req live_call \<Rightarrow> bool" where
  "over c \<longleftrightarrow> pending (k_sys c) = {#} \<and> call_failure (k_sys c) = None \<and>
     (user_of (k_sys c) = Running \<or> cleaned_up (k_sys c))"

lemma nothing_pending_over:
  assumes "call_ok c" and "pending (k_sys c) = {#}"
  shows "over c"
proof -
  let ?ph = "call_phase_of (k_sys c)"
  have inv: "call_inv (k_type c) ?ph (k_sys c)" using assms(1) by (simp add: call_ok_def)
  then have "call_awaits ?ph = {#}" using assms(2) by (simp add: call_inv_defs)
  then consider "?ph = Deleted" | "user_in ?ph = Running" by (cases ?ph) simp_all
  then show ?thesis
  proof cases
    case 1
    with inv have "call_inv (k_type c) Deleted (k_sys c)" by simp
    from deleted_cleaned_up [OF this] show ?thesis by (simp add: over_def cleaned_up_def)
  next
    case 2
    with inv assms(2) show ?thesis by (simp add: over_def call_inv_defs)
  qed
qed

section \<open>A call that is dropped just before the queue\<close>

text \<open>A client-streaming call on the queue is started, becomes active and is dropped.\<close>

definition solo :: "('fn, 'q) client_life \<Rightarrow> nat call_sys \<Rightarrow> (nat, 'fn, 'q) called" where
  "solo l t = \<lparr>z_life = l, z_calls = [(make_call ClientStreaming 0)\<lparr>k_sys := t\<rparr>], z_late = False\<rparr>"

definition ex_given :: "nat call_sys" where
  "ex_given = start_call 7 (start_response 3 (Some 0) make_state) initial_call"

definition ex_running :: "nat call_sys" where
  "ex_running = complete ClientStreaming (0, AwaiterObj) True (store_stream 0 True ex_given)"

definition ex_let_go :: "nat call_sys" where
  "ex_let_go = the (perform ClientStreaming 3 7 Drop ex_running)"

definition ex_too_soon :: "'q \<Rightarrow> (nat, 'fn, 'q) called" where
  "ex_too_soon empty_q = solo (destructor_shuts_down (client_life_init empty_q)) ex_let_go"

lemma ex_given_fields:
  "assigning ex_given = Some (0, True)" "pending ex_given = {#(0, AwaiterObj)#}" "user_of ex_given = Awaiting"
  "assigning (store_stream 0 True ex_given) = None" "pending (store_stream 0 True ex_given) = {#(0, AwaiterObj)#}"
  by (simp_all add: ex_given_def ex_defs)

lemma ex_running_fields: "user_of ex_running = Running" "pending ex_running = {#}" "assigning ex_running = None"
  by (simp_all add: ex_running_def ex_given_def ex_defs)

lemma ex_let_go_fields:
  "user_of ex_let_go = Dropped" "pending ex_let_go = {#(0, StateObj)#}" "assigning ex_let_go = None"
  "call_phase_of ex_let_go = Detaching"
  by (simp_all add: ex_let_go_def ex_running_def ex_given_def call_phase_of_def ex_defs)


lemma solo_call:
  "z_late (solo l t) = False" "z_life (solo l t) = l" "z_calls (solo l t) = [(make_call ClientStreaming 0)\<lparr>k_sys := t\<rparr>]"
  by (simp_all add: solo_def)

lemma solo_moves:
  "q_open l \<Longrightarrow> call_moves 0 ((make_call ClientStreaming 0)\<lparr>k_left := 0, k_sys := u\<rparr>) (solo l t) = solo l u"
  "q_open l \<Longrightarrow> call_moves 0 ((make_call ClientStreaming 0)\<lparr>k_sys := u\<rparr>) (solo l t) = solo l u"
  by (simp_all add: solo_def call_moves_def make_call_def)

lemma solo_acts:
  assumes "q_open l" and "user_of t = Running" and "on_queue a" and "proper a t"
    and "perform ClientStreaming 3 7 a t = Some u"
  shows "called_step emplace pop (solo l t) (solo l u)"
proof -
  let ?c = "(make_call ClientStreaming 0)\<lparr>k_sys := t\<rparr>"
  have "called_step emplace pop (solo l t)
      (call_moves 0 (?c\<lparr>k_left := (if q_open (z_life (solo l t)) then k_left ?c else k_left ?c - 1), k_sys := u\<rparr>) (solo l t))"
    by (rule called_step.acts [where j = 0 and c = ?c and a = a and dcq = 3 and h = 7])
       (use assms in \<open>simp_all add: solo_call make_call_def\<close>)
  then show ?thesis using assms(1) by (simp add: solo_def call_moves_def make_call_def)
qed

lemma solo_stores:
  assumes "q_open l" and "assigning t = Some (x, b)"
  shows "called_step emplace pop (solo l t) (solo l (store_stream x b t))"
proof -
  let ?c = "(make_call ClientStreaming 0)\<lparr>k_sys := t\<rparr>"
  have "called_step emplace pop (solo l t) (call_moves 0 (?c\<lparr>k_sys := store_stream x b (k_sys ?c)\<rparr>) (solo l t))"
    by (rule called_step.stores [where j = 0 and c = ?c]) (use assms in \<open>simp_all add: solo_call make_call_def\<close>)
  then show ?thesis using assms(1) by (simp add: solo_def call_moves_def make_call_def)
qed

lemma solo_completes:
  assumes "q_open l" and "q_worker l = InNext" and "tag \<in># pending t" and "assigning t = None"
  shows "called_step emplace pop (solo l t) (solo l (complete ClientStreaming tag ok t))"
proof -
  let ?c = "(make_call ClientStreaming 0)\<lparr>k_sys := t\<rparr>"
  have "called_step emplace pop (solo l t) (call_moves 0 (?c\<lparr>k_sys := complete (k_type ?c) tag ok (k_sys ?c)\<rparr>) (solo l t))"
    by (rule called_step.completes [where j = 0 and c = ?c]) (use assms in \<open>simp_all add: solo_call make_call_def\<close>)
  then show ?thesis using assms(1) by (simp add: solo_def call_moves_def make_call_def)
qed

lemma solo_shuts_down:
  fixes empty_q :: 'q and t :: "nat call_sys"
  defines "l \<equiv> client_life_init empty_q :: ('fn, 'q) client_life"
  shows "called_step emplace pop (solo l t) (solo (destructor_shuts_down l) t)"
proof -
  have "life_step emplace pop l (destructor_shuts_down l)"
    by (rule life_step.shuts_down) (simp_all add: l_def client_life_init_def client_init_def)
  then have "called_step emplace pop (solo l t) ((solo l t)\<lparr>z_life := destructor_shuts_down l\<rparr>)"
    by (intro called_step.lives) (simp_all add: solo_call l_def client_life_init_def destructor_shuts_down_def)
  then show ?thesis by (simp add: solo_def)
qed

lemma ex_let_go_reached:
  fixes empty_q :: 'q and emplace :: "'fn option \<Rightarrow> 'q \<Rightarrow> 'q"
  defines "l \<equiv> client_life_init empty_q :: ('fn, 'q) client_life"
  shows "called_reaches empty_q emplace pop (solo l ex_let_go)"
proof -
  have open_l: "q_open l" "q_worker l = InNext" by (simp_all add: l_def client_life_init_def)
  have m: "called_step emplace pop (called_init empty_q) (solo l initial_call)"
    using called_step.makes [of "called_init empty_q" emplace pop ClientStreaming 0]
    by (simp add: called_init_def solo_def make_call_def l_def client_life_init_def)
  have s: "called_step emplace pop (solo l initial_call) (solo l ex_given)"
    by (rule solo_acts [OF open_l(1), where a = "Start 0 (Some 0)"]) (simp_all add: proper_def ex_given_def ex_defs)
  have st: "called_step emplace pop (solo l ex_given) (solo l (store_stream 0 True ex_given))"
    by (rule solo_stores [OF open_l(1) ex_given_fields(1)])
  have c: "called_step emplace pop (solo l (store_stream 0 True ex_given)) (solo l ex_running)"
    unfolding ex_running_def by (rule solo_completes [OF open_l]) (simp_all add: ex_given_fields)
  have d: "called_step emplace pop (solo l ex_running) (solo l ex_let_go)"
    by (rule solo_acts [OF open_l(1), where a = Drop])
       (simp_all add: ex_running_fields proper_def ex_let_go_def)
  note run = rtranclp.rtrancl_into_rtrancl
  show ?thesis
    by (rule run [OF run [OF run [OF run [OF r_into_rtranclp [where r = "called_step emplace pop", OF m] s] st] c] d])
qed

lemma ex_let_go_inv: "call_inv ClientStreaming Detaching ex_let_go"
proof -
  have "called_inv (solo (client_life_init []) ex_let_go :: (nat, nat, nat option list) called)"
    by (rule called_reaches_inv [OF ex_let_go_reached])
  then have "call_ok ((make_call ClientStreaming 0)\<lparr>k_sys := ex_let_go\<rparr>)"
    by (simp add: called_inv_def solo_call)
  then show ?thesis by (simp add: call_ok_def make_call_def ex_let_go_fields)
qed

lemma ex_too_soon_steps:
  fixes empty_q :: 'q and emplace :: "'fn option \<Rightarrow> 'q \<Rightarrow> 'q"
  assumes "called_step emplace pop (ex_too_soon empty_q) t"
  shows "z_late t"
  using assms
proof cases
  case (lives l)
  from lives(3) show ?thesis
    by cases (use lives(4) in \<open>auto simp: ex_too_soon_def solo_call destructor_shuts_down_def client_life_init_def client_init_def
      worker_leaves_def ex_let_go_fields\<close>)
next
  case (completes j c tag ok)
  have c: "k_sys c = ex_let_go" "k_type c = ClientStreaming" "j = 0"
    using completes(3,4) by (auto simp: ex_too_soon_def solo_call make_call_def)
  have "call_ok c" using called_reaches_inv [OF ex_let_go_reached [of emplace pop empty_q]] c
    by (simp add: called_inv_def solo_call call_ok_def make_call_def)
  from operation_completes(4) [OF this completes(6,7), of ok] show ?thesis
    unfolding completes(1)
    by (simp add: c ex_let_go_fields call_moves_def ex_too_soon_def solo_call destructor_shuts_down_def make_call_def)
qed (auto simp: ex_too_soon_def solo_call destructor_shuts_down_def make_call_def ex_let_go_fields)

lemma ex_too_soon_completes:
  fixes empty_q :: 'q and emplace :: "'fn option \<Rightarrow> 'q \<Rightarrow> 'q"
  shows "\<exists>t. called_step emplace pop (ex_too_soon empty_q) t"
proof -
  let ?c = "(make_call ClientStreaming 0)\<lparr>k_sys := ex_let_go\<rparr>"
  have "called_step emplace pop (ex_too_soon empty_q)
      (call_moves 0 (?c\<lparr>k_sys := complete (k_type ?c) (0, StateObj) True (k_sys ?c)\<rparr>) (ex_too_soon empty_q))"
    by (rule called_step.completes)
       (simp_all add: ex_too_soon_def solo_call destructor_shuts_down_def ex_let_go_fields client_life_init_def)
  then show ?thesis by blast
qed


section \<open>Properties\<close>

text \<open>
C15: destroying a client queue with streaming calls on it: once it is shut down every run of the program
ends, and goes on until the worker is joined or an operation was issued too late. When the worker is joined
no call has an operation outstanding or did anything undefined, those that were dropped have freed what they
held, and every function that was pushed was taken out. Nothing is ever issued too late if at the shutdown
the users are done with their calls and no dropped or finishing call is still closing its side.
\<close>

theorem client_queue_with_calls_ends:
  assumes fq: "function_queue empty_q emplace pop contents" and reached: "called_reaches empty_q emplace pop s"
    and closed: "\<not> q_open (z_life s)"
  shows "runs_bounded (called_step emplace pop) s \<and>
    (q_joined (z_life s) \<or> z_late s \<or> (\<exists>t. called_step emplace pop s t)) \<and>
    (q_joined (z_life s) \<and> \<not> z_late s \<longrightarrow> list_all over (z_calls s) \<and>
       contents (c_dispatched (q_dispatch (z_life s))) = [] \<and>
       c_popped (q_dispatch (z_life s)) = c_pushed (q_dispatch (z_life s))) \<and>
    (list_all quiet (z_calls s) \<and> \<not> z_late s \<longrightarrow> {t. (called_step emplace pop)\<^sup>*\<^sup>* s t \<and> z_late t} = {})"
proof (intro conjI impI)
  have inv: "called_inv s" by (rule called_reaches_inv [OF reached])
  have life: "life_reaches empty_q emplace pop (z_life s)" by (rule called_life_reaches [OF reached])
  obtain a where a: "client_rel contents (q_dispatch (z_life s)) a"
    using function_queue.client_facts(1) [OF fq] life_reaches_client [OF life] by blast
  show "runs_bounded (called_step emplace pop) s"
    unfolding runs_bounded_def
    using function_queue.called_runs_bounded [OF fq _ inv closed a]
    by (intro exI [of _ "called_left a s"]) fastforce
  show "q_joined (z_life s) \<or> z_late s \<or> (\<exists>t. called_step emplace pop s t)"
    using function_queue.called_goes_on [OF fq inv a closed] by blast
  show "{t. (called_step emplace pop)\<^sup>*\<^sup>* s t \<and> z_late t} = {}" if "list_all quiet (z_calls s) \<and> \<not> z_late s"
    using quiet_never_late [OF _ inv closed] that by blast
  assume end_s: "q_joined (z_life s) \<and> \<not> z_late s"
  then show "contents (c_dispatched (q_dispatch (z_life s))) = []"
    and "c_popped (q_dispatch (z_life s)) = c_pushed (q_dispatch (z_life s))"
    using client_queue_runs_everything [OF fq life] by simp_all
  have "q_worker (z_life s) = LoopLeft" using inv end_s by (simp add: called_inv_def life_inv_def)
  with inv end_s show "list_all over (z_calls s)"
    by (auto simp: called_inv_def list_all_length nothing_pending_over)
qed

text \<open>The queue is shut down one completion later than in the example: the call is finishing by itself.\<close>

definition ex_in_time :: "(nat, nat, nat option list) called" where
  "ex_in_time = solo (destructor_shuts_down (client_life_init [])) (complete ClientStreaming (0, StateObj) True ex_let_go)"

lemma ex_in_time_reached: "called_reaches [] list_emplace list_pop ex_in_time"
proof -
  let ?l = "client_life_init [] :: (nat, nat option list) client_life"
  have "called_step list_emplace list_pop (solo ?l ex_let_go)
      (solo ?l (complete ClientStreaming (0, StateObj) True ex_let_go))"
    by (rule solo_completes) (simp_all add: client_life_init_def ex_let_go_fields)
  note fin = rtranclp.rtrancl_into_rtrancl [OF ex_let_go_reached this]
  show ?thesis unfolding ex_in_time_def
    by (rule rtranclp.rtrancl_into_rtrancl [OF fin solo_shuts_down])
qed

theorem client_queue_with_calls_ends_witness:
  "runs_bounded (called_step list_emplace list_pop) ex_in_time \<and>
   (\<exists>t. called_step list_emplace list_pop ex_in_time t) \<and>
   {t. (called_step list_emplace list_pop)\<^sup>*\<^sup>* ex_in_time t \<and> z_late t} = {}"
proof -
  have f: "\<not> q_open (z_life ex_in_time)" "\<not> q_joined (z_life ex_in_time)" "\<not> z_late ex_in_time"
    by (simp_all add: ex_in_time_def solo_call destructor_shuts_down_def client_life_init_def)
  have "call_inv ClientStreaming Detaching ex_let_go" by (rule ex_let_go_inv)
  then have "call_phase_of (complete ClientStreaming (0, StateObj) True ex_let_go) = Detached"
    by (rule call_phase_unique [OF detaching_completes])
  then have "list_all quiet (z_calls ex_in_time)"
    by (simp add: ex_in_time_def solo_call quiet_def make_call_def)
  with client_queue_with_calls_ends [OF list_functions_queue ex_in_time_reached f(1)] f(2,3) show ?thesis by blast
qed

text \<open>
C36: a program cannot know when it may destroy a queue that it gave to a call. A client-streaming call is
started on the queue and its wrapper dropped, which is all a user can do; if the queue is destroyed before
the runtime has completed the half-close that the destructor of the wrapper issued, then whatever happens
next is the completion of it, which finishes the call on a queue that was shut down, and that ends the
program.
\<close>

theorem dropped_call_finishes_late:
  "\<exists>s t :: (nat, 'fn, 'q) called. called_reaches empty_q emplace pop s \<and> q_open (z_life s) \<and>
     map (user_of \<circ> k_sys) (z_calls s) = [Dropped] \<and> q_dispatch (z_life s) = client_init empty_q \<and>
     called_step emplace pop s t \<and> z_life t = destructor_shuts_down (z_life s) \<and> z_calls t = z_calls s \<and>
     {u. called_step emplace pop t u} \<noteq> {} \<and> {u. called_step emplace pop t u} \<subseteq> {u. z_late u}"
proof -
  let ?l = "client_life_init empty_q :: ('fn, 'q) client_life"
  show ?thesis
  proof (rule exI [of _ "solo ?l ex_let_go"], rule exI [of _ "ex_too_soon empty_q"], intro conjI)
    show "called_reaches empty_q emplace pop (solo ?l ex_let_go)" by (rule ex_let_go_reached)
    show "called_step emplace pop (solo ?l ex_let_go) (ex_too_soon empty_q)"
      unfolding ex_too_soon_def by (rule solo_shuts_down)
    show "{u. called_step emplace pop (ex_too_soon empty_q) u} \<noteq> {}" using ex_too_soon_completes [of emplace pop empty_q] by (simp add: ex_too_soon_def)
    show "{u. called_step emplace pop (ex_too_soon empty_q) u} \<subseteq> {u. z_late u}" by (auto dest: ex_too_soon_steps)
  qed (simp_all add: solo_call ex_too_soon_def client_life_init_def ex_let_go_fields make_call_def)
qed

end
