(* ===== verification/Default_Queue.thy ===== *)
theory Default_Queue
  imports Client_Queue
begin

text \<open>
  The default queue and those that hold it: the static instance of \<open>client_cq::get_default\<close>
  (\<open>src/grpc/client_cq.cpp\<close>), the calls made without a queue of their own (\<open>include/asyncpp/grpc/call.h\<close>:
  the members \<open>m_default_client_cq\<close> and \<open>default_client_cq\<close>), the worker on which they are resumed or delete
  themselves, and the exit of the program.
\<close>

section \<open>State and steps\<close>

text \<open>A call that holds a reference; it may have an operation outstanding; its reference is released with it.\<close>

datatype holder = Holds | Waits | Gone

datatype queue_ending = Alive | TornDown "queue_call list" | Terminated

record default_world =
  g_default :: default_queue
  g_refs :: queue_refs
  g_calls :: "holder list"
  g_exited :: bool            \<comment> \<open>the static instance was destroyed\<close>
  g_ending :: queue_ending

definition default_world_init :: default_world where
  "default_world_init =
     \<lparr>g_default = \<lparr>instance_of = None, made = 0, shared = 0\<rparr>, g_refs = \<lparr>static_ref = False, call_refs = 0\<rparr>,
      g_calls = [], g_exited = False, g_ending = Alive\<rparr>"

text \<open>\<open>m_default_client_cq = client_cq::get_default()\<close>; a static object must not be used after its destruction.\<close>

definition asks_default :: "default_world \<Rightarrow> ub + default_world" where
  "asks_default w =
     (if g_exited w then Inl UseAfterFree
      else Inr (w\<lparr>g_default := fst (get_default (g_default w)),
                  g_refs := \<lparr>static_ref = True, call_refs = Suc (call_refs (g_refs w))\<rparr>,
                  g_calls := g_calls w @ [Holds]\<rparr>))"

definition dropped :: "bool \<Rightarrow> queue_refs \<Rightarrow> default_world \<Rightarrow> default_world" where
  "dropped on_worker r w =
     w\<lparr>g_refs := r,
       g_ending := (case after_drop on_worker (fst client_cq_constructor) r of
          None \<Rightarrow> Terminated | Some [] \<Rightarrow> Alive | Some calls \<Rightarrow> TornDown calls)\<rparr>"

definition call_drops :: "bool \<Rightarrow> nat \<Rightarrow> default_world \<Rightarrow> default_world" where
  "call_drops on_worker i w = dropped on_worker (drop_call (g_refs w)) (w\<lparr>g_calls := (g_calls w)[i := Gone]\<rparr>)"

definition program_exits :: "default_world \<Rightarrow> default_world" where
  "program_exits w =
     (let w' = w\<lparr>g_exited := True\<rparr>
      in if static_ref (g_refs w) then dropped False (drop_static (g_refs w)) w' else w')"

text \<open>
  A call is resumed, or its state told, on the worker; what then releases it may do so there or elsewhere,
  but not while an operation of it is outstanding.
\<close>

inductive default_step :: "default_world \<Rightarrow> default_world \<Rightarrow> bool" where
  asks: "asks_default w = Inr v \<Longrightarrow> default_step w v"
| issues: "i < length (g_calls w) \<Longrightarrow> g_calls w ! i = Holds \<Longrightarrow> g_ending w = Alive \<Longrightarrow>
     default_step w (w\<lparr>g_calls := (g_calls w)[i := Waits]\<rparr>)"
| completes: "i < length (g_calls w) \<Longrightarrow> g_calls w ! i = Waits \<Longrightarrow> g_ending w = Alive \<Longrightarrow>
     default_step w (w\<lparr>g_calls := (g_calls w)[i := Holds]\<rparr>)"
| drops: "i < length (g_calls w) \<Longrightarrow> g_calls w ! i = Holds \<Longrightarrow> g_ending w = Alive \<Longrightarrow>
     default_step w (call_drops on_worker i w)"
| exits: "\<not> g_exited w \<Longrightarrow> default_step w (program_exits w)"

abbreviation default_reaches :: "default_world \<Rightarrow> bool" where
  "default_reaches w \<equiv> default_step\<^sup>*\<^sup>* default_world_init w"

section \<open>The invariant\<close>

definition holding :: "holder list \<Rightarrow> nat" where
  "holding hs = count (\<lambda>h. h \<noteq> Gone) hs"

lemma holding_update:
  "i < length hs \<Longrightarrow> holding (hs[i := h]) + (if hs ! i \<noteq> Gone then 1 else 0) = holding hs + (if h \<noteq> Gone then 1 else 0)"
proof (induction hs arbitrary: i)
  case (Cons x hs)
  then show ?case by (cases i) (auto simp: holding_def)
qed simp

lemma holding_0: "holding hs = 0 \<longleftrightarrow> set hs \<subseteq> {Gone}"
  by (induction hs) (auto simp: holding_def)

definition default_inv :: "default_world \<Rightarrow> bool" where
  "default_inv w \<longleftrightarrow> call_refs (g_refs w) = holding (g_calls w) \<and>
     (g_ending w \<noteq> Alive \<longrightarrow> g_exited w \<and> call_refs (g_refs w) = 0) \<and>
     static_ref (g_refs w) = (instance_of (g_default w) \<noteq> None \<and> \<not> g_exited w) \<and>
     made (g_default w) = (if instance_of (g_default w) = None then 0 else 1) \<and>
     (instance_of (g_default w) = None \<longrightarrow> g_calls w = [] \<and> g_ending w = Alive) \<and>
     (instance_of (g_default w) \<noteq> None \<and> g_exited w \<and> call_refs (g_refs w) = 0 \<longrightarrow> g_ending w \<noteq> Alive)"

lemma after_drop_None: "after_drop on_worker (fst client_cq_constructor) r = None \<longleftrightarrow>
    \<not> static_ref r \<and> call_refs r = 0 \<and> on_worker"
  by (simp add: after_drop_def client_cq_destructor_def client_cq_constructor_def)

lemma ending_of_drop:
  "g_ending (dropped on_worker r w) =
     (if static_ref r \<or> 0 < call_refs r then Alive
      else if on_worker then Terminated else TornDown [ShutdownCq, JoinWorker, FreeCq, FreeAlarm])"
  by (simp add: dropped_def after_drop_def client_cq_destructor_def client_cq_constructor_def)

lemma dropped_simps [simp]:
  "g_refs (dropped b r w) = r" "g_calls (dropped b r w) = g_calls w" "g_exited (dropped b r w) = g_exited w"
  "g_default (dropped b r w) = g_default w"
  by (simp_all add: dropped_def)

inductive_cases default_stepE: "default_step w v"

lemma default_inv_step:
  assumes "default_step w v" and "default_inv w"
  shows "default_inv v"
  using assms(1)
proof (rule default_stepE)
  assume "asks_default w = Inr v"
  then show ?thesis
    using assms(2)
    by (auto simp: asks_default_def default_inv_def get_default_def holding_def split: if_splits option.splits)
next
  fix i assume "v = w\<lparr>g_calls := (g_calls w)[i := Waits]\<rparr>" "i < length (g_calls w)" "g_calls w ! i = Holds"
  then show ?thesis using assms(2) holding_update [of i "g_calls w" Waits] by (auto simp: default_inv_def)
next
  fix i assume "v = w\<lparr>g_calls := (g_calls w)[i := Holds]\<rparr>" "i < length (g_calls w)" "g_calls w ! i = Waits"
  then show ?thesis using assms(2) holding_update [of i "g_calls w" Holds] by (auto simp: default_inv_def)
next
  fix i b assume v: "v = call_drops b i w" and i: "i < length (g_calls w)" "g_calls w ! i = Holds" and "g_ending w = Alive"
  have "holding (g_calls w) = Suc (holding ((g_calls w)[i := Gone]))" using holding_update [OF i(1), of Gone] i by simp
  moreover have "instance_of (g_default w) \<noteq> None" using assms(2) i(1) by (auto simp: default_inv_def)
  ultimately show ?thesis
    using assms(2) by (auto simp: v call_drops_def default_inv_def ending_of_drop drop_call_def)
next
  assume v: "v = program_exits w" and "\<not> g_exited w"
  show ?thesis
  proof (cases "static_ref (g_refs w)")
    case True
    then obtain y where "instance_of (g_default w) = Some y" "made (g_default w) = 1"
        "call_refs (g_refs w) = holding (g_calls w)"
      using assms(2) by (auto simp: default_inv_def)
    with True show ?thesis
      by (simp add: v program_exits_def default_inv_def ending_of_drop drop_static_def Let_def)
  next
    case False
    then have "instance_of (g_default w) = None" using \<open>\<not> g_exited w\<close> assms(2) unfolding default_inv_def by blast
    with False assms(2) show ?thesis by (simp add: v program_exits_def default_inv_def Let_def)
  qed
qed

lemma default_reaches_inv: "default_reaches w \<Longrightarrow> default_inv w"
proof (erule rtranclp_invariant)
  show "default_inv default_world_init" by (simp add: default_inv_def default_world_init_def holding_def)
qed (rule default_inv_step)

section \<open>Properties\<close>

text \<open>
C20: the default queue outlives everything that uses it: in every run of any number of calls, with their
references released on the worker or elsewhere, and of the exit of the program, at most one queue is made,
it is never torn down while the static instance exists or a call holds it, so in particular not while a
completion is outstanding, and it is torn down, or the program terminated, as soon as both are gone.
\<close>

theorem default_queue_outlives_calls:
  assumes "default_reaches w"
  shows "made (g_default w) \<le> 1 \<and> call_refs (g_refs w) = holding (g_calls w) \<and>
    (made (g_default w) = 1 \<longrightarrow> (g_ending w = Alive \<longleftrightarrow> \<not> g_exited w \<or> \<not> set (g_calls w) \<subseteq> {Gone}))"
  using default_reaches_inv [OF assms] holding_0 [of "g_calls w"] by (auto simp: default_inv_def)

text \<open>A call that was made, started and completed, the program exiting meanwhile.\<close>

definition ex_exited :: default_world where
  "ex_exited = \<lparr>g_default = \<lparr>instance_of = Some 0, made = 1, shared = 1\<rparr>, g_refs = \<lparr>static_ref = False, call_refs = 1\<rparr>,
      g_calls = [Holds], g_exited = True, g_ending = Alive\<rparr>"

lemma ex_exited_reached: "default_reaches ex_exited"
proof -
  let ?made = "\<lparr>instance_of = Some 0, made = 1, shared = 1\<rparr> :: default_queue"
  let ?w1 = "\<lparr>g_default = ?made, g_refs = \<lparr>static_ref = True, call_refs = 1\<rparr>, g_calls = [Holds], g_exited = False,
    g_ending = Alive\<rparr>"
  let ?w2 = "?w1\<lparr>g_calls := [Waits]\<rparr>" let ?w3 = "program_exits ?w2"
  have s1: "default_step default_world_init ?w1"
    by (rule default_step.asks) (simp add: asks_default_def default_world_init_def get_default_def)
  have s2: "default_step ?w1 ?w2" using default_step.issues [of 0 ?w1] by simp
  have s3: "default_step ?w2 ?w3" by (rule default_step.exits) simp
  have "default_step ?w3 (?w3\<lparr>g_calls := (g_calls ?w3)[0 := Holds]\<rparr>)"
    by (rule default_step.completes) (simp_all add: program_exits_def ending_of_drop drop_static_def)
  moreover have "?w3\<lparr>g_calls := (g_calls ?w3)[0 := Holds]\<rparr> = ex_exited"
    by (simp add: program_exits_def dropped_def drop_static_def after_drop_def ex_exited_def)
  ultimately have s4: "default_step ?w3 ex_exited" by simp
  show ?thesis
    by (rule rtranclp.rtrancl_into_rtrancl [OF rtranclp.rtrancl_into_rtrancl [OF
          rtranclp.rtrancl_into_rtrancl [OF r_into_rtranclp [where r = default_step, OF s1] s2] s3] s4])
qed

theorem default_queue_outlives_calls_witness: "call_refs (g_refs ex_exited) = holding (g_calls ex_exited)"
  by (rule default_queue_outlives_calls [OF ex_exited_reached, THEN conjunct2, THEN conjunct1])

text \<open>
C28: how the default queue ends depends on the thread of the last reference: while the static instance is there
releasing a call never ends it, and if the calls are gone when the program exits it is shut down, its
worker joined and then freed; but a call that is released on the worker after the exit, as a dropped
streaming call always is, makes the worker join itself, which terminates the program; and a call made
without a queue after the exit uses a destroyed object.
\<close>

theorem default_queue_last_reference:
  "(default_reaches w \<and> \<not> g_exited w \<longrightarrow> g_ending (call_drops on_worker i w) = Alive \<or> instance_of (g_default w) = None) \<and>
   (default_reaches w \<and> \<not> g_exited w \<and> set (g_calls w) \<subseteq> {Gone} \<and> instance_of (g_default w) \<noteq> None \<longrightarrow>
      g_ending (program_exits w) = TornDown [ShutdownCq, JoinWorker, FreeCq, FreeAlarm]) \<and>
   (\<exists>v. default_reaches v \<and> g_ending (call_drops False 0 v) = TornDown [ShutdownCq, JoinWorker, FreeCq, FreeAlarm] \<and>
      default_step v (call_drops True 0 v) \<and> g_ending (call_drops True 0 v) = Terminated \<and>
      asks_default v = Inl UseAfterFree)"
proof (intro conjI impI)
  assume "default_reaches w \<and> \<not> g_exited w"
  then show "g_ending (call_drops on_worker i w) = Alive \<or> instance_of (g_default w) = None"
    using default_reaches_inv [of w] by (auto simp: call_drops_def ending_of_drop default_inv_def drop_call_def)
next
  assume "default_reaches w \<and> \<not> g_exited w \<and> set (g_calls w) \<subseteq> {Gone} \<and> instance_of (g_default w) \<noteq> None"
  then show "g_ending (program_exits w) = TornDown [ShutdownCq, JoinWorker, FreeCq, FreeAlarm]"
    using default_reaches_inv [of w] holding_0 [of "g_calls w"]
    by (auto simp: program_exits_def ending_of_drop default_inv_def drop_static_def Let_def)
next
  have "default_step ex_exited (call_drops True 0 ex_exited)"
    by (rule default_step.drops) (simp_all add: ex_exited_def)
  then show "\<exists>v. default_reaches v \<and> g_ending (call_drops False 0 v) = TornDown [ShutdownCq, JoinWorker, FreeCq, FreeAlarm] \<and>
      default_step v (call_drops True 0 v) \<and> g_ending (call_drops True 0 v) = Terminated \<and>
      asks_default v = Inl UseAfterFree"
    using ex_exited_reached
    by (intro exI [of _ ex_exited]) (simp add: call_drops_def ending_of_drop drop_call_def asks_default_def ex_exited_def)
qed

theorem default_queue_last_reference_witness:
  "\<exists>v. default_reaches v \<and> g_ending (call_drops True 0 v) = Terminated"
  using default_queue_last_reference by blast

end
