(* ===== verification/Server_Workers.thy ===== *)
theory Server_Workers
  imports Prelude
begin

text \<open>
  The start of the server's worker threads, in the constructor of \<open>src/grpc/server.cpp\<close>: each runs all
  completion queue initializers on its own queue and counts itself online; the last one to do so
  clears the initializers, which the others iterate over without a lock. The steps of the threads are
  interleaved in any order.
\<close>

section \<open>Threads and steps\<close>

text \<open>
  Where a worker is: not running yet, in the loop over the initializers with the position and the end
  its iterators were given, at the call of \<open>clear\<close>, draining its queue, or finished.
\<close>

datatype worker =
    Fresh
  | Initialising nat nat
  | Clearing
  | Looping
  | Exited

record 'init workers =
  w_initializers :: "'init list"     \<comment> \<open>\<open>m_cq_initializers\<close>\<close>
  w_threads :: "worker list"         \<comment> \<open>one per completion queue\<close>
  w_online :: nat                    \<comment> \<open>\<open>m_threads_online\<close>\<close>
  w_ran :: "(nat \<times> 'init) list"      \<comment> \<open>calls \<open>e(cq)\<close>, by queue, in order\<close>
  w_failure :: "ub option"

definition workers_init :: "nat \<Rightarrow> 'init list \<Rightarrow> 'init workers" where
  "workers_init thread_count cqinits =
     \<lparr>w_initializers = cqinits, w_threads = replicate thread_count Fresh, w_online = 0, w_ran = [],
      w_failure = None\<rparr>"

definition at :: "nat \<Rightarrow> worker \<Rightarrow> 'init workers \<Rightarrow> 'init workers" where
  "at i w s = s\<lparr>w_threads := (w_threads s)[i := w]\<rparr>"

definition worker_begin :: "nat \<Rightarrow> 'init workers \<Rightarrow> 'init workers" where
  "worker_begin i s = at i (Initialising 0 (length (w_initializers s))) s"

text \<open>One round of the loop: the iterator is dereferenced, so the element must still be there.\<close>

definition worker_initialise :: "nat \<Rightarrow> nat \<Rightarrow> nat \<Rightarrow> 'init workers \<Rightarrow> 'init workers" where
  "worker_initialise i k n s =
     (case array_at (w_initializers s) k of
        Inl u \<Rightarrow> s\<lparr>w_failure := Some UseAfterFree\<rparr>
      | Inr e \<Rightarrow> at i (Initialising (Suc k) n) (s\<lparr>w_ran := w_ran s @ [(i, e)]\<rparr>))"

definition worker_online :: "nat \<Rightarrow> 'init workers \<Rightarrow> 'init workers" where
  "worker_online i s =
     (let s' = s\<lparr>w_online := Suc (w_online s)\<rparr>
      in if w_online s + 1 = length (w_threads s) then at i Clearing s' else at i Looping s')"

definition worker_clear :: "nat \<Rightarrow> 'init workers \<Rightarrow> 'init workers" where
  "worker_clear i s = at i Looping (s\<lparr>w_initializers := []\<rparr>)"

text \<open>The queue was shut down and drained: \<open>Next\<close> returns false.\<close>

definition worker_exit :: "nat \<Rightarrow> 'init workers \<Rightarrow> 'init workers" where
  "worker_exit i s = at i Exited s"

inductive worker_step :: "'init workers \<Rightarrow> 'init workers \<Rightarrow> bool" where
  begins: "w_failure s = None \<Longrightarrow> i < length (w_threads s) \<Longrightarrow> w_threads s ! i = Fresh \<Longrightarrow>
     worker_step s (worker_begin i s)"
| initialises: "w_failure s = None \<Longrightarrow> i < length (w_threads s) \<Longrightarrow> w_threads s ! i = Initialising k n \<Longrightarrow>
     k < n \<Longrightarrow> worker_step s (worker_initialise i k n s)"
| comes_online: "w_failure s = None \<Longrightarrow> i < length (w_threads s) \<Longrightarrow> w_threads s ! i = Initialising n n \<Longrightarrow>
     worker_step s (worker_online i s)"
| clears: "w_failure s = None \<Longrightarrow> i < length (w_threads s) \<Longrightarrow> w_threads s ! i = Clearing \<Longrightarrow>
     worker_step s (worker_clear i s)"
| exits: "w_failure s = None \<Longrightarrow> i < length (w_threads s) \<Longrightarrow> w_threads s ! i = Looping \<Longrightarrow>
     worker_step s (worker_exit i s)"

section \<open>The invariant\<close>

fun online :: "worker \<Rightarrow> bool" where
  "online Fresh = False"
| "online (Initialising k n) = False"
| "online _ = True"

text \<open>How many of the initializers a worker has run.\<close>

fun progress :: "nat \<Rightarrow> worker \<Rightarrow> nat" where
  "progress m Fresh = 0"
| "progress m (Initialising k n) = k"
| "progress m _ = m"

definition ran_on :: "nat \<Rightarrow> 'init workers \<Rightarrow> 'init list" where
  "ran_on i s = map snd (filter (\<lambda>(j, e). j = i) (w_ran s))"

definition worker_ok :: "'init list \<Rightarrow> 'init workers \<Rightarrow> nat \<Rightarrow> worker \<Rightarrow> bool" where
  "worker_ok inits s i w \<longleftrightarrow>
     ran_on i s = take (progress (length inits) w) inits \<and>
     (case w of Initialising k n \<Rightarrow> n = length inits \<and> k \<le> n
      | Clearing \<Rightarrow> list_all online (w_threads s) | _ \<Rightarrow> True)"

definition workers_inv :: "'init list \<Rightarrow> 'init workers \<Rightarrow> bool" where
  "workers_inv inits s \<longleftrightarrow>
     w_failure s = None \<and> w_online s = length (filter online (w_threads s)) \<and>
     (\<forall>i < length (w_threads s). worker_ok inits s i (w_threads s ! i)) \<and>
     (w_initializers s = inits \<or> w_initializers s = [] \<and> list_all online (w_threads s))"

lemma at_simps [simp]:
  "w_initializers (at i w s) = w_initializers s" "w_threads (at i w s) = (w_threads s)[i := w]"
  "w_online (at i w s) = w_online s" "w_ran (at i w s) = w_ran s" "w_failure (at i w s) = w_failure s"
  "ran_on j (at i w s) = ran_on j s"
  by (simp_all add: at_def ran_on_def)

lemma count_update:
  assumes "i < length ws"
  shows "length (filter P (ws[i := w])) + (if P (ws ! i) then 1 else 0) =
         length (filter P ws) + (if P w then 1 else 0)"
  using assms
proof (induction ws arbitrary: i)
  case (Cons x ws)
  then show ?case by (cases i) auto
qed simp

lemma all_online_iff: "list_all online ws \<longleftrightarrow> length (filter online ws) = length ws"
proof (induction ws)
  case (Cons w ws)
  have "length (filter online ws) \<noteq> Suc (length ws)" by (metis Suc_n_not_le_n length_filter_le)
  with Cons show ?case by auto
qed simp

lemma all_online_update:
  "list_all online ws \<Longrightarrow> online w \<Longrightarrow> list_all online (ws[i := w])"
  by (auto simp: list_all_iff dest!: set_update_subset_insert [THEN subsetD])

text \<open>While some worker is not online the initializers are untouched and nobody clears them.\<close>

lemma not_online:
  assumes "workers_inv inits s" and "i < length (w_threads s)" and "\<not> online (w_threads s ! i)"
  shows "w_initializers s = inits" and "\<And>j. j < length (w_threads s) \<Longrightarrow> w_threads s ! j \<noteq> Clearing"
proof -
  have "\<not> list_all online (w_threads s)" using assms(2,3) by (auto simp: list_all_length)
  moreover have "worker_ok inits s j Clearing" if "j < length (w_threads s)" "w_threads s ! j = Clearing" for j
    using assms(1) that by (auto simp: workers_inv_def)
  ultimately show "w_initializers s = inits" "\<And>j. j < length (w_threads s) \<Longrightarrow> w_threads s ! j \<noteq> Clearing"
    using assms(1) by (auto simp: workers_inv_def worker_ok_def)
qed

lemma workers_inv_ok: "workers_inv inits s \<Longrightarrow> i < length (w_threads s) \<Longrightarrow> w_threads s ! i = w \<Longrightarrow> worker_ok inits s i w"
  by (auto simp: workers_inv_def)

text \<open>A worker that moves on without touching anything but its own position.\<close>

lemma move_keeps_inv:
  assumes "workers_inv inits s" and "i < length (w_threads s)"
    and "online w = online (w_threads s ! i)" and "worker_ok inits s i w"
  shows "workers_inv inits (at i w s)"
proof -
  have c: "length (filter online ((w_threads s)[i := w])) = length (filter online (w_threads s))"
    using count_update [OF assms(2), of online w] assms(3) by (simp split: if_splits)
  then have all: "list_all online ((w_threads s)[i := w]) = list_all online (w_threads s)"
    by (simp add: all_online_iff)
  have "worker_ok inits (at i w s) j ((w_threads s)[i := w] ! j)" if "j < length (w_threads s)" for j
  proof (cases "j = i")
    case True
    with that assms(4) all show ?thesis by (cases w) (simp_all add: worker_ok_def)
  next
    case False
    with workers_inv_ok [OF assms(1) that refl] show ?thesis
      by (simp add: worker_ok_def all split: worker.splits)
  qed
  with assms(1) c all show ?thesis by (simp add: workers_inv_def)
qed

lemma begin_keeps_inv:
  assumes "workers_inv inits s" and "i < length (w_threads s)" and "w_threads s ! i = Fresh"
  shows "workers_inv inits (worker_begin i s)"
  using assms not_online(1) [OF assms(1,2)] workers_inv_ok [OF assms] unfolding worker_begin_def
  by (intro move_keeps_inv) (simp_all add: worker_ok_def)

lemma initialise_keeps_inv:
  assumes "workers_inv inits s" and "i < length (w_threads s)"
    and "w_threads s ! i = Initialising k n" and "k < n"
  shows "workers_inv inits (worker_initialise i k n s)"
proof -
  have w: "n = length inits" "ran_on i s = take k inits"
    using workers_inv_ok [OF assms(1,2,3)] by (simp_all add: worker_ok_def)
  have i: "w_initializers s = inits" "\<And>j. j < length (w_threads s) \<Longrightarrow> w_threads s ! j \<noteq> Clearing"
    using not_online [OF assms(1,2)] assms(3) by simp_all
  let ?w = "Initialising (Suc k) n" and ?s = "s\<lparr>w_ran := w_ran s @ [(i, inits ! k)]\<rparr>"
  have r: "worker_initialise i k n s = at i ?w ?s"
    using i w assms(4) by (simp add: worker_initialise_def array_at_def)
  have ran: "ran_on j ?s = (if j = i then ran_on j s @ [inits ! k] else ran_on j s)" for j
    by (simp add: ran_on_def)
  have c: "length (filter online ((w_threads s)[i := ?w])) = length (filter online (w_threads s))"
    using count_update [OF assms(2), of online ?w] assms(3) by simp
  have "worker_ok inits (at i ?w ?s) j ((w_threads s)[i := ?w] ! j)" if "j < length (w_threads s)" for j
  proof (cases "j = i")
    case True
    then show ?thesis using assms(2,4) w by (simp add: worker_ok_def ran take_Suc_conv_app_nth)
  next
    case False
    then show ?thesis using workers_inv_ok [OF assms(1) that refl] i(2) [OF that]
      by (simp add: worker_ok_def ran split: worker.splits)
  qed
  with assms(1) c i(1) show ?thesis by (simp add: r workers_inv_def)
qed

lemma online_keeps_inv:
  assumes "workers_inv inits s" and "i < length (w_threads s)" and "w_threads s ! i = Initialising n n"
  shows "workers_inv inits (worker_online i s)"
proof -
  let ?w = "if w_online s + 1 = length (w_threads s) then Clearing else Looping"
  let ?s = "s\<lparr>w_online := Suc (w_online s)\<rparr>"
  have w: "online ?w" "progress (length inits) ?w = length inits" by simp_all
  have n: "n = length inits" "ran_on i s = inits"
    using workers_inv_ok [OF assms] by (simp_all add: worker_ok_def)
  have r: "worker_online i s = at i ?w ?s" by (simp add: worker_online_def Let_def)
  have ran: "ran_on j ?s = ran_on j s" for j by (simp add: ran_on_def)
  have c: "length (filter online ((w_threads s)[i := ?w])) = Suc (w_online s)"
    using count_update [OF assms(2), of online ?w] assms(1,3) w by (simp add: workers_inv_def split: if_splits)
  have i: "w_initializers s = inits" "\<And>j. j < length (w_threads s) \<Longrightarrow> w_threads s ! j \<noteq> Clearing"
    using not_online [OF assms(1,2)] assms(3) by simp_all
  have "worker_ok inits (at i ?w ?s) j ((w_threads s)[i := ?w] ! j)" if "j < length (w_threads s)" for j
  proof (cases "j = i")
    case True
    have "?w = Clearing \<Longrightarrow> list_all online ((w_threads s)[i := ?w])"
      unfolding all_online_iff c by (simp split: if_splits)
    with True assms(2) n w show ?thesis by (simp add: worker_ok_def ran split: if_splits)
  next
    case False
    then show ?thesis using workers_inv_ok [OF assms(1) that refl] i(2) [OF that]
      by (simp add: worker_ok_def ran split: worker.splits)
  qed
  with assms(1) c i(1) show ?thesis by (simp add: r workers_inv_def)
qed

lemma clear_keeps_inv:
  assumes "workers_inv inits s" and "i < length (w_threads s)" and "w_threads s ! i = Clearing"
  shows "workers_inv inits (worker_clear i s)"
proof -
  have all: "list_all online (w_threads s)" using workers_inv_ok [OF assms] by (simp add: worker_ok_def)
  have m: "workers_inv inits (at i Looping s)"
    using assms workers_inv_ok [OF assms] by (intro move_keeps_inv) (simp_all add: worker_ok_def)
  have "list_all online ((w_threads s)[i := Looping])"
    using all by (rule all_online_update) simp
  with m show ?thesis
    by (simp add: worker_clear_def workers_inv_def worker_ok_def ran_on_def cong: worker.case_cong)
qed

lemma exit_keeps_inv:
  assumes "workers_inv inits s" and "i < length (w_threads s)" and "w_threads s ! i = Looping"
  shows "workers_inv inits (worker_exit i s)"
  using assms workers_inv_ok [OF assms] unfolding worker_exit_def
  by (intro move_keeps_inv) (simp_all add: worker_ok_def)

lemma workers_inv_step:
  assumes "worker_step s t" and "workers_inv inits s"
  shows "workers_inv inits t"
  using assms(1)
proof cases
  case (begins i)
  then show ?thesis using begin_keeps_inv assms(2) by blast
next
  case (initialises i k n)
  then show ?thesis using initialise_keeps_inv assms(2) by blast
next
  case (comes_online i n)
  then show ?thesis using online_keeps_inv assms(2) by blast
next
  case (clears i)
  then show ?thesis using clear_keeps_inv assms(2) by blast
next
  case (exits i)
  then show ?thesis using exit_keeps_inv assms(2) by blast
qed

lemma workers_inv_init: "workers_inv inits (workers_init n inits)"
  by (simp add: workers_inv_def workers_init_def worker_ok_def ran_on_def)

abbreviation workers_reach :: "nat \<Rightarrow> 'init list \<Rightarrow> 'init workers \<Rightarrow> bool" where
  "workers_reach n inits s \<equiv> worker_step\<^sup>*\<^sup>* (workers_init n inits) s"

lemma workers_reach_inv: "workers_reach n inits s \<Longrightarrow> workers_inv inits s"
  by (erule rtranclp_invariant) (auto intro: workers_inv_init workers_inv_step)

lemma worker_count: "worker_step s t \<Longrightarrow> length (w_threads t) = length (w_threads s)"
  by (erule worker_step.cases)
     (auto simp: worker_begin_def worker_initialise_def worker_online_def worker_clear_def
       worker_exit_def Let_def split: sum.split)

lemma workers_reach_count: "workers_reach n inits s \<Longrightarrow> length (w_threads s) = n"
  by (erule rtranclp_invariant) (auto simp: workers_init_def worker_count)

section \<open>Properties\<close>

text \<open>
The unsynchronised initializer list is safe: in every interleaving of the workers no iterator is
used after the list was cleared, every worker runs the initializers in their order on its own queue,
those of a worker that is draining its queue are complete, and none runs twice; and the list is
cleared only when every worker is past its loop.
\<close>

theorem initializers_run_once:
  assumes "workers_reach n inits s" and "i < n"
  shows "w_failure s = None \<and> ran_on i s = take (progress (length inits) (w_threads s ! i)) inits \<and>
         (w_initializers s = inits \<or> w_initializers s = [] \<and> list_all online (w_threads s)) \<and>
         w_online s = length (filter online (w_threads s))"
  using workers_reach_inv [OF assms(1)] workers_reach_count [OF assms(1)] assms(2)
  by (simp add: workers_inv_def worker_ok_def)

definition ex_workers :: "nat workers" where
  "ex_workers = worker_begin 1 (workers_init 2 [10, 20])"

lemma ex_workers_reached: "workers_reach 2 [10, 20] ex_workers"
  unfolding ex_workers_def
  by (intro r_into_rtranclp worker_step.begins) (simp_all add: workers_init_def)

theorem initializers_run_once_witness:
  "w_failure ex_workers = None \<and>
   ran_on 1 ex_workers = take (progress (length [10, 20 :: nat]) (w_threads ex_workers ! 1)) [10, 20] \<and>
   (w_initializers ex_workers = [10, 20] \<or>
    w_initializers ex_workers = [] \<and> list_all online (w_threads ex_workers)) \<and>
   w_online ex_workers = length (filter online (w_threads ex_workers))"
  by (rule initializers_run_once [OF ex_workers_reached]) simp

end
