(* ===== verification/Worker_Startup.thy ===== *)
theory Worker_Startup
  imports Server_Workers "HOL-Library.Product_Lexorder"
begin

text \<open>
  Where the start of the server's workers leads: workers only move forward, in a linear order of the
  places in their code, every run of them ends, and when it has ended all initializers have run on every
  queue and their list has been released.
\<close>

section \<open>The order of the places of a worker\<close>

fun worker_key :: "worker \<Rightarrow> nat \<times> nat \<times> nat" where
  "worker_key Fresh = (0, 0, 0)"
| "worker_key (Initialising k n) = (1, k, n)"
| "worker_key Clearing = (2, 0, 0)"
| "worker_key Looping = (3, 0, 0)"
| "worker_key Exited = (4, 0, 0)"

lemma worker_key_inj: "worker_key v = worker_key w \<longleftrightarrow> v = w"
  by (cases v; cases w) auto

instantiation worker :: linorder
begin

definition less_eq_worker :: "worker \<Rightarrow> worker \<Rightarrow> bool" where
  "less_eq_worker v w \<longleftrightarrow> worker_key v \<le> worker_key w"

definition less_worker :: "worker \<Rightarrow> worker \<Rightarrow> bool" where
  "less_worker v w \<longleftrightarrow> worker_key v < worker_key w"

instance
  by standard (auto simp: less_eq_worker_def less_worker_def worker_key_inj [symmetric])

end

lemma worker_less_simps [simp]:
  "Fresh < Initialising k n" "Initialising k n < Initialising (Suc k) n"
  "Initialising k n < Clearing" "Initialising k n < Looping" "Clearing < Looping" "Looping < Exited"
  by (simp_all add: less_worker_def)

text \<open>A step moves one worker forward and leaves the others where they are, or it fails.\<close>

lemma step_moves_one:
  assumes "worker_step s t"
  shows "w_failure t \<noteq> None \<or>
    (\<exists>i w. i < length (w_threads s) \<and> w_threads t = (w_threads s)[i := w] \<and> w_threads s ! i < w)"
  using assms
proof cases
  case (begins i)
  then show ?thesis by (auto simp: worker_begin_def intro!: exI [of _ i])
next
  case (initialises i k n)
  then show ?thesis by (auto simp: worker_initialise_def split: sum.split intro!: exI [of _ i])
next
  case (comes_online i n)
  then show ?thesis by (auto simp: worker_online_def Let_def intro!: exI [of _ i])
next
  case (clears i)
  then show ?thesis by (auto simp: worker_clear_def intro!: exI [of _ i])
next
  case (exits i)
  then show ?thesis by (auto simp: worker_exit_def intro!: exI [of _ i])
qed

section \<open>Termination\<close>

text \<open>How many steps a worker has left, when there are \<open>m\<close> initializers.\<close>

fun steps_left :: "nat \<Rightarrow> worker \<Rightarrow> nat" where
  "steps_left m Fresh = m + 4"
| "steps_left m (Initialising k n) = (n - k) + 3"
| "steps_left m Clearing = 2"
| "steps_left m Looping = 1"
| "steps_left m Exited = 0"

definition start_work :: "'init list \<Rightarrow> 'init workers \<Rightarrow> nat" where
  "start_work inits s = sum_list (map (steps_left (length inits)) (w_threads s))"

lemma sum_list_update:
  fixes f :: "'a \<Rightarrow> nat"
  shows "i < length xs \<Longrightarrow> f y < f (xs ! i) \<Longrightarrow> sum_list (map f (xs[i := y])) < sum_list (map f xs)"
proof (induction xs arbitrary: i)
  case (Cons x xs)
  then show ?case by (cases i) auto
qed simp

lemma step_uses_work:
  assumes "worker_step s t" and "workers_inv inits s"
  shows "start_work inits t < start_work inits s"
  using assms(1)
proof cases
  case (begins i)
  moreover have "w_initializers s = inits" using not_online(1) [OF assms(2) begins(3)] begins by simp
  ultimately show ?thesis
    by (auto simp: start_work_def worker_begin_def intro!: sum_list_update)
next
  case (initialises i k n)
  have "w_initializers s = inits" using not_online(1) [OF assms(2) initialises(3)] initialises by simp
  moreover have "n = length inits"
    using workers_inv_ok [OF assms(2) initialises(3,4)] by (simp add: worker_ok_def)
  ultimately show ?thesis
    using initialises by (auto simp: start_work_def worker_initialise_def array_at_def intro!: sum_list_update)
next
  case (comes_online i n)
  then show ?thesis
    by (auto simp: start_work_def worker_online_def Let_def intro!: sum_list_update)
next
  case (clears i)
  then show ?thesis
    by (auto simp: start_work_def worker_clear_def intro!: sum_list_update)
next
  case (exits i)
  then show ?thesis
    by (auto simp: start_work_def worker_exit_def intro!: sum_list_update)
qed

lemma startup_bounded:
  "(worker_step ^^ k) s t \<Longrightarrow> workers_inv inits s \<Longrightarrow>
     workers_inv inits t \<and> start_work inits t + k \<le> start_work inits s"
proof (induction k arbitrary: t)
  case (Suc k)
  from Suc.prems(1) obtain u where u: "(worker_step ^^ k) s u" "worker_step u t" by auto
  from Suc.IH [OF u(1) Suc.prems(2)] step_uses_work [OF u(2)] workers_inv_step [OF u(2)] show ?case
    by fastforce
qed simp

text \<open>A worker that has not finished can go on.\<close>

lemma unfinished_worker_steps:
  assumes "workers_inv inits s" and "i < length (w_threads s)" and "w_threads s ! i \<noteq> Exited"
  shows "\<exists>t. worker_step s t"
proof -
  have f: "w_failure s = None" using assms(1) by (simp add: workers_inv_def)
  show ?thesis
  proof (cases "w_threads s ! i")
    case (Initialising k n)
    then have "k \<le> n" using workers_inv_ok [OF assms(1,2)] by (simp add: worker_ok_def)
    then show ?thesis
      using worker_step.initialises [OF f assms(2), of k n] worker_step.comes_online [OF f assms(2), of n] Initialising
      by (cases "k = n") auto
  qed (use f assms(2,3) in \<open>blast intro: worker_step.intros\<close>)+
qed

section \<open>The initializers are released\<close>

text \<open>Once all workers are online, one of them is clearing the list or has done so.\<close>

definition released_inv :: "'init workers \<Rightarrow> bool" where
  "released_inv s \<longleftrightarrow> (w_threads s \<noteq> [] \<and> list_all online (w_threads s) \<longrightarrow>
     Clearing \<in> set (w_threads s) \<or> w_initializers s = [])"

lemma not_all_online: "i < length ws \<Longrightarrow> \<not> online w \<Longrightarrow> \<not> list_all online (ws[i := w])"
  by (auto simp: list_all_length intro!: exI [of _ i])

lemma released_step:
  assumes "worker_step s t" and "workers_inv inits s" and "released_inv s"
  shows "released_inv t"
  using assms(1)
proof cases
  case (begins i)
  then show ?thesis by (simp add: released_inv_def worker_begin_def not_all_online)
next
  case (initialises i k n)
  have "w_initializers s = inits" using not_online(1) [OF assms(2) initialises(3)] initialises by simp
  moreover have "n = length inits"
    using workers_inv_ok [OF assms(2) initialises(3,4)] by (simp add: worker_ok_def)
  ultimately show ?thesis
    using initialises by (simp add: released_inv_def worker_initialise_def array_at_def not_all_online)
next
  case (comes_online i n)
  let ?ws = "(w_threads s)[i := Looping]"
  have "Suc (w_online s) = length (w_threads s)" if "list_all online ?ws"
    using that comes_online assms(2) count_update [OF comes_online(3), of online Looping]
    by (simp add: all_online_iff workers_inv_def)
  with comes_online show ?thesis
    by (auto simp: released_inv_def worker_online_def Let_def set_update_memI)
next
  case (clears i)
  then show ?thesis by (simp add: released_inv_def worker_clear_def)
next
  case (exits i)
  have "Clearing \<in> set ((w_threads s)[i := Exited])" if c: "Clearing \<in> set (w_threads s)"
  proof -
    obtain j where "j < length (w_threads s)" "w_threads s ! j = Clearing"
      using c unfolding in_set_conv_nth by blast
    moreover from this exits(4) have "j \<noteq> i" by auto
    ultimately show ?thesis by (auto simp: in_set_conv_nth intro!: exI [of _ j])
  qed
  moreover have "list_all online (w_threads s)" if "list_all online ((w_threads s)[i := Exited])"
    using that exits(3,4) count_update [OF exits(3), of online Exited] by (simp add: all_online_iff)
  ultimately show ?thesis using exits assms(3) by (auto simp: released_inv_def worker_exit_def)
qed

lemma reach_released: "workers_reach n inits s \<Longrightarrow> workers_inv inits s \<and> released_inv s"
proof (erule rtranclp_invariant)
  show "workers_inv inits (workers_init n inits) \<and> released_inv (workers_init n inits)"
    using workers_inv_init [of inits n] by (cases n) (simp_all add: released_inv_def workers_init_def)
qed (use workers_inv_step released_step in blast)

section \<open>Properties\<close>

text \<open>
The start of the workers ends: from every reachable state the number of steps still possible is
bounded, by what is left of the initializers for each worker and four steps more; a worker that has not
finished can always go on; and when none can, every worker has run all initializers, in order, on its own
queue, and the list of initializers has been released.
\<close>

theorem workers_start_up:
  assumes "workers_reach n inits s"
  shows "(\<forall>k t. (worker_step ^^ k) s t \<longrightarrow> k \<le> start_work inits s) \<and>
    start_work inits s \<le> n * (length inits + 4) \<and>
    ((\<exists>t. worker_step s t) \<or>
     w_threads s = replicate n Exited \<and> w_online s = n \<and> (\<forall>i < n. ran_on i s = inits) \<and>
     (0 < n \<longrightarrow> w_initializers s = []))"
proof -
  have inv: "workers_inv inits s" and rel: "released_inv s" using reach_released [OF assms] by simp_all
  have n: "length (w_threads s) = n" by (rule workers_reach_count [OF assms])
  have steps: "k \<le> start_work inits s" if "(worker_step ^^ k) s t" for k t
    using startup_bounded [OF that inv] by simp
  have "steps_left (length inits) w \<le> length inits + 4" if w: "w \<in> set (w_threads s)" for w
  proof -
    obtain i where "i < length (w_threads s)" "w_threads s ! i = w"
      using w unfolding in_set_conv_nth by blast
    with workers_inv_ok [OF inv this] show ?thesis by (cases w) (auto simp: worker_ok_def)
  qed
  then have "start_work inits s \<le> length (w_threads s) * (length inits + 4)"
    unfolding start_work_def using sum_list_mono [of "w_threads s" "steps_left (length inits)" "\<lambda>_. length inits + 4"]
    by (simp add: sum_list_triv)
  moreover have "w_threads s = replicate n Exited" if "\<nexists>t. worker_step s t"
    using that unfinished_worker_steps [OF inv] n by (metis nth_replicate nth_equalityI length_replicate)
  moreover have "w_online s = n \<and> (\<forall>i < n. ran_on i s = inits) \<and> (0 < n \<longrightarrow> w_initializers s = [])"
    if "w_threads s = replicate n Exited"
    using inv rel that by (auto simp: workers_inv_def worker_ok_def released_inv_def list_all_iff)
  ultimately show ?thesis unfolding n using steps by (intro conjI) blast+
qed

theorem workers_start_up_witness:
  "start_work [10, 20] ex_workers \<le> 2 * (length [10, 20 :: nat] + 4)"
  by (rule workers_start_up [OF ex_workers_reached, THEN conjunct2, THEN conjunct1])

text \<open>
  Workers never go back: whatever the interleaving, a worker's place in its code only moves forward, and a
  step moves exactly one of them.
\<close>

lemma workers_move_forward:
  assumes "workers_reach n inits s" and "worker_step s t" and "i < n"
  shows "w_threads s ! i \<le> w_threads t ! i"
proof -
  have "workers_inv inits t"
    using workers_reach_inv [OF assms(1)] workers_inv_step [OF assms(2)] by blast
  then have "w_failure t = None" by (simp add: workers_inv_def)
  with step_moves_one [OF assms(2)] obtain j w
    where "j < length (w_threads s)" "w_threads t = (w_threads s)[j := w]" "w_threads s ! j < w" by blast
  then show ?thesis by (cases "i = j") auto
qed

end
