(* ===== verification/Server_Life.thy ===== *)
theory Server_Life
  imports Server_Workers Dispatchers
begin

text \<open>
  The server from the time its workers are in their loops to the return of \<open>stop\<close>
  (\<open>src/grpc/server.cpp\<close>): the workers, each with its own completion queue, in the loop or in
  \<open>handle_event\<close>, the threads that push, and the thread that stops the server, step by step.
\<close>

section \<open>State and steps\<close>

text \<open>Where a worker is: in \<open>Next\<close>, in the parts of \<open>handle_event\<close>, or past its loop.\<close>

datatype server_worker = AtNext | InDrain | AtStore | InPop | LoopDone

record ('fn, 'q) server_life =
  v_dispatch :: "('fn, 'q) server_dispatch"
  v_workers :: "server_worker list"   \<comment> \<open>one per completion queue\<close>
  v_stopping :: bool                  \<comment> \<open>\<open>m_server\<close> was shut down\<close>
  v_shut :: nat                       \<comment> \<open>how many queues \<open>stop\<close> has shut down\<close>
  v_joined :: nat                     \<comment> \<open>how many threads \<open>stop\<close> has joined\<close>
  v_stopped :: bool

definition server_life_init :: "nat \<Rightarrow> 'q \<Rightarrow> ('fn, 'q) server_life" where
  "server_life_init n empty_q =
     \<lparr>v_dispatch = server_init empty_q, v_workers = replicate n AtNext, v_stopping = False, v_shut = 0,
      v_joined = 0, v_stopped = False\<rparr>"

definition on_server ::
  "(('fn, 'q) server_dispatch \<Rightarrow> ('fn, 'q) server_dispatch) \<Rightarrow> ('fn, 'q) server_life \<Rightarrow> ('fn, 'q) server_life" where
  "on_server f s = s\<lparr>v_dispatch := f (v_dispatch s)\<rparr>"

definition moved :: "nat \<Rightarrow> server_worker \<Rightarrow> ('fn, 'q) server_life \<Rightarrow> ('fn, 'q) server_life" where
  "moved i w s = s\<lparr>v_workers := (v_workers s)[i := w]\<rparr>"

text \<open>The event of the alarm is on the queue of worker \<open>i\<close>.\<close>

definition alarm_for :: "nat \<Rightarrow> ('fn, 'q) server_life \<Rightarrow> bool" where
  "alarm_for i s \<longleftrightarrow> 0 < s_alarms (v_dispatch s) \<and> s_alarm_cq (v_dispatch s) = i"

definition server_enters :: "nat \<Rightarrow> ('fn, 'q) server_life \<Rightarrow> ('fn, 'q) server_life" where
  "server_enters i s = moved i InDrain (on_server server_deliver s)"

definition server_drains ::
  "('q \<Rightarrow> ('fn option \<times> 'q) option) \<Rightarrow> nat \<Rightarrow> ('fn, 'q) server_life \<Rightarrow> ('fn, 'q) server_life" where
  "server_drains pop i s =
     moved i (if pop (s_queue (v_dispatch s)) = None then AtStore else InDrain) (on_server (server_drain pop) s)"

definition server_stores :: "nat \<Rightarrow> ('fn, 'q) server_life \<Rightarrow> ('fn, 'q) server_life" where
  "server_stores i s = moved i InPop (on_server server_store s)"

definition server_pops ::
  "('q \<Rightarrow> ('fn option \<times> 'q) option) \<Rightarrow> nat \<Rightarrow> ('fn, 'q) server_life \<Rightarrow> ('fn, 'q) server_life" where
  "server_pops pop i s =
     moved i (if pop (s_queue (v_dispatch s)) = None then AtNext else InPop) (on_server (server_pop pop) s)"

definition server_leaves :: "nat \<Rightarrow> ('fn, 'q) server_life \<Rightarrow> ('fn, 'q) server_life" where
  "server_leaves i s = moved i LoopDone s"

definition stop_begins :: "('fn, 'q) server_life \<Rightarrow> ('fn, 'q) server_life" where
  "stop_begins s = s\<lparr>v_stopping := True\<rparr>"

definition stop_shuts :: "('fn, 'q) server_life \<Rightarrow> ('fn, 'q) server_life" where
  "stop_shuts s = s\<lparr>v_shut := Suc (v_shut s)\<rparr>"

definition stop_joins :: "('fn, 'q) server_life \<Rightarrow> ('fn, 'q) server_life" where
  "stop_joins s = s\<lparr>v_joined := Suc (v_joined s)\<rparr>"

definition stop_returns :: "('fn, 'q) server_life \<Rightarrow> ('fn, 'q) server_life" where
  "stop_returns s = s\<lparr>v_stopped := True\<rparr>"

text \<open>
  No thread is inside \<open>push\<close> when \<open>stop\<close> begins and none comes after, since \<open>stop\<close> clears what \<open>push\<close>
  reads. \<open>Next\<close> returns false on a queue that was shut down and has no event left.
\<close>

inductive server_life_step ::
  "('fn option \<Rightarrow> 'q \<Rightarrow> 'q) \<Rightarrow> ('q \<Rightarrow> ('fn option \<times> 'q) option) \<Rightarrow>
     ('fn, 'q) server_life \<Rightarrow> ('fn, 'q) server_life \<Rightarrow> bool"
  for emplace pop where
  pushes: "\<not> v_stopping s \<Longrightarrow> server_life_step emplace pop s (on_server (server_emplace emplace fn) s)"
| exchanges: "0 < s_emplaced (v_dispatch s) \<Longrightarrow> server_life_step emplace pop s (on_server server_exchange s)"
| sets: "0 < s_setting (v_dispatch s) \<Longrightarrow>
     server_set_alarm (length (v_workers s)) cq_idx (v_dispatch s) = Inr d \<Longrightarrow>
     server_life_step emplace pop s (s\<lparr>v_dispatch := d\<rparr>)"
| enters: "i < length (v_workers s) \<Longrightarrow> v_workers s ! i = AtNext \<Longrightarrow> alarm_for i s \<Longrightarrow>
     server_life_step emplace pop s (server_enters i s)"
| drains: "i < length (v_workers s) \<Longrightarrow> v_workers s ! i = InDrain \<Longrightarrow> 0 < s_draining (v_dispatch s) \<Longrightarrow>
     server_life_step emplace pop s (server_drains pop i s)"
| stores: "i < length (v_workers s) \<Longrightarrow> v_workers s ! i = AtStore \<Longrightarrow> 0 < s_storing (v_dispatch s) \<Longrightarrow>
     server_life_step emplace pop s (server_stores i s)"
| pops: "i < length (v_workers s) \<Longrightarrow> v_workers s ! i = InPop \<Longrightarrow> 0 < s_popping (v_dispatch s) \<Longrightarrow>
     server_life_step emplace pop s (server_pops pop i s)"
| begins: "\<not> v_stopping s \<Longrightarrow> s_emplaced (v_dispatch s) = 0 \<Longrightarrow> s_setting (v_dispatch s) = 0 \<Longrightarrow>
     server_life_step emplace pop s (stop_begins s)"
| shuts: "v_stopping s \<Longrightarrow> v_shut s < length (v_workers s) \<Longrightarrow> server_life_step emplace pop s (stop_shuts s)"
| leaves: "i < v_shut s \<Longrightarrow> i < length (v_workers s) \<Longrightarrow> v_workers s ! i = AtNext \<Longrightarrow> \<not> alarm_for i s \<Longrightarrow>
     server_life_step emplace pop s (server_leaves i s)"
| joins: "v_shut s = length (v_workers s) \<Longrightarrow> v_joined s < length (v_workers s) \<Longrightarrow>
     v_workers s ! v_joined s = LoopDone \<Longrightarrow> server_life_step emplace pop s (stop_joins s)"
| returns: "v_stopping s \<Longrightarrow> v_shut s = length (v_workers s) \<Longrightarrow> v_joined s = length (v_workers s) \<Longrightarrow>
     \<not> v_stopped s \<Longrightarrow> server_life_step emplace pop s (stop_returns s)"

abbreviation "server_life_reaches n empty_q emplace pop s \<equiv>
  (server_life_step emplace pop)\<^sup>*\<^sup>* (server_life_init n empty_q) s"

lemmas server_life_defs = on_server_def moved_def server_enters_def server_drains_def server_stores_def
  server_pops_def server_leaves_def stop_begins_def stop_shuts_def stop_joins_def stop_returns_def

lemmas server_step_defs = server_emplace_def server_exchange_def server_set_alarm_def server_deliver_def
  server_drain_def server_store_def server_pop_def

section \<open>The invariant\<close>

definition workers_at :: "server_worker \<Rightarrow> ('fn, 'q) server_life \<Rightarrow> nat" where
  "workers_at w s = length (filter (\<lambda>v. v = w) (v_workers s))"

text \<open>The counters of the dispatcher count the workers; a worker that left has nothing left to handle.\<close>

definition dispatch_places :: "('fn, 'q) server_life \<Rightarrow> bool" where
  "dispatch_places s \<longleftrightarrow> s_draining (v_dispatch s) = workers_at InDrain s \<and>
     s_storing (v_dispatch s) = workers_at AtStore s \<and> s_popping (v_dispatch s) = workers_at InPop s"

definition stop_places :: "('fn, 'q) server_life \<Rightarrow> bool" where
  "stop_places s \<longleftrightarrow>
     (v_stopping s \<longrightarrow> s_emplaced (v_dispatch s) = 0 \<and> s_setting (v_dispatch s) = 0) \<and>
     (0 < v_shut s \<longrightarrow> v_stopping s) \<and> v_shut s \<le> length (v_workers s) \<and>
     (\<forall>i < length (v_workers s). v_workers s ! i = LoopDone \<longrightarrow> i < v_shut s \<and> \<not> alarm_for i s) \<and>
     (\<forall>i < v_joined s. i < length (v_workers s) \<and> v_workers s ! i = LoopDone) \<and>
     (v_stopped s \<longrightarrow> v_joined s = length (v_workers s))"

lemma workers_at_moved:
  assumes "i < length (v_workers s)"
  shows "length (filter (\<lambda>v. v = w) ((v_workers s)[i := u])) =
    (if u = v_workers s ! i then workers_at w s
     else if w = u then Suc (workers_at w s)
     else if w = v_workers s ! i then workers_at w s - 1 else workers_at w s)"
  using count_update [OF assms, of "\<lambda>v. v = w" u] by (auto simp: workers_at_def split: if_splits)

lemma dispatch_places_init: "dispatch_places (server_life_init n empty_q)"
  by (simp add: dispatch_places_def workers_at_def server_life_init_def server_init_def)

lemma stop_places_init: "stop_places (server_life_init n empty_q)"
  by (simp add: stop_places_def server_life_init_def)

lemma dispatch_places_step:
  assumes "server_life_step emplace pop s t" and "dispatch_places s"
  shows "dispatch_places t"
proof -
  note defs = dispatch_places_def server_life_defs server_step_defs
  show ?thesis
    using assms(1)
  proof (cases rule: server_life_step.cases)
    case (enters i)
    then show ?thesis using assms(2) by (simp add: defs workers_at_moved) (simp add: workers_at_def workers_at_moved)
  next
    case (drains i)
    then show ?thesis using assms(2) by (auto simp: defs workers_at_def workers_at_moved split: option.split)
  next
    case (stores i)
    then show ?thesis using assms(2) by (auto simp: defs workers_at_def workers_at_moved)
  next
    case (pops i)
    then show ?thesis using assms(2) by (auto simp: defs workers_at_def workers_at_moved split: option.split)
  next
    case (leaves i)
    then show ?thesis using assms(2) by (auto simp: defs workers_at_def workers_at_moved)
  qed (use assms(2) in \<open>auto simp: defs workers_at_def Let_def split: if_splits\<close>)
qed

lemma stop_places_step:
  assumes "server_life_step emplace pop s t" and "stop_places s"
  shows "stop_places t"
  using assms
  by (cases rule: server_life_step.cases)
     (auto simp: stop_places_def server_life_defs server_step_defs alarm_for_def nth_list_update Let_def less_Suc_eq
      split: if_splits option.splits)

text \<open>Every step is one of the dispatcher, or none of its business; there are always as many workers.\<close>

lemma server_life_dispatch:
  assumes "server_life_step emplace pop s t"
  shows "length (v_workers t) = length (v_workers s) \<and> (v_dispatch t = v_dispatch s \<or>
    pushes_and_steps (server_emplace emplace) (server_step (length (v_workers s)) pop) (v_dispatch s) (v_dispatch t))"
  using assms
  by (cases rule: server_life_step.cases)
     (auto simp: server_life_defs pushes_and_steps_def alarm_for_def intro: server_step.intros)

lemma server_life_reached:
  assumes "server_life_reaches n empty_q emplace pop s"
  shows "length (v_workers s) = n \<and> server_reaches n empty_q emplace pop (v_dispatch s) \<and>
    dispatch_places s \<and> stop_places s"
  using assms
proof (induction rule: rtranclp_induct)
  case base
  show ?case
    by (simp add: dispatch_places_init stop_places_init) (simp add: server_life_init_def)
next
  case (step u v)
  then show ?case
    using server_life_dispatch [OF step(2)] dispatch_places_step [OF step(2)] stop_places_step [OF step(2)]
    by (metis rtranclp.rtrancl_into_rtrancl)
qed

lemma stopped_workers:
  "stop_places s \<Longrightarrow> v_stopped s \<Longrightarrow> i < length (v_workers s) \<Longrightarrow> v_workers s ! i = LoopDone"
  by (simp add: stop_places_def)

lemma left_worker:
  "stop_places s \<Longrightarrow> i < length (v_workers s) \<Longrightarrow> v_workers s ! i = LoopDone \<Longrightarrow> i < v_shut s \<and> \<not> alarm_for i s"
  by (simp add: stop_places_def)

section \<open>After stop began\<close>

fun loop_stage :: "server_worker \<Rightarrow> nat" where
  "loop_stage LoopDone = 0"
| "loop_stage _ = 1"

definition stop_left :: "'f dispatch \<Rightarrow> ('fn, 'q) server_life \<Rightarrow> nat" where
  "stop_left a s = work_left a + sum_list (map loop_stage (v_workers s)) + (length (v_workers s) - v_shut s) +
     (length (v_workers s) - v_joined s) + (if v_stopped s then 0 else 1)"

lemma loop_stage_update:
  assumes "i < length ws"
  shows "sum_list (map loop_stage (ws[i := w])) + loop_stage (ws ! i) = sum_list (map loop_stage ws) + loop_stage w"
  using assms
proof (induction ws arbitrary: i)
  case (Cons x xs)
  then show ?case by (cases i) auto
qed simp

lemma loop_stage_same:
  "i < length ws \<Longrightarrow> loop_stage (ws ! i) = loop_stage w \<Longrightarrow>
     sum_list (map loop_stage (ws[i := w])) = sum_list (map loop_stage ws)"
  using loop_stage_update [of i ws w] by simp

text \<open>Every step of the dispatcher leaves the rest of the measure alone; every other step lowers it.\<close>

lemma stopping_step_cases:
  assumes "server_life_step emplace pop s t" and "v_stopping s"
  shows "v_stopping t \<and>
    (server_step (length (v_workers s)) pop (v_dispatch s) (v_dispatch t) \<and>
       (\<forall>(a :: 'fn option dispatch) (b :: 'fn option dispatch). work_left b < work_left a \<longrightarrow> stop_left b t < stop_left a s) \<or>
     v_dispatch t = v_dispatch s \<and> (\<forall>a :: 'fn option dispatch. stop_left a t < stop_left a s))"
  using assms(1)
proof (cases rule: server_life_step.cases)
  case (leaves i)
  then have "sum_list (map loop_stage ((v_workers s)[i := LoopDone])) < sum_list (map loop_stage (v_workers s))"
    using loop_stage_update [OF leaves(3), of LoopDone] by simp
  with leaves assms(2) show ?thesis by (simp add: server_life_defs stop_left_def)
qed (use assms(2) in \<open>auto simp: server_life_defs stop_left_def alarm_for_def loop_stage_same intro: server_step.intros\<close>)

context function_queue
begin

lemma stopping_step_works:
  assumes "server_life_step emplace pop s t" and "v_stopping s"
    and "server_rel (length (v_workers s)) contents (v_dispatch s) a"
  shows "\<exists>b. server_rel (length (v_workers t)) contents (v_dispatch t) b \<and> v_stopping t \<and> stop_left b t < stop_left a s"
proof -
  have n: "length (v_workers t) = length (v_workers s)" using server_life_dispatch [OF assms(1)] by simp
  show ?thesis
    using stopping_step_cases [OF assms(1,2)]
  proof (elim conjE disjE)
    assume st: "server_step (length (v_workers s)) pop (v_dispatch s) (v_dispatch t)" and "v_stopping t"
      and less: "\<forall>(a :: 'fn option dispatch) (b :: 'fn option dispatch). work_left b < work_left a \<longrightarrow> stop_left b t < stop_left a s"
    obtain b where ab: "dispatch_step a b" and b: "server_rel (length (v_workers s)) contents (v_dispatch t) b"
      using server_simulates [OF assms(3) st] by blast
    have "stop_left b t < stop_left a s" by (rule less [rule_format, OF dispatch_step_works [OF ab]])
    with b n \<open>v_stopping t\<close> show ?thesis by auto
  next
    assume "v_stopping t" "v_dispatch t = v_dispatch s" "\<forall>a :: 'fn option dispatch. stop_left a t < stop_left a s"
    with assms(3) n show ?thesis by (intro exI [of _ a]) simp
  qed
qed

lemma stopping_runs_bounded:
  "(server_life_step emplace pop ^^ k) s t \<Longrightarrow> v_stopping s \<Longrightarrow>
     server_rel (length (v_workers s)) contents (v_dispatch s) a \<Longrightarrow>
     \<exists>b. server_rel (length (v_workers t)) contents (v_dispatch t) b \<and> v_stopping t \<and> stop_left b t + k \<le> stop_left a s"
proof (induction k arbitrary: t)
  case (Suc k)
  from Suc.prems(1) obtain u where u: "(server_life_step emplace pop ^^ k) s u" "server_life_step emplace pop u t" by auto
  obtain b where b: "server_rel (length (v_workers u)) contents (v_dispatch u) b" "v_stopping u"
      "stop_left b u + k \<le> stop_left a s"
    using Suc.IH [OF u(1) Suc.prems(2,3)] by blast
  from stopping_step_works [OF u(2) b(2,1)] b(3) show ?case by fastforce
qed auto

text \<open>When \<open>stop\<close> has returned, no worker is left and no alarm, so nothing is left in the queue.\<close>

lemma stopped_empty:
  assumes "dispatch_places s" and "stop_places s" and "v_stopped s"
    and rel: "server_rel (length (v_workers s)) contents (v_dispatch s) a" and "dispatch_inv a"
  shows "d_queue a = [] \<and> d_popped a = d_pushed a"
proof -
  have "workers_at w s = 0" if "w \<noteq> LoopDone" for w
    using that stopped_workers [OF assms(2,3)] by (auto simp: workers_at_def filter_empty_conv in_set_conv_nth)
  then have idle: "s_draining (v_dispatch s) = 0" "s_storing (v_dispatch s) = 0" "s_popping (v_dispatch s) = 0"
    using assms(1) by (simp_all add: dispatch_places_def)
  have cq: "s_alarm_cq (v_dispatch s) < length (v_workers s)" using rel by (simp add: server_rel_def)
  have left: "s_alarm_cq (v_dispatch s) < v_shut s" "\<not> alarm_for (s_alarm_cq (v_dispatch s)) s"
    using left_worker [OF assms(2) cq stopped_workers [OF assms(2,3) cq]] by simp_all
  have "s_alarms (v_dispatch s) = 0" using left(2) by (simp add: alarm_for_def)
  moreover have "v_stopping s" using left(1) assms(2) by (simp add: stop_places_def)
  then have "s_emplaced (v_dispatch s) = 0" "s_setting (v_dispatch s) = 0"
    using assms(2) by (simp_all add: stop_places_def)
  ultimately have "\<not> attended a"
    using rel idle by (cases "d_token a") (auto simp: server_rel_def attended_def)
  with assms(5) show ?thesis by (simp add: dispatch_inv_def)
qed

end

text \<open>While \<open>stop\<close> has not returned, it can go on, or the worker it waits for can.\<close>

lemma stop_goes_on:
  assumes "dispatch_places s" and "stop_places s" and "v_stopping s" and "\<not> v_stopped s"
  shows "\<exists>t. server_life_step emplace pop s t"
proof -
  consider "v_shut s < length (v_workers s)" | "v_shut s = length (v_workers s)" "v_joined s = length (v_workers s)"
    | "v_shut s = length (v_workers s)" "v_joined s < length (v_workers s)"
    using assms(2) unfolding stop_places_def by (metis le_neq_implies_less less_irrefl linorder_neqE_nat)
  then show ?thesis
  proof cases
    case 3
    let ?i = "v_joined s"
    have at: "0 < workers_at (v_workers s ! ?i) s"
      using 3(2) by (auto simp: workers_at_def filter_empty_conv in_set_conv_nth)
    show ?thesis
    proof (cases "v_workers s ! ?i")
      case AtNext
      then show ?thesis
        using 3 server_life_step.enters [of ?i s emplace pop] server_life_step.leaves [of ?i s emplace pop]
        by (cases "alarm_for ?i s") auto
    next
      case InDrain
      then show ?thesis
        using at assms(1) 3(2) server_life_step.drains [of ?i s emplace pop] by (auto simp: dispatch_places_def)
    next
      case AtStore
      then show ?thesis
        using at assms(1) 3(2) server_life_step.stores [of ?i s emplace pop] by (auto simp: dispatch_places_def)
    next
      case InPop
      then show ?thesis
        using at assms(1) 3(2) server_life_step.pops [of ?i s emplace pop] by (auto simp: dispatch_places_def)
    next
      case LoopDone
      then show ?thesis using 3 server_life_step.joins [of s emplace pop] by auto
    qed
  qed (use assms(3,4) server_life_step.shuts [of s emplace pop] server_life_step.returns [of s emplace pop] in blast)+
qed

section \<open>Properties\<close>

text \<open>Two workers; a function is pushed to the second queue, and the server is stopped before it ran.\<close>

definition ex_stopping :: "(nat, nat option list) server_life" where
  "ex_stopping = \<lparr>v_dispatch = \<lparr>s_queue = [Some 5], s_need_alarm = False, s_alarms = 1, s_alarm_cq = 1,
       s_emplaced = 0, s_setting = 0, s_draining = 0, s_storing = 0, s_popping = 0,
       s_pushed = [Some 5], s_popped = []\<rparr>,
     v_workers = [AtNext, AtNext], v_stopping = True, v_shut = 0, v_joined = 0, v_stopped = False\<rparr>"

lemma ex_stopping_reached: "server_life_reaches (Suc 1) [] list_emplace list_pop ex_stopping"
proof -
  let ?step = "server_life_step list_emplace list_pop :: (nat, nat option list) server_life \<Rightarrow> _"
  let ?s0 = "server_life_init (Suc 1) [] :: (nat, nat option list) server_life"
  let ?s1 = "on_server (server_emplace list_emplace (Some 5)) ?s0" let ?s2 = "on_server server_exchange ?s1"
  let ?s3 = "?s2\<lparr>v_dispatch := (v_dispatch ?s2)\<lparr>s_setting := 0, s_alarms := 1, s_alarm_cq := 1\<rparr>\<rparr>"
  note defs = server_life_defs server_step_defs server_life_init_def server_init_def Let_def
  have st1: "?step ?s0 ?s1" by (rule server_life_step.pushes) (simp add: defs)
  have st2: "?step ?s1 ?s2" by (rule server_life_step.exchanges) (simp add: defs)
  have st3: "?step ?s2 ?s3" by (rule server_life_step.sets [where cq_idx = 1]) (simp_all add: defs)
  have begun: "?step ?s3 (stop_begins ?s3)" by (rule server_life_step.begins) (simp_all add: defs)
  have eq: "stop_begins ?s3 = ex_stopping" by (simp add: defs ex_stopping_def eval_nat_numeral)
  have st4: "?step ?s3 ex_stopping" using begun unfolding eq .
  note run = rtranclp.rtrancl_into_rtrancl
  show ?thesis
    by (rule run [OF run [OF run [OF r_into_rtranclp [where r = ?step, OF st1] st2] st3] st4])
qed

text \<open>
Stopping a server loses no function and comes to an end: once \<open>stop\<close> has begun, every run of the threads
of the program ends, and as long as \<open>stop\<close> has not returned one of them can go on; when it has returned,
all workers have left their loops and every function ever pushed has been taken out, in order, and the
non-empty ones were called, on whichever queue the alarm was.
\<close>

theorem server_stop_drains:
  assumes "function_queue empty_q emplace pop contents" and "server_life_reaches (Suc n) empty_q emplace pop s"
    and "v_stopping s"
  shows "runs_bounded (server_life_step emplace pop) s \<and>
    (v_stopped s \<or> (\<exists>t. server_life_step emplace pop s t)) \<and>
    (v_stopped s \<longrightarrow> v_workers s = replicate (Suc n) LoopDone \<and> contents (s_queue (v_dispatch s)) = [] \<and>
       executed (s_popped (v_dispatch s)) = executed (s_pushed (v_dispatch s)))"
proof -
  have n: "length (v_workers s) = Suc n" and r: "server_reaches (Suc n) empty_q emplace pop (v_dispatch s)"
    and inv: "dispatch_places s" "stop_places s"
    using server_life_reached [OF assms(2)] by simp_all
  obtain a where a: "server_rel (length (v_workers s)) contents (v_dispatch s) a" "dispatch_inv a"
    using function_queue.server_facts(1) [OF assms(1) r] n by auto
  have "runs_bounded (server_life_step emplace pop) s"
    unfolding runs_bounded_def
    using function_queue.stopping_runs_bounded [OF assms(1) _ assms(3) a(1)]
    by (intro exI [of _ "stop_left a s"]) fastforce
  moreover have "v_stopped s \<or> (\<exists>t. server_life_step emplace pop s t)"
    using stop_goes_on [OF inv assms(3)] by blast
  moreover have "v_workers s = replicate (Suc n) LoopDone" if "v_stopped s"
    by (rule nth_equalityI) (simp_all add: n stopped_workers [OF inv(2) that] del: replicate_Suc)
  moreover have "contents (s_queue (v_dispatch s)) = [] \<and> s_popped (v_dispatch s) = s_pushed (v_dispatch s)"
    if "v_stopped s"
    using function_queue.stopped_empty [OF assms(1) inv that a] a(1) by (simp add: server_rel_def)
  ultimately show ?thesis by auto
qed

theorem server_stop_drains_witness:
  "runs_bounded (server_life_step list_emplace list_pop) ex_stopping"
  by (rule server_stop_drains [OF list_functions_queue ex_stopping_reached, THEN conjunct1])
     (simp add: ex_stopping_def)

end
