(* ===== verification/Late_Push.thy ===== *)
theory Late_Push
  imports Client_Life Server_Life
begin

text \<open>
  What the two life cycles leave out: a function that runs on a worker may push another one, also when
  the queue is being shut down and no other thread may push any more. The runtime asks that nothing is
  enqueued on a completion queue after its shutdown.
\<close>

section \<open>Functions that push\<close>

text \<open>The function a worker took out last, if it is not empty, is running when the next step is taken.\<close>

definition running_fn :: "'fn option list \<Rightarrow> bool" where
  "running_fn popped \<longleftrightarrow> popped \<noteq> [] \<and> last popped \<noteq> None"

inductive client_nested_step ::
  "('fn option \<Rightarrow> 'q \<Rightarrow> 'q) \<Rightarrow> ('q \<Rightarrow> ('fn option \<times> 'q) option) \<Rightarrow>
     ('fn, 'q) client_life \<Rightarrow> ('fn, 'q) client_life \<Rightarrow> bool"
  for emplace pop where
  client_outer: "life_step emplace pop s t \<Longrightarrow> client_nested_step emplace pop s t"
| client_inner: "q_worker s = InHandler \<Longrightarrow> 0 < c_popping (q_dispatch s) \<Longrightarrow> running_fn (c_popped (q_dispatch s)) \<Longrightarrow>
     client_nested_step emplace pop s (on_dispatch (client_emplace emplace fn) s)"

inductive server_nested_step ::
  "('fn option \<Rightarrow> 'q \<Rightarrow> 'q) \<Rightarrow> ('q \<Rightarrow> ('fn option \<times> 'q) option) \<Rightarrow>
     ('fn, 'q) server_life \<Rightarrow> ('fn, 'q) server_life \<Rightarrow> bool"
  for emplace pop where
  server_outer: "server_life_step emplace pop s t \<Longrightarrow> server_nested_step emplace pop s t"
| server_inner: "i < length (v_workers s) \<Longrightarrow> v_workers s ! i \<in> {InDrain, InPop} \<Longrightarrow>
     running_fn (s_popped (v_dispatch s)) \<Longrightarrow>
     server_nested_step emplace pop s (on_server (server_emplace emplace fn) s)"

text \<open>A thread inside \<open>push\<close> is about to set the alarm on a queue that was shut down.\<close>

definition client_late_alarm :: "('fn, 'q) client_life \<Rightarrow> bool" where
  "client_late_alarm s \<longleftrightarrow> \<not> q_open s \<and> 0 < c_setting (q_dispatch s)"

definition server_late_alarm :: "('fn, 'q) server_life \<Rightarrow> bool" where
  "server_late_alarm s \<longleftrightarrow> v_shut s = length (v_workers s) \<and> 0 < s_setting (v_dispatch s)"

section \<open>Without such functions\<close>

lemma client_alarms_in_time: "life_reaches empty_q emplace pop s \<Longrightarrow> \<not> client_late_alarm s"
  using life_reaches_client [of emplace pop empty_q s] by (auto simp: client_late_alarm_def life_inv_def)

lemma server_alarms_in_time:
  assumes "server_life_reaches (Suc n) empty_q emplace pop s"
  shows "\<not> server_late_alarm s"
  using server_life_reached [OF assms] by (auto simp: server_late_alarm_def stop_places_def)

section \<open>With them\<close>

text \<open>The client queue: a function is pushed, the queue is shut down, the function runs and pushes.\<close>

definition client_late :: "(nat, nat option list) client_life" where
  "client_late = on_dispatch client_test_and_set (on_dispatch (client_emplace list_emplace (Some 6))
     (worker_pops list_pop (on_dispatch client_clear (worker_enters ex_closed))))"

lemma client_late_reached:
  "(client_nested_step list_emplace list_pop)\<^sup>*\<^sup>* (client_life_init []) client_late"
proof -
  let ?step = "client_nested_step list_emplace list_pop :: (nat, nat option list) client_life \<Rightarrow> _"
  let ?s1 = "worker_enters ex_closed" let ?s2 = "on_dispatch client_clear ?s1"
  let ?s3 = "worker_pops list_pop ?s2" let ?s4 = "on_dispatch (client_emplace list_emplace (Some 6)) ?s3"
  have "?step\<^sup>*\<^sup>* (client_life_init []) ex_closed"
    using ex_closed_reached by (rule rtranclp_mono [THEN predicate2D, rotated]) (blast intro: client_outer)
  moreover have "?step ex_closed ?s1"
    by (rule client_outer, rule life_step.enters) (simp_all add: ex_life_defs)
  moreover have "?step ?s1 ?s2"
    by (rule client_outer, rule life_step.clears) (simp_all add: ex_life_defs)
  moreover have "?step ?s2 ?s3"
    by (rule client_outer, rule life_step.pops) (simp_all add: ex_life_defs)
  moreover have "?step ?s3 ?s4"
    by (rule client_inner) (simp_all add: ex_life_defs running_fn_def)
  moreover have "?step ?s4 client_late" unfolding client_late_def
    by (rule client_outer, rule life_step.tests) (simp add: ex_life_defs)
  ultimately show ?thesis by (meson rtranclp.rtrancl_into_rtrancl)
qed

text \<open>
  The server, with one worker. A function that is running when the alarm flag was cleared by the handler
  that took it out, so in its second loop, sets the alarm anew.
\<close>

definition server_at ::
  "nat option list \<Rightarrow> bool \<Rightarrow> nat \<Rightarrow> nat \<Rightarrow> nat \<Rightarrow> nat option list \<Rightarrow> nat option list \<Rightarrow> server_worker \<Rightarrow> bool \<Rightarrow>
     (nat, nat option list) server_life" where
  "server_at q need alarms emplaced setting pushed popped w stopping =
     \<lparr>v_dispatch = \<lparr>s_queue = q, s_need_alarm = need, s_alarms = alarms, s_alarm_cq = 0, s_emplaced = emplaced,
        s_setting = setting, s_draining = (if w = InDrain then 1 else 0), s_storing = (if w = AtStore then 1 else 0),
        s_popping = (if w = InPop then 1 else 0), s_pushed = pushed, s_popped = popped\<rparr>,
      v_workers = [w], v_stopping = stopping, v_shut = (if stopping then 1 else 0), v_joined = 0, v_stopped = False\<rparr>"

lemma server_outer_eq:
  "server_life_step emplace pop s t' \<Longrightarrow> t' = t \<Longrightarrow> server_nested_step emplace pop s t"
  by (simp add: server_outer)

lemmas server_at_defs = server_at_def server_life_defs server_step_defs list_pop_def alarm_for_def running_fn_def
  server_life_init_def server_init_def

lemma server_waiting_reached:
  "(server_nested_step list_emplace list_pop)\<^sup>*\<^sup>* (server_life_init 1 [])
     (server_at [Some 6] False 0 0 0 [Some 5, Some 6] [Some 5] AtStore False)"
proof -
  let ?step = "server_nested_step list_emplace list_pop :: (nat, nat option list) server_life \<Rightarrow> _"
  note defs = server_at_defs
  have "?step (server_life_init 1 []) (server_at [Some 5] True 0 1 0 [Some 5] [] AtNext False)"
    by (rule server_outer_eq, rule server_life_step.pushes [where fn = "Some 5"]) (simp_all add: defs)
  moreover have "?step (server_at [Some 5] True 0 1 0 [Some 5] [] AtNext False)
      (server_at [Some 5] False 0 0 1 [Some 5] [] AtNext False)"
    by (rule server_outer_eq, rule server_life_step.exchanges) (simp_all add: defs)
  moreover have "?step (server_at [Some 5] False 0 0 1 [Some 5] [] AtNext False)
      (server_at [Some 5] False 1 0 0 [Some 5] [] AtNext False)"
    by (rule server_outer_eq, rule server_life_step.sets [where cq_idx = 0
          and d = "v_dispatch (server_at [Some 5] False 1 0 0 [Some 5] [] AtNext False)"]) (simp_all add: defs)
  moreover have "?step (server_at [Some 5] False 1 0 0 [Some 5] [] AtNext False)
      (server_at [Some 5] False 0 0 0 [Some 5] [] InDrain False)"
    by (rule server_outer_eq, rule server_life_step.enters [where i = 0]) (simp_all add: defs)
  moreover have "?step (server_at [Some 5] False 0 0 0 [Some 5] [] InDrain False)
      (server_at [] False 0 0 0 [Some 5] [Some 5] InDrain False)"
    by (rule server_outer_eq, rule server_life_step.drains [where i = 0]) (simp_all add: defs)
  moreover have "?step (server_at [] False 0 0 0 [Some 5] [Some 5] InDrain False)
      (server_at [] False 0 0 0 [Some 5] [Some 5] AtStore False)"
    by (rule server_outer_eq, rule server_life_step.drains [where i = 0]) (simp_all add: defs)
  moreover have "?step (server_at [] False 0 0 0 [Some 5] [Some 5] AtStore False)
      (server_at [Some 6] False 0 1 0 [Some 5, Some 6] [Some 5] AtStore False)"
    by (rule server_outer_eq, rule server_life_step.pushes [where fn = "Some 6"]) (simp_all add: defs)
  moreover have "?step (server_at [Some 6] False 0 1 0 [Some 5, Some 6] [Some 5] AtStore False)
      (server_at [Some 6] False 0 0 0 [Some 5, Some 6] [Some 5] AtStore False)"
    by (rule server_outer_eq, rule server_life_step.exchanges) (simp_all add: defs)
  ultimately show ?thesis by (meson converse_rtranclp_into_rtranclp rtranclp.rtrancl_refl)
qed

lemma server_late_reached:
  "(server_nested_step list_emplace list_pop)\<^sup>*\<^sup>* (server_life_init 1 [])
     (server_at [Some 7] False 0 0 1 [Some 5, Some 6, Some 7] [Some 5, Some 6] InPop True)"
proof -
  let ?step = "server_nested_step list_emplace list_pop :: (nat, nat option list) server_life \<Rightarrow> _"
  let ?stop = "stop_begins (server_at [Some 6] False 0 0 0 [Some 5, Some 6] [Some 5] AtStore False)"
  note defs = server_at_defs
  note server_waiting_reached
  moreover have "?step (server_at [Some 6] False 0 0 0 [Some 5, Some 6] [Some 5] AtStore False) ?stop"
    by (rule server_outer_eq, rule server_life_step.begins) (simp_all add: defs)
  moreover have "?step ?stop (server_at [Some 6] False 0 0 0 [Some 5, Some 6] [Some 5] AtStore True)"
    by (rule server_outer_eq, rule server_life_step.shuts) (simp_all add: defs)
  moreover have "?step (server_at [Some 6] False 0 0 0 [Some 5, Some 6] [Some 5] AtStore True)
      (server_at [Some 6] True 0 0 0 [Some 5, Some 6] [Some 5] InPop True)"
    by (rule server_outer_eq, rule server_life_step.stores [where i = 0]) (simp_all add: defs)
  moreover have "?step (server_at [Some 6] True 0 0 0 [Some 5, Some 6] [Some 5] InPop True)
      (server_at [] True 0 0 0 [Some 5, Some 6] [Some 5, Some 6] InPop True)"
    by (rule server_outer_eq, rule server_life_step.pops [where i = 0]) (simp_all add: defs)
  moreover have "?step (server_at [] True 0 0 0 [Some 5, Some 6] [Some 5, Some 6] InPop True)
      (on_server (server_emplace list_emplace (Some 7))
        (server_at [] True 0 0 0 [Some 5, Some 6] [Some 5, Some 6] InPop True))"
    by (rule server_inner [where i = 0]) (simp_all add: defs)
  moreover have "?step (on_server (server_emplace list_emplace (Some 7))
        (server_at [] True 0 0 0 [Some 5, Some 6] [Some 5, Some 6] InPop True))
      (server_at [Some 7] False 0 0 1 [Some 5, Some 6, Some 7] [Some 5, Some 6] InPop True)"
    by (rule server_outer_eq, rule server_life_step.exchanges) (simp_all add: defs)
  ultimately show ?thesis by (meson rtranclp.rtrancl_into_rtrancl)
qed

section \<open>Properties\<close>

text \<open>
C37: a function that pushes can set an alarm on a queue that was shut down: without such functions neither
the client queue nor the server ever does, but with them both have a run in which a thread, in \<open>push\<close>,
is about to set the alarm after the destructor, or \<open>stop\<close>, has shut every queue down.
\<close>

theorem nested_push_after_shutdown:
  "(life_reaches [] list_emplace list_pop s \<longrightarrow> \<not> client_late_alarm (s :: (nat, nat option list) client_life)) \<and>
   (server_life_reaches (Suc n) [] list_emplace list_pop u \<longrightarrow>
      \<not> server_late_alarm (u :: (nat, nat option list) server_life)) \<and>
   (\<exists>s :: (nat, nat option list) client_life.
      (client_nested_step list_emplace list_pop)\<^sup>*\<^sup>* (client_life_init []) s \<and> client_late_alarm s) \<and>
   (\<exists>u :: (nat, nat option list) server_life.
      (server_nested_step list_emplace list_pop)\<^sup>*\<^sup>* (server_life_init 1 []) u \<and> server_late_alarm u)"
proof (intro conjI)
  show "\<exists>s :: (nat, nat option list) client_life.
      (client_nested_step list_emplace list_pop)\<^sup>*\<^sup>* (client_life_init []) s \<and> client_late_alarm s"
    by (rule exI, rule conjI, rule client_late_reached)
       (simp add: client_late_alarm_def client_late_def ex_life_defs)
  show "\<exists>u :: (nat, nat option list) server_life.
      (server_nested_step list_emplace list_pop)\<^sup>*\<^sup>* (server_life_init 1 []) u \<and> server_late_alarm u"
    by (rule exI, rule conjI, rule server_late_reached) (simp add: server_late_alarm_def server_at_def)
qed (rule impI, erule client_alarms_in_time server_alarms_in_time)+

theorem nested_push_after_shutdown_witness: "\<not> client_late_alarm ex_closed \<and> \<not> server_late_alarm ex_stopping"
  using nested_push_after_shutdown [of ex_closed 1 ex_stopping] ex_closed_reached ex_stopping_reached by blast

end
