(* ===== verification/Server.thy ===== *)
theory Server
  imports Server_Workers Dispatchers
begin

text \<open>
  The server object of \<open>src/grpc/server.cpp\<close> and its builder: construction, accessors, \<open>stop\<close>, and the
  configuration calls that lead to it. The runtime's server, queues and builder are names; what is
  called on them, and in which order, is recorded.
\<close>

section \<open>The server\<close>

type_synonym server_cq = nat

datatype server_call =
    AddCompletionQueue server_cq
  | BuildAndStart
  | StartThread nat
  | ShutdownServer
  | ShutdownQueue server_cq
  | JoinThread nat
  | FreeQueue server_cq
  | FreeServer

text \<open>
  \<open>m_server\<close> and the queues are owned pointers; a thread is joinable until it was joined. The workers
  themselves are in the theory of the worker threads.
\<close>

record server =
  m_server :: bool
  m_cqs :: "server_cq option list"
  m_threads :: "bool list"

text \<open>\<open>started\<close>: whether \<open>BuildAndStart\<close> returned a server; it returns null if that failed.\<close>

definition server_constructor :: "nat \<Rightarrow> bool \<Rightarrow> server \<times> server_call list" where
  "server_constructor thread_count started =
     (\<lparr>m_server = started, m_cqs = map Some [0..<thread_count], m_threads = replicate thread_count True\<rparr>,
      map AddCompletionQueue [0..<thread_count] @ [BuildAndStart] @ map StartThread [0..<thread_count])"

definition raw_server :: "server \<Rightarrow> bool" where
  "raw_server s = m_server s"

definition raw_cq :: "nat \<Rightarrow> server \<Rightarrow> server_cq option" where
  "raw_cq idx s = (if length (m_cqs s) \<le> idx then None else m_cqs s ! idx)"

definition thread_count :: "server \<Rightarrow> nat" where
  "thread_count s = length (m_threads s)"

definition is_running :: "server \<Rightarrow> bool" where
  "is_running s = m_server s"

text \<open>
  \<open>join\<close> of the calling thread itself throws; \<open>caller\<close> is the index of the worker \<open>stop\<close> is called
  on, if it is one. The loop joins in order and stops at the exception.
\<close>

datatype stop_error = ResourceDeadlock

fun join_threads :: "nat option \<Rightarrow> nat \<Rightarrow> bool list \<Rightarrow> bool list \<times> server_call list \<times> stop_error option" where
  "join_threads caller i [] = ([], [], None)"
| "join_threads caller i (joinable # ts) =
     (if joinable \<and> caller = Some i then (joinable # ts, [], Some ResourceDeadlock)
      else (case join_threads caller (Suc i) ts of (ts', cs, e) \<Rightarrow>
        (False # ts', (if joinable then [JoinThread i] else []) @ cs, e)))"

definition stop :: "nat option \<Rightarrow> server \<Rightarrow> server \<times> server_call list \<times> stop_error option" where
  "stop caller s =
     (let c1 = (if m_server s then [ShutdownServer] else []);
          c2 = map ShutdownQueue (List.map_filter id (m_cqs s))
      in case join_threads caller 0 (m_threads s) of
           (ts, c3, Some e) \<Rightarrow> (s\<lparr>m_threads := ts\<rparr>, c1 @ c2 @ c3, Some e)
         | (ts, c3, None) \<Rightarrow>
             (s\<lparr>m_cqs := [], m_threads := [], m_server := False\<rparr>,
              c1 @ c2 @ c3 @ map FreeQueue (List.map_filter id (m_cqs s)) @
              (if m_server s then [FreeServer] else []), None))"

section \<open>The builder\<close>

text \<open>What is called on \<open>::grpc::ServerBuilder\<close>; \<open>'cred\<close>, \<open>'opt\<close> and the rest are its argument types.\<close>

datatype ('svc, 'cred, 'sel, 'quota, 'opt) builder_call =
    RegisterService "string option" 'svc
  | AddListeningPort string 'cred 'sel
  | SetMaxReceiveMessageSize "64 word"
  | SetMaxSendMessageSize "64 word"
  | SetMaxMessageSize "64 word"
  | SetCompressionAlgorithmSupportStatus nat bool
  | SetDefaultCompressionLevel nat
  | SetDefaultCompressionAlgorithm nat
  | SetResourceQuota 'quota
  | SetOption 'opt
  | EnableWorkaround nat

text \<open>A task initializer: the function, the service and the arguments bound by \<open>add_task\<close>.\<close>

datatype ('svc, 'fn, 'arg) initializer =
    CallTask 'fn 'svc "'arg list"
  | CallMember 'fn 'svc nat "'arg list"   \<comment> \<open>\<open>(instance->*fn)(service, cq, args...)\<close>\<close>

record ('svc, 'cred, 'sel, 'quota, 'opt, 'fn, 'arg) server_builder =
  m_thread_count :: nat
  m_builder :: "('svc, 'cred, 'sel, 'quota, 'opt) builder_call list"
  m_cq_initializers :: "('svc, 'fn, 'arg) initializer list"

definition new_builder :: "nat \<Rightarrow> ('svc, 'cred, 'sel, 'quota, 'opt, 'fn, 'arg) server_builder" where
  "new_builder hardware_concurrency =
     \<lparr>m_thread_count = hardware_concurrency, m_builder = [], m_cq_initializers = []\<rparr>"

text \<open>One call on the builder, directly or through a \<open>service_builder\<close>, which passes it on.\<close>

datatype ('svc, 'cred, 'sel, 'quota, 'opt, 'fn, 'arg) builder_action =
    SetThreadCount nat
  | Forward "('svc, 'cred, 'sel, 'quota, 'opt) builder_call"
  | AddTask "('svc, 'fn, 'arg) initializer"

definition set_thread_count where
  "set_thread_count nthreads b = b\<lparr>m_thread_count := nthreads\<rparr>"

definition forward where "forward call b = b\<lparr>m_builder := m_builder b @ [call]\<rparr>"

definition add_service where "add_service instance b = forward (RegisterService None instance) b"

definition add_service_host where
  "add_service_host host instance b = forward (RegisterService (Some host) instance) b"

definition add_port where
  "add_port addr_uri creds selected_port b = forward (AddListeningPort addr_uri creds selected_port) b"

definition set_max_receive_message_size where
  "set_max_receive_message_size max_size b = forward (SetMaxReceiveMessageSize max_size) b"

definition set_max_send_message_size where
  "set_max_send_message_size max_size b = forward (SetMaxSendMessageSize max_size) b"

definition set_max_message_size where
  "set_max_message_size max_size b = forward (SetMaxMessageSize max_size) b"

definition set_compression_algorithm_support_status where
  "set_compression_algorithm_support_status algorithm enabled b =
     forward (SetCompressionAlgorithmSupportStatus algorithm enabled) b"

definition set_default_compression_level where
  "set_default_compression_level level b = forward (SetDefaultCompressionLevel level) b"

definition set_default_compression_algorithm where
  "set_default_compression_algorithm algorithm b = forward (SetDefaultCompressionAlgorithm algorithm) b"

definition set_resource_quota where "set_resource_quota quota b = forward (SetResourceQuota quota) b"

definition set_option where "set_option option b = forward (SetOption option) b"

definition enable_workaround where "enable_workaround workaround b = forward (EnableWorkaround workaround) b"

definition add_task where
  "add_task fn service args b = b\<lparr>m_cq_initializers := m_cq_initializers b @ [CallTask fn service args]\<rparr>"

definition add_member_task where
  "add_member_task fn service inst args b =
     b\<lparr>m_cq_initializers := m_cq_initializers b @ [CallMember fn service inst args]\<rparr>"

text \<open>A configuration is a sequence of these calls.\<close>

fun configure where
  "configure (SetThreadCount n) b = set_thread_count n b"
| "configure (Forward (RegisterService None inst)) b = add_service inst b"
| "configure (Forward (RegisterService (Some host) inst)) b = add_service_host host inst b"
| "configure (Forward (AddListeningPort uri creds sel)) b = add_port uri creds sel b"
| "configure (Forward (SetMaxReceiveMessageSize n)) b = set_max_receive_message_size n b"
| "configure (Forward (SetMaxSendMessageSize n)) b = set_max_send_message_size n b"
| "configure (Forward (SetMaxMessageSize n)) b = set_max_message_size n b"
| "configure (Forward (SetCompressionAlgorithmSupportStatus alg on)) b =
     set_compression_algorithm_support_status alg on b"
| "configure (Forward (SetDefaultCompressionLevel l)) b = set_default_compression_level l b"
| "configure (Forward (SetDefaultCompressionAlgorithm alg)) b = set_default_compression_algorithm alg b"
| "configure (Forward (SetResourceQuota q)) b = set_resource_quota q b"
| "configure (Forward (SetOption opt)) b = set_option opt b"
| "configure (Forward (EnableWorkaround w)) b = enable_workaround w b"
| "configure (AddTask (CallTask fn service args)) b = add_task fn service args b"
| "configure (AddTask (CallMember fn service inst args)) b = add_member_task fn service inst args b"

text \<open>
  \<open>build\<close> moves the initializers into the new server, which adds the queues to the builder, starts it
  and starts the workers.
\<close>

definition build where
  "build started b =
     (case server_constructor (m_thread_count b) started of (s, calls) \<Rightarrow>
        (b\<lparr>m_cq_initializers := []\<rparr>, s, calls, workers_init (m_thread_count b) (m_cq_initializers b)))"

lemmas configure_defs = set_thread_count_def forward_def add_service_def add_service_host_def add_port_def
  set_max_receive_message_size_def set_max_send_message_size_def set_max_message_size_def
  set_compression_algorithm_support_status_def set_default_compression_level_def
  set_default_compression_algorithm_def set_resource_quota_def set_option_def enable_workaround_def
  add_task_def add_member_task_def

section \<open>Properties of the builder\<close>

fun task_of where
  "task_of (AddTask t) = Some t"
| "task_of _ = None"

fun call_of where
  "call_of (Forward c) = Some c"
| "call_of _ = None"

fun count_of where
  "count_of (SetThreadCount n) = Some n"
| "count_of _ = None"

lemma configure_step:
  "m_cq_initializers (configure a b) = m_cq_initializers b @ List.map_filter task_of [a]"
  "m_builder (configure a b) = m_builder b @ List.map_filter call_of [a]"
  "m_thread_count (configure a b) = last (m_thread_count b # List.map_filter count_of [a])"
  by (cases "(a, b)" rule: configure.cases; simp add: configure_defs)+

lemma configure_all:
  "m_cq_initializers (fold configure acts b) = m_cq_initializers b @ List.map_filter task_of acts"
  "m_builder (fold configure acts b) = m_builder b @ List.map_filter call_of acts"
  "m_thread_count (fold configure acts b) = last (m_thread_count b # List.map_filter count_of acts)"
  by (induction acts arbitrary: b) (auto simp: configure_step split: option.splits)

text \<open>
The builder collects what it is told, in order and without mixing: after any sequence of calls,
made on the builder or on the service builders it hands out, the tasks are exactly those added, in
that order, the runtime's builder has received exactly the other settings, in that order, and the
number of threads is the last one set, or the number of hardware threads.
\<close>

theorem builder_collects:
  "m_cq_initializers (fold configure acts (new_builder hw)) = List.map_filter task_of acts \<and>
   m_builder (fold configure acts (new_builder hw)) = List.map_filter call_of acts \<and>
   m_thread_count (fold configure acts (new_builder hw)) = last (hw # List.map_filter count_of acts)"
  using configure_all [of acts "new_builder hw"] by (simp add: new_builder_def)

text \<open>
\<open>build\<close> makes a server with one completion queue and one worker for each thread asked for, which
are the queues \<open>raw_cq\<close> finds, adds the queues before it starts the server and the workers after it,
gives the workers exactly the tasks collected, and leaves none behind, so that a second server built
from the same builder runs no task.
\<close>

theorem build_starts_workers:
  fixes b :: "('svc, 'cred, 'sel, 'quota, 'opt, 'fn, 'arg) server_builder"
  defines "n \<equiv> m_thread_count b"
  shows "\<exists>b' s calls w. build started b = (b', s, calls, w) \<and>
     calls = map AddCompletionQueue [0..<n] @ [BuildAndStart] @ map StartThread [0..<n] \<and>
     length (m_cqs s) = n \<and> thread_count s = n \<and> is_running s = started \<and>
     (\<forall>i. raw_cq i s = (if i < n then Some i else None)) \<and>
     w = workers_init n (m_cq_initializers b) \<and>
     (\<exists>b'' s' calls'. build started b' = (b'', s', calls', workers_init n []))"
  by (simp add: build_def server_constructor_def n_def thread_count_def is_running_def raw_cq_def)

section \<open>Properties of stop\<close>

lemma join_all: "join_threads None i (replicate n True) = (replicate n False, map JoinThread [i..<i + n], None)"
proof (induction n arbitrary: i)
  case (Suc n)
  then show ?case by (simp add: upt_conv_Cons del: upt_Suc)
qed simp

lemma join_up_to:
  "k < n \<Longrightarrow> join_threads (Some (i + k)) i (replicate n True) =
     (replicate k False @ replicate (n - k) True, map JoinThread [i..<i + k], Some ResourceDeadlock)"
proof (induction n arbitrary: i k)
  case (Suc n)
  show ?case
  proof (cases k)
    case 0
    then show ?thesis by simp
  next
    case (Suc k')
    with Suc.prems Suc.IH [of k' "Suc i"] show ?thesis
      by (simp add: upt_conv_Cons del: upt_Suc)
  qed
qed simp

lemma somes [simp]: "List.map_filter id (map Some xs) = xs"
  by (induction xs) simp_all

text \<open>
\<open>stop\<close>, called from outside the workers, first shuts the server down, then all queues, then joins
all workers, and only then frees the queues and the server, so that no worker ever loses a queue it
still drains; afterwards the server is not running and has no queue, and stopping again, as the
destructor does, does nothing.
\<close>

theorem stop_in_order:
  "\<exists>s. stop None (fst (server_constructor n started)) =
     (s, (if started then [ShutdownServer] else []) @ map ShutdownQueue [0..<n] @
         map JoinThread [0..<n] @ map FreeQueue [0..<n] @ (if started then [FreeServer] else []), None) \<and>
     \<not> is_running s \<and> thread_count s = 0 \<and> (\<forall>i. raw_cq i s = None) \<and>
     (\<forall>caller. stop caller s = (s, [], None))"
  by (simp add: stop_def server_constructor_def join_all is_running_def thread_count_def raw_cq_def
      List.map_filter_def)

text \<open>
\<open>stop\<close> called on a worker thread of the same server, for example because a task drops the last
reference to it, shuts everything down, joins the workers before that one and then throws, leaving a
server that still counts as running and owns its queues.
\<close>

theorem stop_on_worker_throws:
  assumes "k < n"
  shows "\<exists>s. stop (Some k) (fst (server_constructor n True)) =
     (s, [ShutdownServer] @ map ShutdownQueue [0..<n] @ map JoinThread [0..<k], Some ResourceDeadlock) \<and>
     is_running s \<and> length (m_cqs s) = n \<and> thread_count s = n"
  using assms join_up_to [of k n 0]
  by (simp add: stop_def server_constructor_def is_running_def thread_count_def)

theorem stop_on_worker_throws_witness:
  "\<exists>s. stop (Some 1) (fst (server_constructor 3 True)) =
     (s, [ShutdownServer] @ map ShutdownQueue [0..<3] @ map JoinThread [0..<1], Some ResourceDeadlock) \<and>
     is_running s \<and> length (m_cqs s) = 3 \<and> thread_count s = 3"
  by (rule stop_on_worker_throws) simp

text \<open>
Pushing to a server without queues is undefined: a stopped server has none, and neither has one
built with no threads, as the default count may be; a push then takes the right to set the alarm and
reduces its index modulo zero.
\<close>

theorem push_needs_a_queue:
  "length (m_cqs (fst (stop None (fst (server_constructor n started))))) = 0 \<and>
   length (m_cqs (fst (server_constructor 0 started))) = 0 \<and>
   (\<exists>d :: (nat, nat option list) server_dispatch.
      server_reaches 0 [] list_emplace list_pop d \<and> 0 < s_setting d \<and>
      (\<forall>idx. server_set_alarm 0 idx d = Inl DivByZero))"
proof -
  let ?d0 = "server_emplace list_emplace (Some 5) (server_init []) :: (nat, nat option list) server_dispatch"
  have "pushes_and_steps (server_emplace list_emplace) (server_step 0 list_pop) (server_init []) ?d0"
    unfolding pushes_and_steps_def by blast
  moreover have "pushes_and_steps (server_emplace list_emplace) (server_step 0 list_pop) ?d0 (server_exchange ?d0)"
    unfolding pushes_and_steps_def by (rule disjI1, rule server_step.intros) (simp add: server_emplace_def)
  ultimately have "server_reaches 0 [] list_emplace list_pop (server_exchange ?d0)"
    by (meson converse_rtranclp_into_rtranclp rtranclp.rtrancl_refl)
  moreover have "0 < s_setting (server_exchange ?d0)"
    by (simp add: server_exchange_def server_emplace_def server_init_def)
  moreover have "length (m_cqs (fst (stop None (fst (server_constructor n started))))) = 0"
    by (simp add: stop_def server_constructor_def join_all)
  ultimately show ?thesis by (auto simp: server_set_alarm_def server_constructor_def)
qed

end
