(* ===== verification/Server_Whole.thy ===== *)
theory Server_Whole
  imports Worker_Startup Server_Life Server
begin

text \<open>
  A server from the constructor to the return of \<open>stop\<close> (\<open>src/grpc/server.cpp\<close>): the constructing thread
  that starts the workers one by one, the start of each worker, its loop and the functions it runs, the
  threads that push and the thread that stops the server, as one system. \<open>stop\<close> does not wait for the
  workers to be online.
\<close>

section \<open>State and steps\<close>

text \<open>
  The two parts of a server in the theories of the start and of the loops, and what connects them:
  \<open>h_server\<close> is whether \<open>BuildAndStart\<close> gave a server, \<open>h_created\<close> how many threads the constructor has
  started. \<open>h_late\<close> records the initializers that ran on a queue that was shut down.
\<close>

record ('init, 'fn, 'q) whole_server =
  h_start :: "'init workers"
  h_life :: "('fn, 'q) server_life"
  h_server :: bool
  h_created :: nat
  h_late :: "(nat \<times> 'init) list"

text \<open>The constructor after \<open>BuildAndStart\<close>, whatever that returned.\<close>

definition whole_init :: "nat \<Rightarrow> 'init list \<Rightarrow> 'q \<Rightarrow> bool \<Rightarrow> ('init, 'fn, 'q) whole_server" where
  "whole_init n cqinits empty_q started =
     \<lparr>h_start = workers_init n cqinits, h_life = server_life_init n empty_q,
      h_server = m_server (fst (server_constructor n started)), h_created = 0, h_late = []\<rparr>"

definition create_thread :: "('init, 'fn, 'q) whole_server \<Rightarrow> ('init, 'fn, 'q) whole_server" where
  "create_thread s = s\<lparr>h_created := Suc (h_created s)\<rparr>"

definition on_start ::
  "('init workers \<Rightarrow> 'init workers) \<Rightarrow> ('init, 'fn, 'q) whole_server \<Rightarrow> ('init, 'fn, 'q) whole_server" where
  "on_start f s = s\<lparr>h_start := f (h_start s)\<rparr>"

text \<open>\<open>e(cq)\<close>: the queue may have been shut down.\<close>

definition whole_initialises ::
  "nat \<Rightarrow> nat \<Rightarrow> nat \<Rightarrow> ('init, 'fn, 'q) whole_server \<Rightarrow> ('init, 'fn, 'q) whole_server" where
  "whole_initialises i k n s =
     (on_start (worker_initialise i k n) s)\<lparr>h_late := h_late s @
        (if i < v_shut (h_life s) then map (Pair i) (take 1 (drop k (w_initializers (h_start s)))) else [])\<rparr>"

text \<open>The last round of the loop: \<open>Next\<close> returns false and the thread function ends.\<close>

definition whole_leaves :: "nat \<Rightarrow> ('init, 'fn, 'q) whole_server \<Rightarrow> ('init, 'fn, 'q) whole_server" where
  "whole_leaves i s = (on_start (worker_exit i) s)\<lparr>h_life := server_leaves i (h_life s)\<rparr>"

text \<open>Only a worker that is in its loop moves there, and it leaves by \<open>whole_leaves\<close>.\<close>

definition in_loops :: "worker list \<Rightarrow> server_worker list \<Rightarrow> server_worker list \<Rightarrow> bool" where
  "in_loops ws vs vs' \<longleftrightarrow> list_all (\<lambda>(w, v, v'). v' = v \<or> w = Looping \<and> v' \<noteq> LoopDone) (zip ws (zip vs vs'))"

text \<open>Nobody has a pointer to the server, to stop it, before the constructor has returned.\<close>

inductive whole_step ::
  "('fn option \<Rightarrow> 'q \<Rightarrow> 'q) \<Rightarrow> ('q \<Rightarrow> ('fn option \<times> 'q) option) \<Rightarrow>
     ('init, 'fn, 'q) whole_server \<Rightarrow> ('init, 'fn, 'q) whole_server \<Rightarrow> bool"
  for emplace pop where
  creates: "h_created s < length (w_threads (h_start s)) \<Longrightarrow> whole_step emplace pop s (create_thread s)"
| begins: "i < h_created s \<Longrightarrow> i < length (w_threads (h_start s)) \<Longrightarrow> w_threads (h_start s) ! i = Fresh \<Longrightarrow>
     whole_step emplace pop s (on_start (worker_begin i) s)"
| initialises: "i < length (w_threads (h_start s)) \<Longrightarrow> w_threads (h_start s) ! i = Initialising k n \<Longrightarrow> k < n \<Longrightarrow>
     whole_step emplace pop s (whole_initialises i k n s)"
| comes_online: "i < length (w_threads (h_start s)) \<Longrightarrow> w_threads (h_start s) ! i = Initialising n n \<Longrightarrow>
     whole_step emplace pop s (on_start (worker_online i) s)"
| clears: "i < length (w_threads (h_start s)) \<Longrightarrow> w_threads (h_start s) ! i = Clearing \<Longrightarrow>
     whole_step emplace pop s (on_start (worker_clear i) s)"
| lives: "server_life_step emplace pop (h_life s) l \<Longrightarrow>
     in_loops (w_threads (h_start s)) (v_workers (h_life s)) (v_workers l) \<Longrightarrow>
     v_stopping l \<longrightarrow> h_created s = length (w_threads (h_start s)) \<Longrightarrow>
     whole_step emplace pop s (s\<lparr>h_life := l\<rparr>)"
| leaves: "i < v_shut (h_life s) \<Longrightarrow> i < length (v_workers (h_life s)) \<Longrightarrow>
     v_workers (h_life s) ! i = AtNext \<Longrightarrow> \<not> alarm_for i (h_life s) \<Longrightarrow> w_threads (h_start s) ! i = Looping \<Longrightarrow>
     whole_step emplace pop s (whole_leaves i s)"

abbreviation "whole_reaches n cqinits empty_q started emplace pop s \<equiv>
  (whole_step emplace pop)\<^sup>*\<^sup>* (whole_init n cqinits empty_q started) s"

lemmas whole_defs = create_thread_def on_start_def whole_initialises_def whole_leaves_def

section \<open>The two parts\<close>

lemma in_loops_nth:
  "length ws = n \<Longrightarrow> length vs = n \<Longrightarrow> length vs' = n \<Longrightarrow>
     in_loops ws vs vs' \<longleftrightarrow> (\<forall>i < n. vs' ! i = vs ! i \<or> ws ! i = Looping \<and> vs' ! i \<noteq> LoopDone)"
  by (auto simp: in_loops_def list_all_length)

text \<open>A worker has exited when it has left its loop; one that is not in the loop yet handles nothing.\<close>

definition coupled :: "worker \<Rightarrow> server_worker \<Rightarrow> bool" where
  "coupled w v \<longleftrightarrow> (w = Exited) = (v = LoopDone) \<and> (w \<noteq> Looping \<and> w \<noteq> Exited \<longrightarrow> v = AtNext)"

definition together :: "worker list \<Rightarrow> server_worker list \<Rightarrow> bool" where
  "together ws vs \<longleftrightarrow> length vs = length ws \<and>
     (\<forall>i < length ws. coupled (ws ! i) (vs ! i))"

definition whole_inv :: "'init list \<Rightarrow> ('init, 'fn, 'q) whole_server \<Rightarrow> bool" where
  "whole_inv inits s \<longleftrightarrow> workers_inv inits (h_start s) \<and> released_inv (h_start s) \<and>
     dispatch_places (h_life s) \<and> stop_places (h_life s) \<and>
     together (w_threads (h_start s)) (v_workers (h_life s)) \<and>
     (v_stopping (h_life s) \<longrightarrow> h_created s = length (w_threads (h_start s)))"

text \<open>A step is one of the constructor, of one of the parts, or of both.\<close>

lemma whole_parts:
  assumes "whole_step emplace pop s t" and "w_failure (h_start s) = None"
    and "length (v_workers (h_life s)) = length (w_threads (h_start s))"
  obtains (constructor) "h_start t = h_start s" "h_life t = h_life s"
      "h_created s < length (w_threads (h_start s))" "h_created t = Suc (h_created s)"
    | (start) "worker_step (h_start s) (h_start t)" "h_life t = h_life s" "h_created t = h_created s"
    | (life) "h_start t = h_start s" "server_life_step emplace pop (h_life s) (h_life t)" "h_created t = h_created s"
    | (both) "worker_step (h_start s) (h_start t)" "server_life_step emplace pop (h_life s) (h_life t)"
      "h_created t = h_created s" "v_stopping (h_life t) = v_stopping (h_life s)"
  using assms(1)
proof (cases rule: whole_step.cases)
  case creates
  then show ?thesis by (intro constructor) (simp_all add: whole_defs)
next
  case (begins i)
  with worker_step.begins [OF assms(2) begins(3,4)] show ?thesis by (intro start) (simp_all add: whole_defs)
next
  case (initialises i k n)
  with worker_step.initialises [OF assms(2) initialises(2,3,4)] show ?thesis by (intro start) (simp_all add: whole_defs)
next
  case (comes_online i n)
  with worker_step.comes_online [OF assms(2) comes_online(2,3)] show ?thesis by (intro start) (simp_all add: whole_defs)
next
  case (clears i)
  with worker_step.clears [OF assms(2) clears(2,3)] show ?thesis by (intro start) (simp_all add: whole_defs)
next
  case (lives l)
  then show ?thesis by (intro life) simp_all
next
  case (leaves i)
  have "worker_step (h_start s) (worker_exit i (h_start s))"
    using leaves(3,6) assms(2,3) by (intro worker_step.exits) simp_all
  moreover have "server_life_step emplace pop (h_life s) (server_leaves i (h_life s))"
    using leaves by (intro server_life_step.leaves)
  ultimately show ?thesis using leaves by (intro both) (simp_all add: whole_defs server_leaves_def moved_def)
qed

lemma together_init: "together (replicate n Fresh) (replicate n AtNext)"
  by (simp add: together_def coupled_def)

lemma coupled_exited: "coupled Exited LoopDone"
  by (simp add: coupled_def)

lemma together_start:
  assumes "together ws vs" and "i < length ws" and "ws ! i \<noteq> Looping" and "ws ! i \<noteq> Exited" and "w \<noteq> Exited"
  shows "together (ws[i := w]) vs"
proof -
  have old: "coupled (ws ! j) (vs ! j)" if "j < length ws" for j using assms(1) that by (simp add: together_def)
  have "vs ! i = AtNext" using old [OF assms(2)] assms(3,4) by (simp add: coupled_def)
  then have "coupled w (vs ! i)" using assms(5) by (simp add: coupled_def)
  with old have "coupled ((ws[i := w]) ! j) (vs ! j)" if "j < length ws" for j
    using that by (cases "j = i") simp_all
  then show ?thesis using assms(1) by (simp add: together_def)
qed

lemma together_life:
  assumes "together ws vs" and "in_loops ws vs vs'" and "length vs' = length vs"
  shows "together ws vs'"
proof -
  have n: "length vs = length ws" using assms(1) by (simp add: together_def)
  have "vs' ! i = vs ! i \<or> ws ! i = Looping \<and> vs' ! i \<noteq> LoopDone" if "i < length ws" for i
    using assms(2,3) n that by (simp add: in_loops_nth [OF refl])
  moreover have "coupled (ws ! i) (vs ! i)" if "i < length ws" for i using assms(1) that by (simp add: together_def)
  ultimately have "coupled (ws ! i) (vs' ! i)" if "i < length ws" for i
    using that by (metis coupled_def worker.distinct(19))
  then show ?thesis using assms(3) n by (simp add: together_def)
qed

lemma together_step:
  assumes "whole_step emplace pop s t" and "together (w_threads (h_start s)) (v_workers (h_life s))"
    and "w_failure (h_start s) = None"
  shows "together (w_threads (h_start t)) (v_workers (h_life t))"
  using assms(1)
proof (cases rule: whole_step.cases)
  case (initialises i k n)
  then show ?thesis
    using assms(2) by (auto simp: whole_defs worker_initialise_def intro!: together_start split: sum.split)
next
  case (lives l)
  then show ?thesis using assms(2) server_life_dispatch [OF lives(2)] by (auto intro: together_life)
next
  case (leaves i)
  then show ?thesis
    using assms(2)
    by (auto simp: whole_defs worker_exit_def server_leaves_def moved_def together_def nth_list_update coupled_exited)
qed (use assms(2) in \<open>auto simp: whole_defs worker_begin_def worker_online_def worker_clear_def Let_def intro!: together_start\<close>)

lemma whole_inv_init: "whole_inv inits (whole_init n inits empty_q started)"
  using workers_inv_init [of inits n] dispatch_places_init [of n empty_q] stop_places_init [of n empty_q]
    reach_released [of n inits "workers_init n inits"]
  by (simp add: whole_inv_def whole_init_def) (simp add: workers_init_def server_life_init_def together_init)

lemma whole_inv_step:
  assumes "whole_step emplace pop s t" and "whole_inv inits s"
  shows "whole_inv inits t"
proof -
  have f: "w_failure (h_start s) = None" and n: "length (v_workers (h_life s)) = length (w_threads (h_start s))"
    using assms(2) by (simp_all add: whole_inv_def workers_inv_def together_def)
  have tog: "together (w_threads (h_start t)) (v_workers (h_life t))"
    using together_step [OF assms(1) _ f] assms(2) by (simp add: whole_inv_def)
  have created: "v_stopping (h_life t) \<longrightarrow> h_created t = length (w_threads (h_start t))"
    using assms by (cases rule: whole_step.cases) (auto simp: whole_inv_def whole_defs worker_begin_def worker_initialise_def
        worker_online_def worker_clear_def worker_exit_def server_leaves_def moved_def Let_def split: sum.splits)
  show ?thesis
    using assms(1) f n
  proof (cases rule: whole_parts)
    case constructor
    with assms(2) tog created show ?thesis by (simp add: whole_inv_def)
  next
    case start
    with assms(2) tog created show ?thesis
      using workers_inv_step released_step by (simp add: whole_inv_def) blast
  next
    case life
    with assms(2) tog created show ?thesis
      using dispatch_places_step stop_places_step by (simp add: whole_inv_def) blast
  next
    case both
    with assms(2) tog created show ?thesis
      using workers_inv_step released_step dispatch_places_step stop_places_step by (simp add: whole_inv_def) blast
  qed
qed

lemma whole_reaches_inv:
  "whole_reaches n inits empty_q started emplace pop s \<Longrightarrow> whole_inv inits s"
  by (erule rtranclp_invariant) (auto intro: whole_inv_init whole_inv_step)

lemma whole_reaches_parts:
  assumes "whole_reaches n inits empty_q started emplace pop s"
  shows "workers_reach n inits (h_start s) \<and> server_life_reaches n empty_q emplace pop (h_life s)"
  using assms
proof (induction rule: rtranclp_induct)
  case base
  show ?case by (simp add: whole_init_def)
next
  case (step u v)
  have inv: "w_failure (h_start u) = None" "length (v_workers (h_life u)) = length (w_threads (h_start u))"
    using whole_reaches_inv [OF step(1)] by (simp_all add: whole_inv_def workers_inv_def together_def)
  show ?case
    by (rule whole_parts [OF step(2) inv]) (use step(3) in \<open>auto intro: rtranclp.rtrancl_into_rtrancl\<close>)
qed

section \<open>The whole server comes to an end\<close>

definition whole_left :: "'init list \<Rightarrow> 'f dispatch \<Rightarrow> ('init, 'fn, 'q) whole_server \<Rightarrow> nat" where
  "whole_left inits a s = stop_left a (h_life s) + start_work inits (h_start s)"

context function_queue
begin

lemma whole_step_works:
  assumes "whole_step emplace pop s t" and "whole_inv inits s" and "v_stopping (h_life s)"
    and "server_rel (length (v_workers (h_life s))) contents (v_dispatch (h_life s)) a"
  shows "\<exists>b. server_rel (length (v_workers (h_life t))) contents (v_dispatch (h_life t)) b \<and>
     v_stopping (h_life t) \<and> whole_left inits b t < whole_left inits a s"
proof -
  have inv: "workers_inv inits (h_start s)" "h_created s = length (w_threads (h_start s))"
    using assms(2,3) by (simp_all add: whole_inv_def)
  have f: "w_failure (h_start s) = None" and n: "length (v_workers (h_life s)) = length (w_threads (h_start s))"
    using assms(2) by (simp_all add: whole_inv_def workers_inv_def together_def)
  show ?thesis
    using assms(1) f n
  proof (cases rule: whole_parts)
    case constructor
    with inv(2) show ?thesis by simp
  next
    case start
    with step_uses_work [OF start(1) inv(1)] assms(3,4) show ?thesis by (auto simp: whole_left_def)
  next
    case life
    with stopping_step_works [OF life(2) assms(3,4)] show ?thesis by (auto simp: whole_left_def)
  next
    case both
    with stopping_step_works [OF both(2) assms(3,4)] step_uses_work [OF both(1) inv(1)] show ?thesis
      by (fastforce simp: whole_left_def)
  qed
qed

lemma whole_runs_bounded:
  "(whole_step emplace pop ^^ k) s t \<Longrightarrow> whole_inv inits s \<Longrightarrow> v_stopping (h_life s) \<Longrightarrow>
     server_rel (length (v_workers (h_life s))) contents (v_dispatch (h_life s)) a \<Longrightarrow>
     \<exists>b. server_rel (length (v_workers (h_life t))) contents (v_dispatch (h_life t)) b \<and>
       whole_inv inits t \<and> v_stopping (h_life t) \<and> whole_left inits b t + k \<le> whole_left inits a s"
proof (induction k arbitrary: t)
  case (Suc k)
  from Suc.prems(1) obtain u where u: "(whole_step emplace pop ^^ k) s u" "whole_step emplace pop u t" by auto
  obtain b where b: "server_rel (length (v_workers (h_life u))) contents (v_dispatch (h_life u)) b" "whole_inv inits u"
      "v_stopping (h_life u)" "whole_left inits b u + k \<le> whole_left inits a s"
    using Suc.IH [OF u(1) Suc.prems(2,3,4)] by blast
  from whole_step_works [OF u(2) b(2,3,1)] b(4) whole_inv_step [OF u(2) b(2)] show ?case by fastforce
qed auto

end

text \<open>A worker that is not in its loop yet can go on.\<close>

lemma starting_worker_goes_on:
  assumes "whole_inv inits s" and "h_created s = length (w_threads (h_start s))"
    and "i < length (w_threads (h_start s))" and "w_threads (h_start s) ! i \<notin> {Looping, Exited}"
  shows "\<exists>t. whole_step emplace pop s t"
proof (cases "w_threads (h_start s) ! i")
  case (Initialising k n)
  have "worker_ok inits (h_start s) i (w_threads (h_start s) ! i)"
    using assms(1,3) by (simp add: whole_inv_def workers_inv_def)
  then have "k \<le> n" using Initialising by (simp add: worker_ok_def)
  then show ?thesis
    using whole_step.initialises [OF assms(3) Initialising, of emplace pop]
      whole_step.comes_online [OF assms(3), of n emplace pop] Initialising by (cases "k = n") auto
next
  case Fresh
  then show ?thesis using whole_step.begins [of i s emplace pop] assms(2,3) by auto
next
  case Clearing
  then show ?thesis using whole_step.clears [OF assms(3), of emplace pop] by auto
qed (use assms(4) in auto)

text \<open>A step of a server whose workers are all in their loops, or past them, is a step of the whole.\<close>

lemma life_goes_on:
  assumes "whole_inv inits s" and "v_stopping (h_life s)" and "server_life_step emplace pop (h_life s) l"
    and all: "\<And>i. i < length (w_threads (h_start s)) \<Longrightarrow> w_threads (h_start s) ! i \<in> {Looping, Exited}"
  shows "\<exists>t. whole_step emplace pop s t"
proof -
  have tog: "together (w_threads (h_start s)) (v_workers (h_life s))"
    and c: "h_created s = length (w_threads (h_start s))"
    using assms(1,2) by (simp_all add: whole_inv_def)
  then have n: "length (v_workers (h_life s)) = length (w_threads (h_start s))" by (simp add: together_def)
  have loops: "w_threads (h_start s) ! i = Looping" if "i < length (v_workers (h_life s))" "v_workers (h_life s) ! i \<noteq> LoopDone" for i
    using tog that all [of i] n unfolding together_def coupled_def by (metis insertE singletonD)
  have same: "whole_step emplace pop s (s\<lparr>h_life := l\<rparr>)"
    if "in_loops (w_threads (h_start s)) (v_workers (h_life s)) (v_workers l)"
    by (rule whole_step.lives [OF assms(3) that]) (use c in simp)
  have moves: "\<exists>t. whole_step emplace pop s t"
    if eq: "v_workers l = (v_workers (h_life s))[j := w]" and j: "v_workers (h_life s) ! j \<noteq> LoopDone"
      and w: "w \<noteq> LoopDone" for j w
  proof -
    have "v_workers l ! i = v_workers (h_life s) ! i \<or> w_threads (h_start s) ! i = Looping \<and> v_workers l ! i \<noteq> LoopDone"
      if "i < length (w_threads (h_start s))" for i
      using eq j w loops [of i] that n by (cases "i = j") auto
    then show ?thesis using same n eq by (auto simp: in_loops_nth [OF refl])
  qed
  have rest: "\<exists>t. whole_step emplace pop s t" if "v_workers l = v_workers (h_life s)"
    using same n that by (auto simp: in_loops_nth [OF refl])
  show ?thesis
    using assms(3)
  proof (cases rule: server_life_step.cases)
    case (leaves i)
    with loops [of i] show ?thesis by (auto intro: whole_step.leaves)
  qed (use rest moves in \<open>auto simp: server_life_defs\<close>)
qed

lemma whole_goes_on:
  assumes "whole_inv inits s" and "v_stopping (h_life s)" and "\<not> v_stopped (h_life s)"
  shows "\<exists>t. whole_step emplace pop s t"
proof (cases "\<forall>i < length (w_threads (h_start s)). w_threads (h_start s) ! i \<in> {Looping, Exited}")
  case True
  obtain l where "server_life_step emplace pop (h_life s) l"
    using stop_goes_on [of "h_life s"] assms by (auto simp: whole_inv_def)
  with life_goes_on [OF assms(1,2)] True show ?thesis by blast
next
  case False
  then show ?thesis
    using starting_worker_goes_on [OF assms(1)] assms(1,2) by (auto simp: whole_inv_def)
qed

section \<open>Initializers on queues that were shut down\<close>

lemma online_no_more_late:
  assumes "whole_step emplace pop s t" and "list_all online (w_threads (h_start s))"
  shows "list_all online (w_threads (h_start t)) \<and> h_late t = h_late s"
proof -
  have on: "online (w_threads (h_start s) ! i)" if "i < length (w_threads (h_start s))" for i
    using assms(2) that by (simp add: list_all_length)
  show ?thesis
    using assms(1)
  proof (cases rule: whole_step.cases)
    case (begins i)
    with on [of i] show ?thesis by simp
  next
    case (initialises i k n)
    with on [of i] show ?thesis by simp
  next
    case (comes_online i n)
    with on [of i] show ?thesis by simp
  qed (use assms(2) in \<open>auto simp: whole_defs worker_clear_def worker_exit_def intro: all_online_update\<close>)
qed

section \<open>Properties\<close>

text \<open>One worker and one initializer; the server is stopped before the worker has run it.\<close>

definition ex_whole :: "bool \<Rightarrow> (nat, nat, nat option list) whole_server" where
  "ex_whole started = (let s = create_thread (whole_init (Suc 0) [10] [] started)
     in s\<lparr>h_life := stop_shuts (stop_begins (h_life s))\<rparr>)"

lemmas ex_whole_defs = whole_defs ex_whole_def whole_init_def workers_init_def server_life_init_def server_init_def
  server_constructor_def stop_begins_def stop_shuts_def worker_begin_def worker_initialise_def array_at_def ran_on_def

lemma ex_whole_reached: "whole_reaches (Suc 0) [10] [] started list_emplace list_pop (ex_whole started)"
proof -
  let ?step = "whole_step list_emplace list_pop :: (nat, nat, nat option list) whole_server \<Rightarrow> _"
  let ?s0 = "whole_init (Suc 0) [10] [] started :: (nat, nat, nat option list) whole_server"
  let ?s1 = "create_thread ?s0" let ?s2 = "?s1\<lparr>h_life := stop_begins (h_life ?s1)\<rparr>"
  let ?s3 = "?s2\<lparr>h_life := stop_shuts (h_life ?s2)\<rparr>"
  have st1: "?step ?s0 ?s1" by (rule whole_step.creates) (simp add: ex_whole_defs)
  have st2: "?step ?s1 ?s2"
    by (rule whole_step.lives, rule server_life_step.begins) (simp_all add: ex_whole_defs in_loops_def)
  have "?step ?s2 ?s3"
    by (rule whole_step.lives, rule server_life_step.shuts) (simp_all add: ex_whole_defs in_loops_def)
  then have st3: "?step ?s2 (ex_whole started)" by (simp add: ex_whole_def Let_def)
  show ?thesis
    by (rule rtranclp.rtrancl_into_rtrancl [OF rtranclp.rtrancl_into_rtrancl [OF r_into_rtranclp [where r = ?step, OF st1] st2] st3])
qed

text \<open>
The start of the workers and the life of the server fit together: in every run of the whole server its
start is a run of the start-up model and its life a run of the model in which all workers are in their
loops from the beginning, a worker handles events only after its start, and is finished exactly when it
has left its loop; \<open>stop\<close> begins only when all threads exist.
\<close>

theorem whole_server_refines_parts:
  assumes "whole_reaches n inits empty_q started emplace pop s"
  shows "workers_reach n inits (h_start s) \<and> server_life_reaches n empty_q emplace pop (h_life s) \<and>
    (\<forall>i < n. (v_workers (h_life s) ! i = LoopDone) = (w_threads (h_start s) ! i = Exited) \<and>
       (v_workers (h_life s) ! i \<in> {InDrain, AtStore, InPop} \<longrightarrow> w_threads (h_start s) ! i = Looping)) \<and>
    (v_stopping (h_life s) \<longrightarrow> h_created s = n)"
proof -
  have parts: "workers_reach n inits (h_start s)" "server_life_reaches n empty_q emplace pop (h_life s)"
    using whole_reaches_parts [OF assms] by blast+
  have n: "length (w_threads (h_start s)) = n" by (rule workers_reach_count [OF parts(1)])
  have inv: "together (w_threads (h_start s)) (v_workers (h_life s))" "v_stopping (h_life s) \<longrightarrow> h_created s = n"
    using whole_reaches_inv [OF assms] n by (simp_all add: whole_inv_def)
  have coupled: "coupled (w_threads (h_start s) ! i) (v_workers (h_life s) ! i)" if "i < n" for i
    using inv(1) that n by (simp add: together_def)
  have "(v_workers (h_life s) ! i = LoopDone) = (w_threads (h_start s) ! i = Exited) \<and>
       (v_workers (h_life s) ! i \<in> {InDrain, AtStore, InPop} \<longrightarrow> w_threads (h_start s) ! i = Looping)" if "i < n" for i
    using coupled [OF that] by (cases "w_threads (h_start s) ! i") (auto simp: coupled_def)
  with parts inv(2) show ?thesis by blast
qed

theorem whole_server_refines_parts_witness:
  "workers_reach (Suc 0) [10] (h_start (ex_whole False)) \<and>
   server_life_reaches (Suc 0) [] list_emplace list_pop (h_life (ex_whole False))"
  using whole_server_refines_parts [OF ex_whole_reached [of False]] by blast

text \<open>
A server always comes to an end, also one that is stopped while its workers still start: once \<open>stop\<close> has
begun every run of all its threads ends, and as long as \<open>stop\<close> has not returned one of them can go on;
when it has returned every worker has run all initializers, in order, on its own queue, has left its loop
and finished, the initializers are released, and every function ever pushed was taken out, in order.
\<close>

theorem whole_server_ends:
  assumes "function_queue empty_q emplace pop contents"
    and "whole_reaches (Suc n) inits empty_q started emplace pop s" and "v_stopping (h_life s)"
  shows "runs_bounded (whole_step emplace pop) s \<and> (v_stopped (h_life s) \<or> (\<exists>t. whole_step emplace pop s t)) \<and>
    (v_stopped (h_life s) \<longrightarrow>
       w_threads (h_start s) = replicate (Suc n) Exited \<and> (\<forall>i < Suc n. ran_on i (h_start s) = inits) \<and>
       w_initializers (h_start s) = [] \<and> contents (s_queue (v_dispatch (h_life s))) = [] \<and>
       executed (s_popped (v_dispatch (h_life s))) = executed (s_pushed (v_dispatch (h_life s))))"
proof -
  have inv: "whole_inv inits s" by (rule whole_reaches_inv [OF assms(2)])
  have parts: "workers_reach (Suc n) inits (h_start s)" "server_life_reaches (Suc n) empty_q emplace pop (h_life s)"
    using whole_reaches_parts [OF assms(2)] by blast+
  have n: "length (v_workers (h_life s)) = Suc n" and r: "server_reaches (Suc n) empty_q emplace pop (v_dispatch (h_life s))"
    and places: "dispatch_places (h_life s)" "stop_places (h_life s)"
    using server_life_reached [OF parts(2)] by simp_all
  have m: "length (w_threads (h_start s)) = Suc n" by (rule workers_reach_count [OF parts(1)])
  obtain a where a: "server_rel (length (v_workers (h_life s))) contents (v_dispatch (h_life s)) a" "dispatch_inv a"
    using function_queue.server_facts(1) [OF assms(1) r] n by auto
  have "runs_bounded (whole_step emplace pop) s"
    unfolding runs_bounded_def
    using function_queue.whole_runs_bounded [OF assms(1) _ inv assms(3) a(1)]
    by (intro exI [of _ "whole_left inits a s"]) fastforce
  moreover have "v_stopped (h_life s) \<or> (\<exists>t. whole_step emplace pop s t)"
    using whole_goes_on [OF inv assms(3)] by blast
  moreover have "w_threads (h_start s) = replicate (Suc n) Exited" if "v_stopped (h_life s)"
  proof (rule nth_equalityI)
    fix i assume i: "i < length (w_threads (h_start s))"
    then have "coupled (w_threads (h_start s) ! i) (v_workers (h_life s) ! i)"
      using inv by (simp add: whole_inv_def together_def)
    then show "w_threads (h_start s) ! i = replicate (Suc n) Exited ! i"
      using stopped_workers [OF places(2) that] i m n by (simp add: coupled_def del: replicate_Suc)
  qed (simp add: m)
  moreover have "(\<forall>i < Suc n. ran_on i (h_start s) = inits) \<and> w_initializers (h_start s) = []"
    if "w_threads (h_start s) = replicate (Suc n) Exited"
    using inv that by (auto simp: whole_inv_def workers_inv_def worker_ok_def released_inv_def list_all_iff
        simp del: replicate_Suc)
  moreover have "contents (s_queue (v_dispatch (h_life s))) = [] \<and>
      s_popped (v_dispatch (h_life s)) = s_pushed (v_dispatch (h_life s))" if "v_stopped (h_life s)"
    using function_queue.stopped_empty [OF assms(1) places that a] a(1) by (simp add: server_rel_def)
  ultimately show ?thesis by auto
qed

theorem whole_server_ends_witness:
  "runs_bounded (whole_step list_emplace list_pop) (ex_whole True)"
  by (rule whole_server_ends [OF list_functions_queue ex_whole_reached, THEN conjunct1]) (simp add: ex_whole_defs Let_def)

text \<open>
C31: the initializers run whatever has become of the server: once all workers are online no initializer runs on a
queue that was shut down, but \<open>stop\<close> does not wait for that, and the constructor does not look at what
\<open>BuildAndStart\<close> returned: there is a run in which the server is stopped while its worker starts, and the
worker then runs the initializer on its queue after the shutdown, with a server or without one.
\<close>

theorem initializers_run_regardless:
  "(list_all online (w_threads (h_start s)) \<and> h_late s = [] \<and> (whole_step emplace pop)\<^sup>*\<^sup>* s t \<longrightarrow> h_late t = []) \<and>
   (\<exists>u :: (nat, nat, nat option list) whole_server. whole_reaches (Suc 0) [10] [] started list_emplace list_pop u \<and>
      h_server u = started \<and> v_shut (h_life u) = 1 \<and> h_late u = [(0, 10)] \<and> ran_on 0 (h_start u) = [10])"
proof (rule conjI, intro impI, elim conjE)
  assume run: "(whole_step emplace pop)\<^sup>*\<^sup>* s t" and "list_all online (w_threads (h_start s))" and "h_late s = []"
  then have "list_all online (w_threads (h_start t)) \<and> h_late t = []"
    using rtranclp_invariant [OF run, of "\<lambda>s. list_all online (w_threads (h_start s)) \<and> h_late s = []"]
      online_no_more_late by metis
  then show "h_late t = []" by simp
next
  let ?step = "whole_step list_emplace list_pop :: (nat, nat, nat option list) whole_server \<Rightarrow> _"
  let ?s1 = "on_start (worker_begin 0) (ex_whole started)" let ?s2 = "whole_initialises 0 0 1 ?s1"
  have st1: "?step (ex_whole started) ?s1" by (rule whole_step.begins) (simp_all add: ex_whole_defs Let_def)
  have st2: "?step ?s1 ?s2" by (rule whole_step.initialises) (simp_all add: ex_whole_defs Let_def)
  have "whole_reaches (Suc 0) [10] [] started list_emplace list_pop ?s2"
    by (rule rtranclp.rtrancl_into_rtrancl [OF rtranclp.rtrancl_into_rtrancl [OF ex_whole_reached st1] st2])
  moreover have "h_server ?s2 = started" "v_shut (h_life ?s2) = 1" "h_late ?s2 = [(0, 10)]" "ran_on 0 (h_start ?s2) = [10]"
    by (simp_all add: ex_whole_defs Let_def)
  ultimately show "\<exists>u :: (nat, nat, nat option list) whole_server.
      whole_reaches (Suc 0) [10] [] started list_emplace list_pop u \<and>
      h_server u = started \<and> v_shut (h_life u) = 1 \<and> h_late u = [(0, 10)] \<and> ran_on 0 (h_start u) = [10]" by blast
qed

theorem initializers_run_regardless_witness:
  "\<exists>u :: (nat, nat, nat option list) whole_server. whole_reaches (Suc 0) [10] [] False list_emplace list_pop u \<and>
      h_server u = False \<and> v_shut (h_life u) = 1 \<and> h_late u = [(0, 10)] \<and> ran_on 0 (h_start u) = [10]"
  by (rule initializers_run_regardless [THEN conjunct2])

end
