(* ===== verification/Server_Construction.thy ===== *)
theory Server_Construction
  imports Server
begin

text \<open>
  The constructor of the server when the operating system refuses a thread (\<open>src/grpc/server.cpp\<close>): the
  members built so far are destroyed in the reverse of the order in which \<open>server.h\<close> declares them.
\<close>

section \<open>Construction and unwinding\<close>

datatype construction =
    Constructed server
  | ConstructorThrows       \<comment> \<open>\<open>std::system_error\<close> leaves \<open>server_builder::build\<close>\<close>
  | ProgramTerminates       \<comment> \<open>\<open>std::terminate\<close>\<close>

text \<open>The destructor of \<open>std::thread\<close> terminates the program if the thread is joinable.\<close>

fun destroy_threads :: "bool list \<Rightarrow> bool" where
  "destroy_threads [] = True"
| "destroy_threads (joinable # ts) = (\<not> joinable \<and> destroy_threads ts)"

text \<open>
  The members in question are \<open>m_server\<close>, \<open>m_cqs\<close> and \<open>m_threads\<close>, in this order; \<open>stop\<close> is not called,
  as the destructor of an object that was never constructed does not run.
\<close>

definition unwind :: "server \<Rightarrow> construction \<times> server_call list" where
  "unwind s =
     (if destroy_threads (m_threads s)
      then (ConstructorThrows, map FreeQueue (List.map_filter id (m_cqs s)) @ (if m_server s then [FreeServer] else []))
      else (ProgramTerminates, []))"

text \<open>\<open>m_threads.emplace_back\<close> in a loop; \<open>refused\<close> tells which threads cannot be started.\<close>

fun start_threads :: "(nat \<Rightarrow> bool) \<Rightarrow> nat list \<Rightarrow> server \<Rightarrow> construction \<times> server_call list" where
  "start_threads refused [] s = (Constructed s, [])"
| "start_threads refused (i # is) s =
     (if refused i then unwind s
      else (case start_threads refused is (s\<lparr>m_threads := m_threads s @ [True]\<rparr>) of (r, calls) \<Rightarrow> (r, StartThread i # calls)))"

definition construct_server :: "nat \<Rightarrow> bool \<Rightarrow> (nat \<Rightarrow> bool) \<Rightarrow> construction \<times> server_call list" where
  "construct_server nthreads started refused =
     (case start_threads refused [0..<nthreads]
        \<lparr>m_server = started, m_cqs = map Some [0..<nthreads], m_threads = []\<rparr> of
        (r, calls) \<Rightarrow> (r, map AddCompletionQueue [0..<nthreads] @ [BuildAndStart] @ calls))"

section \<open>Properties\<close>

lemma destroy_threads_replicate: "destroy_threads (replicate k True) = (k = 0)"
  by (cases k) simp_all

lemma start_all:
  "\<forall>i \<in> set is. \<not> refused i \<Longrightarrow>
     start_threads refused is s = (Constructed (s\<lparr>m_threads := m_threads s @ replicate (length is) True\<rparr>), map StartThread is)"
  by (induction "is" arbitrary: s) (simp_all add: replicate_app_Cons_same)

lemma start_until_refused:
  "\<forall>i \<in> set is. \<not> refused i \<Longrightarrow> refused k \<Longrightarrow>
     start_threads refused (is @ k # js) s =
       (case unwind (s\<lparr>m_threads := m_threads s @ replicate (length is) True\<rparr>) of (r, calls) \<Rightarrow> (r, map StartThread is @ calls))"
  by (induction "is" arbitrary: s) (auto simp: replicate_app_Cons_same split: prod.split)

text \<open>
What becomes of a server whose threads cannot all be started: if none is refused the constructor makes the
server the builder promises, with all queues added before the start and all workers started after it; if
the first one is refused the constructor throws, having freed the queues of the started server without
shutting them down; and if a later one is refused the threads already started are destroyed while they
run, which terminates the program instead of throwing.
\<close>

theorem server_construction_failures:
  "((\<forall>i < n. \<not> refused i) \<longrightarrow> construct_server n started refused =
      (Constructed (fst (server_constructor n started)), snd (server_constructor n started))) \<and>
   (k < n \<and> refused k \<and> (\<forall>i < k. \<not> refused i) \<longrightarrow> construct_server n started refused =
      (if k = 0 then ConstructorThrows else ProgramTerminates,
       map AddCompletionQueue [0..<n] @ [BuildAndStart] @ map StartThread [0..<k] @
       (if k = 0 then map FreeQueue [0..<n] @ (if started then [FreeServer] else []) else [])))"
proof (intro conjI impI, goal_cases)
  case 1
  then show ?case
    using start_all [of "[0..<n]" refused] by (simp add: construct_server_def server_constructor_def)
next
  case 2
  then have "[0..<n] = [0..<k] @ k # [Suc k..<n]"
    by (metis upt_add_eq_append upt_conv_Cons le_add_diff_inverse less_imp_le zero_le)
  with 2 start_until_refused [of "[0..<k]" refused k "[Suc k..<n]"] show ?case
    by (simp add: construct_server_def unwind_def destroy_threads_replicate)
qed

theorem server_construction_failures_witness:
  "construct_server 3 True (\<lambda>i. i = 1) =
     (ProgramTerminates, map AddCompletionQueue [0..<3] @ [BuildAndStart] @ map StartThread [0..<1])"
  using server_construction_failures [of 3 "\<lambda>i. i = 1" True 1] by simp

end
