(* ===== verification/Service_Builder.thy ===== *)
theory Service_Builder
  imports Server
begin

text \<open>
  The builders \<open>add_service\<close> hands out (\<open>service_builder\<close> of \<open>server.h\<close>, the members of
  \<open>service_builder_base\<close> in \<open>server.cpp\<close>): chained calls, in which the static type of an expression
  decides what may be called next, and how they end up in the parent builder.
\<close>

section \<open>The members of a service builder\<close>

text \<open>
  A \<open>service_builder\<close> is a pointer to its parent, the builder the functions are given, and the service
  it was made for.
\<close>

record 'svc service_builder =
  m_service :: 'svc

definition service_builder_of :: "'svc \<Rightarrow> 'svc service_builder" where
  "service_builder_of instance = \<lparr>m_service = instance\<rparr>"

text \<open>The members of the base class: each calls the parent and returns it.\<close>

definition service_add_port where
  "service_add_port addr_uri creds selected_port parent = add_port addr_uri creds selected_port parent"

definition service_set_max_receive_message_size where
  "service_set_max_receive_message_size max_size parent = set_max_receive_message_size max_size parent"

definition service_set_max_send_message_size where
  "service_set_max_send_message_size max_size parent = set_max_send_message_size max_size parent"

definition service_set_max_message_size where
  "service_set_max_message_size max_size parent = set_max_message_size max_size parent"

definition service_set_compression_algorithm_support_status where
  "service_set_compression_algorithm_support_status algorithm enabled parent =
     set_compression_algorithm_support_status algorithm enabled parent"

definition service_set_default_compression_level where
  "service_set_default_compression_level level parent = set_default_compression_level level parent"

definition service_set_default_compression_algorithm where
  "service_set_default_compression_algorithm algorithm parent = set_default_compression_algorithm algorithm parent"

definition service_set_resource_quota where
  "service_set_resource_quota quota parent = set_resource_quota quota parent"

definition service_set_option where
  "service_set_option option parent = set_option option parent"

definition service_enable_workaround where
  "service_enable_workaround workaround parent = enable_workaround workaround parent"

definition service_build where
  "service_build started parent = build started parent"

lemmas service_defs = service_add_port_def service_set_max_receive_message_size_def
  service_set_max_send_message_size_def service_set_max_message_size_def
  service_set_compression_algorithm_support_status_def service_set_default_compression_level_def
  service_set_default_compression_algorithm_def service_set_resource_quota_def service_set_option_def
  service_enable_workaround_def

text \<open>The members of \<open>service_builder<T>\<close>: a new service makes a new one; a task is bound to its service.\<close>

definition builder_add_service where
  "builder_add_service instance b = (add_service instance b, service_builder_of instance)"

definition builder_add_service_host where
  "builder_add_service_host host instance b = (add_service_host host instance b, service_builder_of instance)"

definition service_add_service where
  "service_add_service instance parent = builder_add_service instance parent"

definition service_add_service_host where
  "service_add_service_host host instance parent = builder_add_service_host host instance parent"

definition service_add_task where
  "service_add_task sb fn args parent = (add_task fn (m_service sb) args parent, sb)"

definition service_add_member_task where
  "service_add_member_task sb fn inst args parent = (add_member_task fn (m_service sb) inst args parent, sb)"

section \<open>Chains\<close>

text \<open>What the last expression of a chain is: the builder itself, or a service builder.\<close>

datatype 'svc receiver = OnBuilder | OnService "'svc service_builder"

datatype ('svc, 'cred, 'sel, 'quota, 'opt, 'fn, 'arg) chain_call =
    CallSetThreadCount nat
  | CallAddService 'svc
  | CallAddServiceHost string 'svc
  | CallSetter "('svc, 'cred, 'sel, 'quota, 'opt) builder_call"
  | CallAddTask 'fn "'arg list"
  | CallAddMemberTask 'fn nat "'arg list"

text \<open>The setters, on the builder and through a service builder; registering a service is none of them.\<close>

fun call_setter where
  "call_setter (AddListeningPort uri creds sel) b = Some (add_port uri creds sel b)"
| "call_setter (SetMaxReceiveMessageSize n) b = Some (set_max_receive_message_size n b)"
| "call_setter (SetMaxSendMessageSize n) b = Some (set_max_send_message_size n b)"
| "call_setter (SetMaxMessageSize n) b = Some (set_max_message_size n b)"
| "call_setter (SetCompressionAlgorithmSupportStatus alg on) b =
     Some (set_compression_algorithm_support_status alg on b)"
| "call_setter (SetDefaultCompressionLevel l) b = Some (set_default_compression_level l b)"
| "call_setter (SetDefaultCompressionAlgorithm alg) b = Some (set_default_compression_algorithm alg b)"
| "call_setter (SetResourceQuota q) b = Some (set_resource_quota q b)"
| "call_setter (SetOption opt) b = Some (set_option opt b)"
| "call_setter (EnableWorkaround w) b = Some (enable_workaround w b)"
| "call_setter (RegisterService host inst) b = None"

fun call_service_setter where
  "call_service_setter (AddListeningPort uri creds sel) b = Some (service_add_port uri creds sel b)"
| "call_service_setter (SetMaxReceiveMessageSize n) b = Some (service_set_max_receive_message_size n b)"
| "call_service_setter (SetMaxSendMessageSize n) b = Some (service_set_max_send_message_size n b)"
| "call_service_setter (SetMaxMessageSize n) b = Some (service_set_max_message_size n b)"
| "call_service_setter (SetCompressionAlgorithmSupportStatus alg on) b =
     Some (service_set_compression_algorithm_support_status alg on b)"
| "call_service_setter (SetDefaultCompressionLevel l) b = Some (service_set_default_compression_level l b)"
| "call_service_setter (SetDefaultCompressionAlgorithm alg) b =
     Some (service_set_default_compression_algorithm alg b)"
| "call_service_setter (SetResourceQuota q) b = Some (service_set_resource_quota q b)"
| "call_service_setter (SetOption opt) b = Some (service_set_option opt b)"
| "call_service_setter (EnableWorkaround w) b = Some (service_enable_workaround w b)"
| "call_service_setter (RegisterService host inst) b = None"

text \<open>
  One call of a chain; \<open>None\<close>: it does not compile. \<open>invocable fn s args\<close> is the constraint of
  \<open>add_task\<close>, that \<open>fn\<close> can be called with the service, a queue and the arguments. A setter returns the
  builder, from wherever it was called; only the builder has \<open>set_thread_count\<close>.
\<close>

fun chain_step where
  "chain_step invocable OnBuilder (CallSetThreadCount n) b = Some (set_thread_count n b, OnBuilder)"
| "chain_step invocable (OnService sb) (CallSetThreadCount n) b = None"
| "chain_step invocable OnBuilder (CallAddService inst) b =
     (case builder_add_service inst b of (b, sb) \<Rightarrow> Some (b, OnService sb))"
| "chain_step invocable (OnService _) (CallAddService inst) b =
     (case service_add_service inst b of (b, sb) \<Rightarrow> Some (b, OnService sb))"
| "chain_step invocable OnBuilder (CallAddServiceHost host inst) b =
     (case builder_add_service_host host inst b of (b, sb) \<Rightarrow> Some (b, OnService sb))"
| "chain_step invocable (OnService _) (CallAddServiceHost host inst) b =
     (case service_add_service_host host inst b of (b, sb) \<Rightarrow> Some (b, OnService sb))"
| "chain_step invocable OnBuilder (CallSetter c) b = map_option (\<lambda>b. (b, OnBuilder)) (call_setter c b)"
| "chain_step invocable (OnService _) (CallSetter c) b =
     map_option (\<lambda>b. (b, OnBuilder)) (call_service_setter c b)"
| "chain_step invocable OnBuilder (CallAddTask fn args) b = None"
| "chain_step invocable (OnService sb) (CallAddTask fn args) b =
     (if invocable fn (m_service sb) args
      then case service_add_task sb fn args b of (b, sb) \<Rightarrow> Some (b, OnService sb) else None)"
| "chain_step invocable OnBuilder (CallAddMemberTask fn inst args) b = None"
| "chain_step invocable (OnService sb) (CallAddMemberTask fn inst args) b =
     (case service_add_member_task sb fn inst args b of (b, sb) \<Rightarrow> Some (b, OnService sb))"

fun run_chain where
  "run_chain invocable r [] b = Some (b, r)"
| "run_chain invocable r (c # cs) b =
     (case chain_step invocable r c b of None \<Rightarrow> None | Some (b, r) \<Rightarrow> run_chain invocable r cs b)"

fun_cases run_chain_ConsE: "run_chain invocable r (c # cs) b = Some (b', r')"

section \<open>What a chain does\<close>

text \<open>The direct calls a chain amounts to: each task with the service of the builder it is called on.\<close>

fun next_receiver where
  "next_receiver r (CallSetThreadCount n) = OnBuilder"
| "next_receiver r (CallAddService inst) = OnService (service_builder_of inst)"
| "next_receiver r (CallAddServiceHost host inst) = OnService (service_builder_of inst)"
| "next_receiver r (CallSetter c) = OnBuilder"
| "next_receiver r (CallAddTask fn args) = r"
| "next_receiver r (CallAddMemberTask fn inst args) = r"

fun direct_call where
  "direct_call r (CallSetThreadCount n) = Some (SetThreadCount n)"
| "direct_call r (CallAddService inst) = Some (Forward (RegisterService None inst))"
| "direct_call r (CallAddServiceHost host inst) = Some (Forward (RegisterService (Some host) inst))"
| "direct_call r (CallSetter c) = Some (Forward c)"
| "direct_call (OnService sb) (CallAddTask fn args) = Some (AddTask (CallTask fn (m_service sb) args))"
| "direct_call (OnService sb) (CallAddMemberTask fn inst args) =
     Some (AddTask (CallMember fn (m_service sb) inst args))"
| "direct_call OnBuilder _ = None"

fun direct_calls where
  "direct_calls r [] = []"
| "direct_calls r (c # cs) =
     (case direct_call r c of Some a \<Rightarrow> [a] | None \<Rightarrow> []) @ direct_calls (next_receiver r c) cs"

lemma setter_configures: "call_setter c b = Some b' \<Longrightarrow> b' = configure (Forward c) b"
  by (cases c) auto

lemma service_setter_same: "call_service_setter c b = call_setter c b"
  by (cases c) (simp_all add: service_defs)

lemma chain_step_direct:
  assumes "chain_step invocable r c b = Some (b', r')"
  shows "\<exists>a. direct_call r c = Some a \<and> b' = configure a b \<and> r' = next_receiver r c"
  using assms
  by (cases r; cases c)
     (auto simp: service_setter_same setter_configures service_add_service_def service_add_service_host_def
      builder_add_service_def builder_add_service_host_def service_add_task_def service_add_member_task_def
      split: if_splits)

lemma chain_direct:
  "run_chain invocable r cs b = Some (b', r') \<Longrightarrow> b' = fold configure (direct_calls r cs) b"
proof (induction cs arbitrary: r b)
  case (Cons c cs)
  from Cons.prems obtain b1 r1 where s: "chain_step invocable r c b = Some (b1, r1)"
      and rest: "run_chain invocable r1 cs b1 = Some (b', r')"
    by (elim run_chain_ConsE) (auto split: option.splits)
  from chain_step_direct [OF s] Cons.IH [OF rest] show ?case by auto
qed simp

text \<open>The services registered so far, and the service of a task.\<close>

definition registered_services where
  "registered_services b = {inst. \<exists>host. RegisterService host inst \<in> set (m_builder b)}"

fun service_of where
  "service_of (CallTask fn service args) = service"
| "service_of (CallMember fn service inst args) = service"

fun task_invocable where
  "task_invocable invocable (CallTask fn service args) = invocable fn service args"
| "task_invocable invocable (CallMember fn service inst args) = True"

definition chain_typed where
  "chain_typed invocable b r \<longleftrightarrow>
     (\<forall>t \<in> set (m_cq_initializers b). service_of t \<in> registered_services b \<and> task_invocable invocable t) \<and>
     (case r of OnBuilder \<Rightarrow> True | OnService sb \<Rightarrow> m_service sb \<in> registered_services b)"

lemma registered_services_simps:
  "registered_services (add_service inst b) = insert inst (registered_services b)"
  "registered_services (add_service_host host inst b) = insert inst (registered_services b)"
  "registered_services (set_thread_count n b) = registered_services b"
  "registered_services (add_task fn service args b) = registered_services b"
  "registered_services (add_member_task fn service i args b) = registered_services b"
  by (auto simp: registered_services_def configure_defs)

lemma cq_initializers_simps:
  "m_cq_initializers (add_service inst b) = m_cq_initializers b"
  "m_cq_initializers (add_service_host host inst b) = m_cq_initializers b"
  "m_cq_initializers (set_thread_count n b) = m_cq_initializers b"
  "m_cq_initializers (add_task fn service args b) = m_cq_initializers b @ [CallTask fn service args]"
  "m_cq_initializers (add_member_task fn service i args b) = m_cq_initializers b @ [CallMember fn service i args]"
  by (simp_all add: configure_defs)

lemma setter_keeps_typed:
  "call_setter c b = Some b' \<Longrightarrow> chain_typed invocable b r \<Longrightarrow> chain_typed invocable b' OnBuilder"
  by (cases c) (auto simp: chain_typed_def registered_services_def configure_defs)

lemma chain_step_typed:
  assumes "chain_step invocable r c b = Some (b', r')" and "chain_typed invocable b r"
  shows "chain_typed invocable b' r'"
proof (cases "\<exists>s. c = CallSetter s")
  case True
  then show ?thesis
    using assms setter_keeps_typed [of _ b _ invocable r] by (cases r) (auto simp: service_setter_same)
next
  case False
  then show ?thesis
    using assms
    by (cases r; cases c)
       (auto simp: chain_typed_def registered_services_simps cq_initializers_simps service_builder_of_def
        service_add_service_def service_add_service_host_def builder_add_service_def
        builder_add_service_host_def service_add_task_def service_add_member_task_def split: if_splits)
qed

lemma chain_keeps_typed:
  "run_chain invocable r cs b = Some (b', r') \<Longrightarrow> chain_typed invocable b r \<Longrightarrow> chain_typed invocable b' r'"
proof (induction cs arbitrary: r b)
  case (Cons c cs)
  from Cons.prems(1) obtain b1 r1 where "chain_step invocable r c b = Some (b1, r1)"
      and "run_chain invocable r1 cs b1 = Some (b', r')"
    by (elim run_chain_ConsE) (auto split: option.splits)
  with Cons.IH chain_step_typed Cons.prems(2) show ?case by blast
qed simp

section \<open>Properties\<close>

text \<open>A chain with two services, and a task for each.\<close>

definition ex_chain :: "(nat, nat, nat, nat, nat, string, nat) chain_call list" where
  "ex_chain = [CallSetThreadCount 2, CallAddService 1, CallAddTask ''echo'' [], CallAddServiceHost ''h'' 2,
     CallAddMemberTask ''watch'' 9 [4], CallSetter (SetMaxMessageSize 5)]"

definition ex_configured :: "(nat, nat, nat, nat, nat, string, nat) server_builder" where
  "ex_configured = \<lparr>m_thread_count = 2,
     m_builder = [RegisterService None 1, RegisterService (Some ''h'') 2, SetMaxMessageSize 5],
     m_cq_initializers = [CallTask ''echo'' 1 [], CallMember ''watch'' 2 9 [4]]\<rparr>"

lemma ex_chain_runs: "run_chain (\<lambda>fn s args. True) OnBuilder ex_chain (new_builder 8) = Some (ex_configured, OnBuilder)"
  by (simp add: ex_chain_def ex_configured_def new_builder_def configure_defs builder_add_service_def
      service_add_service_host_def builder_add_service_host_def service_add_task_def
      service_add_member_task_def service_builder_of_def service_set_max_message_size_def)

text \<open>
C26: chained calls are typed soundly: if a chain of calls on a builder and on the service builders it hands
out compiles, every task the server will run serves a service that was registered with the runtime, the
one of the service builder it was added to, and can be called with it; in particular no task is ever
added before a service.
\<close>

theorem tasks_serve_registered_services:
  assumes "run_chain invocable OnBuilder cs (new_builder hw) = Some (b, r)"
  shows "(\<forall>t \<in> set (m_cq_initializers b). service_of t \<in> registered_services b \<and> task_invocable invocable t) \<and>
    (case r of OnBuilder \<Rightarrow> True | OnService sb \<Rightarrow> m_service sb \<in> registered_services b)"
  using chain_keeps_typed [OF assms] by (simp add: chain_typed_def new_builder_def)

theorem tasks_serve_registered_services_witness:
  "service_of (CallMember ''watch'' 2 9 [4]) \<in> registered_services ex_configured"
  using tasks_serve_registered_services [OF ex_chain_runs] by (simp add: ex_configured_def)

text \<open>
Going through service builders makes no difference: whatever chain compiles, it leaves the builder as
the same calls made directly on it do, each task with the service of the service builder it was added to,
and a server built at the end of the chain is the same.
\<close>

theorem chains_are_direct_calls:
  assumes "run_chain invocable OnBuilder cs (new_builder hw) = Some (b, r)"
  shows "b = fold configure (direct_calls OnBuilder cs) (new_builder hw) \<and>
         service_build started b = build started (fold configure (direct_calls OnBuilder cs) (new_builder hw))"
  using chain_direct [OF assms] by (simp add: service_build_def)

theorem chains_are_direct_calls_witness:
  "ex_configured = fold configure (direct_calls OnBuilder ex_chain) (new_builder 8)"
  by (rule chains_are_direct_calls [OF ex_chain_runs, THEN conjunct1])

end
