(* ===== verification/Server_Tasks.thy ===== *)
theory Server_Tasks
  imports Server_Whole Task_Shutdown
begin

text \<open>
  A server with the tasks its initializers start (\<open>src/grpc/server.cpp\<close>, \<open>include/asyncpp/grpc/task.h\<close>):
  the threads of the server as in the theory of the whole server, every task on the completion queue of the
  worker that started it, and the runtime, which matches requests with calls, completes operations and
  holds up \<open>Shutdown\<close> until the calls it has accepted are over.
\<close>

section \<open>Tasks on the queues of a server\<close>

text \<open>
  What an initializer starts: the kind of the method, the hooks, the messages and the frame of the
  coroutine, and how many actions its body takes at most, once the server stops, before it returns or
  throws. An initializer calls one function, which makes one frame on every queue.
\<close>

record ('req, 'resp) task_code =
  tc_type :: rpc_method_type
  tc_hooks :: "('req, 'resp) task_hooks"
  tc_cleared :: 'req
  tc_frame :: coro_handle
  tc_request :: 'req
  tc_response :: 'resp
  tc_budget :: nat

text \<open>\<open>l_matched\<close>: the runtime has accepted a call for the request, whose completion is still in the queue.\<close>

record ('req, 'resp) live_task =
  l_queue :: nat
  l_code :: "('req, 'resp) task_code"
  l_left :: nat
  l_matched :: bool
  l_sys :: "('req, 'resp) sys"

definition begin_task :: "nat \<Rightarrow> ('req, 'resp) task_code \<Rightarrow> ('req, 'resp) live_task" where
  "begin_task i c =
     \<lparr>l_queue = i, l_code = c, l_left = tc_budget c, l_matched = False,
      l_sys = initial_sys (tc_type c) (tc_cleared c) (tc_frame c) (tc_request c) (tc_response c)\<rparr>"

text \<open>
  A completion is delivered, the notification of a call before the completion of its finish operation
  (\<open>done_first\<close>); a request succeeds if it was matched.
\<close>

inductive gets :: "tag \<Rightarrow> ('req, 'resp) live_task \<Rightarrow> ('req, 'resp) live_task \<Rightarrow> bool" where
  "failure (l_sys l) = None \<Longrightarrow> tag \<in># outstanding (l_sys l) \<Longrightarrow> done_first (outstanding (l_sys l)) tag \<Longrightarrow>
     tag = request_tag \<longrightarrow> d_ok d = l_matched l \<Longrightarrow>
     gets tag l (l\<lparr>l_matched := l_matched l \<and> tag \<noteq> request_tag,
       l_sys := deliver (tc_type (l_code l)) (tc_hooks (l_code l)) (tc_cleared (l_code l)) tag d (l_sys l)\<rparr>)"

text \<open>
  What a task does without its queue. \<open>counting\<close>: the actions of the body are counted, and when none is
  left the body returns or throws.
\<close>

fun ends_body :: "('req, 'resp) body_action \<Rightarrow> bool" where
  "ends_body (CoReturn st) = True"
| "ends_body (Throw e) = True"
| "ends_body _ = False"

inductive goes :: "bool \<Rightarrow> ('req, 'resp) live_task \<Rightarrow> ('req, 'resp) live_task \<Rightarrow> bool" for counting where
  authenticated: "failure (l_sys l) = None \<Longrightarrow> auth_pending (tsk (l_sys l)) \<Longrightarrow>
     goes counting l (l\<lparr>l_sys := absorb (deferred_auth (tc_type (l_code l)) result (tsk (l_sys l))) (l_sys l)\<rparr>)"
| body: "failure (l_sys l) = None \<Longrightarrow> coro (tsk (l_sys l)) = Running \<Longrightarrow>
     body_step (tc_type (l_code l)) (tc_hooks (l_code l)) act (tsk (l_sys l)) = Some r \<Longrightarrow>
     \<not> counting \<or> 0 < l_left l \<or> ends_body act \<Longrightarrow>
     goes counting l (l\<lparr>l_left := (if counting then l_left l - 1 else l_left l), l_sys := absorb r (l_sys l)\<rparr>)"
| other_resumed: "failure (l_sys l) = None \<Longrightarrow> coro (tsk (l_sys l)) = SuspendedOther \<Longrightarrow>
     goes counting l (l\<lparr>l_sys := (l_sys l)\<lparr>tsk := (tsk (l_sys l))\<lparr>coro := Running\<rparr>\<rparr>\<rparr>)"

abbreviation code_step :: "('req, 'resp) task_code \<Rightarrow> ('req, 'resp) sys \<Rightarrow> ('req, 'resp) sys \<Rightarrow> bool" where
  "code_step c \<equiv> task_step (tc_type c) (tc_hooks c) (tc_cleared c) done_first"

section \<open>The server and its tasks\<close>

text \<open>
  \<open>y_down\<close>: the call of \<open>Shutdown\<close> on the runtime's server has returned. \<open>y_late\<close>: an operation was issued on
  a queue that was shut down, which the runtime does not allow and answers by ending the program.
\<close>

record ('req, 'resp, 'fn, 'q) tasked =
  y_whole :: "(('req, 'resp) task_code, 'fn, 'q) whole_server"
  y_tasks :: "('req, 'resp) live_task list"
  y_down :: bool
  y_late :: bool

definition tasked_init :: "nat \<Rightarrow> ('req, 'resp) task_code list \<Rightarrow> 'q \<Rightarrow> ('req, 'resp, 'fn, 'q) tasked" where
  "tasked_init n codes empty_q =
     \<lparr>y_whole = whole_init n codes empty_q True, y_tasks = [], y_down = False, y_late = False\<rparr>"

abbreviation threads_of :: "('req, 'resp, 'fn, 'q) tasked \<Rightarrow> worker list" where
  "threads_of s \<equiv> w_threads (h_start (y_whole s))"

abbreviation life_of :: "('req, 'resp, 'fn, 'q) tasked \<Rightarrow> ('fn, 'q) server_life" where
  "life_of s \<equiv> h_life (y_whole s)"

definition queue_idle :: "('req, 'resp) live_task list \<Rightarrow> nat \<Rightarrow> bool" where
  "queue_idle ts i \<longleftrightarrow> list_all (\<lambda>l. l_queue l = i \<longrightarrow> outstanding (l_sys l) = {#}) ts"

text \<open>
  \<open>Shutdown\<close> returns when the calls that were accepted are over for the runtime: the finish operation was
  issued, though its completion may not have been delivered. \<open>drained\<close> is the stronger promise that for a
  rejected call it has been.
\<close>

fun call_over :: "bool \<Rightarrow> phase \<Rightarrow> bool" where
  "call_over drained Requesting = True"
| "call_over drained Finishing = True"
| "call_over drained Gone = True"
| "call_over drained Rejecting = (\<not> drained)"
| "call_over drained _ = False"

definition task_over :: "bool \<Rightarrow> ('req, 'resp) live_task \<Rightarrow> bool" where
  "task_over drained l \<longleftrightarrow> call_over drained (phase_of (l_sys l)) \<and> \<not> l_matched l"

definition runs_initializer :: "nat \<Rightarrow> nat \<Rightarrow> nat \<Rightarrow> ('req, 'resp, 'fn, 'q) tasked \<Rightarrow> ('req, 'resp, 'fn, 'q) tasked" where
  "runs_initializer i k n s =
     s\<lparr>y_whole := whole_initialises i k n (y_whole s),
       y_tasks := y_tasks s @ map (begin_task i) (take 1 (drop k (w_initializers (h_start (y_whole s))))),
       y_late := i < v_shut (life_of s)\<rparr>"

text \<open>A task has issued an operation.\<close>

definition asks :: "('req, 'resp) live_task \<Rightarrow> ('req, 'resp) live_task \<Rightarrow> bool" where
  "asks l l' \<longleftrightarrow> outstanding (l_sys l') - outstanding (l_sys l) \<noteq> {#}"

text \<open>
  The queue of a worker has an event for it as long as a task on it waits for a completion; its \<open>Next\<close>
  returns false only after that. The loop of \<open>stop\<close> over the queues follows the call of \<open>Shutdown\<close>. A body
  may have left the worker that resumed it, so its actions are not tied to the loop.
\<close>

definition serves_ok :: "('req, 'resp, 'fn, 'q) tasked \<Rightarrow> (('req, 'resp) task_code, 'fn, 'q) whole_server \<Rightarrow> bool" where
  "serves_ok s w \<longleftrightarrow> w_ran (h_start w) = w_ran (h_start (y_whole s)) \<and>
     (v_shut (h_life w) = v_shut (life_of s) \<or> y_down s) \<and>
     (\<forall>i < length (threads_of s). w_threads (h_start w) ! i = Exited \<longrightarrow>
        threads_of s ! i = Exited \<or> queue_idle (y_tasks s) i)"

inductive tasked_step ::
  "bool \<Rightarrow> ('fn option \<Rightarrow> 'q \<Rightarrow> 'q) \<Rightarrow> ('q \<Rightarrow> ('fn option \<times> 'q) option) \<Rightarrow>
     ('req, 'resp, 'fn, 'q) tasked \<Rightarrow> ('req, 'resp, 'fn, 'q) tasked \<Rightarrow> bool"
  for drained emplace pop where
  serves: "\<not> y_late s \<Longrightarrow> whole_step emplace pop (y_whole s) w \<Longrightarrow> serves_ok s w \<Longrightarrow>
     tasked_step drained emplace pop s (s\<lparr>y_whole := w\<rparr>)"
| spawns: "\<not> y_late s \<Longrightarrow> i < length (threads_of s) \<Longrightarrow> threads_of s ! i = Initialising k n \<Longrightarrow> k < n \<Longrightarrow>
     tasked_step drained emplace pop s (runs_initializer i k n s)"
| matches: "\<not> y_late s \<Longrightarrow> \<not> v_stopping (life_of s) \<Longrightarrow> j < length (y_tasks s) \<Longrightarrow>
     phase_of (l_sys (y_tasks s ! j)) = Requesting \<Longrightarrow>
     tasked_step drained emplace pop s (s\<lparr>y_tasks := (y_tasks s)[j := (y_tasks s ! j)\<lparr>l_matched := True\<rparr>]\<rparr>)"
| downs: "\<not> y_late s \<Longrightarrow> v_stopping (life_of s) \<Longrightarrow> \<not> y_down s \<Longrightarrow> list_all (task_over drained) (y_tasks s) \<Longrightarrow>
     tasked_step drained emplace pop s (s\<lparr>y_down := True\<rparr>)"
| completes: "\<not> y_late s \<Longrightarrow> j < length (y_tasks s) \<Longrightarrow> l_queue (y_tasks s ! j) = i \<Longrightarrow> threads_of s ! i = Looping \<Longrightarrow>
     v_workers (life_of s) ! i = AtNext \<Longrightarrow> gets tag (y_tasks s ! j) l \<Longrightarrow>
     tasked_step drained emplace pop s
       (s\<lparr>y_tasks := (y_tasks s)[j := l], y_late := asks (y_tasks s ! j) l \<and> i < v_shut (life_of s)\<rparr>)"
| proceeds: "\<not> y_late s \<Longrightarrow> j < length (y_tasks s) \<Longrightarrow> goes (v_stopping (life_of s)) (y_tasks s ! j) l \<Longrightarrow>
     tasked_step drained emplace pop s
       (s\<lparr>y_tasks := (y_tasks s)[j := l],
          y_late := asks (y_tasks s ! j) l \<and> l_queue (y_tasks s ! j) < v_shut (life_of s)\<rparr>)"

abbreviation "tasked_reaches drained n codes empty_q emplace pop s \<equiv>
  (tasked_step drained emplace pop)\<^sup>*\<^sup>* (tasked_init n codes empty_q) s"

section \<open>One task\<close>

lemma gets_step: "gets tag l l' \<Longrightarrow> code_step (l_code l) (l_sys l) (l_sys l')"
  by (erule gets.cases) (auto intro: task_step.completion)

lemma goes_step: "goes counting l l' \<Longrightarrow> code_step (l_code l) (l_sys l) (l_sys l')"
  by (erule goes.cases) (auto intro: task_step.intros)

lemma gets_keeps: "gets tag l l' \<Longrightarrow> l_queue l' = l_queue l \<and> l_code l' = l_code l \<and> l_left l' = l_left l \<and>
    l_matched l' = (l_matched l \<and> tag \<noteq> request_tag)"
  by (erule gets.cases) simp

lemma goes_keeps: "goes counting l l' \<Longrightarrow> l_queue l' = l_queue l \<and> l_code l' = l_code l \<and> l_matched l' = l_matched l"
  by (erule goes.cases) simp_all

text \<open>The invariant of a task in its phase; only a request is matched.\<close>

definition live_ok :: "('req, 'resp) live_task \<Rightarrow> bool" where
  "live_ok l \<longleftrightarrow> alive_inv (phase_of (l_sys l)) (l_sys l) \<and> settled (phase_of (l_sys l)) (l_sys l) \<and>
     well_behaved (tc_hooks (l_code l)) \<and> (l_matched l \<longrightarrow> phase_of (l_sys l) = Requesting)"

lemma live_step:
  assumes "code_step (l_code l) (l_sys l) t" and "live_ok l"
  shows "alive_inv (phase_of t) t \<and> settled (phase_of t) t"
proof -
  obtain ph' where "alive_inv ph' t" "settled ph' t"
    using step_settled [OF assms(1)] assms(2) unfolding live_ok_def by blast
  with alive_phase [OF this(1)] show ?thesis by simp
qed

lemma live_phase:
  assumes "live_ok l" and "phase_of (l_sys l) = ph"
  shows "failure (l_sys l) = None" and "coro (tsk (l_sys l)) = coro_of ph"
    and "auth_pending (tsk (l_sys l)) = (ph = Authenticating)"
  using assms by (auto simp: live_ok_def alive_inv_def life_at_def)

lemma initial_settled: "settled Requesting (initial_sys T cleared h req resp)"
  by (auto simp: settled_def initial_sys_def initial_await_suspend_def start_grpc_call_def absorb_def Let_def tag_defs)

lemma begin_live: "well_behaved (tc_hooks c) \<Longrightarrow> live_ok (begin_task i c) \<and> phase_of (l_sys (begin_task i c)) = Requesting"
  using alive_initial [of "tc_type c" "tc_cleared c" "tc_frame c" "tc_request c" "tc_response c"]
    alive_phase [OF alive_initial [of "tc_type c" "tc_cleared c" "tc_frame c" "tc_request c" "tc_response c"]]
  by (simp add: live_ok_def begin_task_def initial_settled)

text \<open>What a completion does to the phase, and that the invariant is kept.\<close>

lemma gets_phase:
  assumes "gets tag l l'" and "live_ok l"
  shows "live_ok l' \<and> (if tag = done_tag then phase_of (l_sys l') = phase_of (l_sys l)
      else awaited (phase_of (l_sys l)) = {#tag#} \<and> phase_step (phase_of (l_sys l)) (phase_of (l_sys l'))) \<and>
    (tag = request_tag \<longrightarrow> (phase_of (l_sys l') = Gone) = (\<not> l_matched l))"
  using assms(1)
proof cases
  case (1 d)
  let ?ph = "phase_of (l_sys l)" and ?ph' = "phase_of (l_sys l')"
  have inv: "alive_inv ?ph (l_sys l)" "settled ?ph (l_sys l)" and m: "l_matched l \<longrightarrow> ?ph = Requesting"
    using assms(2) by (simp_all add: live_ok_def)
  have alive: "?ph \<noteq> Gone"
    using step_gone [OF gets_step [OF assms(1)]] inv by (auto simp: settled_def)
  have new: "alive_inv ?ph' (l_sys l')" "settled ?ph' (l_sys l')"
    using live_step [OF gets_step [OF assms(1)] assms(2)] by simp_all
  obtain ph'' where ph'': "if tag = done_tag then ph'' = ?ph else phase_step ?ph ph''"
      "tag = request_tag \<longrightarrow> (ph'' = Gone \<longleftrightarrow> \<not> d_ok d)" "alive_inv ph'' (l_sys l')"
    using completion_life [OF inv(1) 1(3) alive, where d = d and T = "tc_type (l_code l)"
        and hooks = "tc_hooks (l_code l)" and cleared = "tc_cleared (l_code l)"] 1(1) by auto
  have eq: "ph'' = ?ph'" using alive_phase [OF ph''(3)] by simp
  have aw: "tag = done_tag \<or> awaited ?ph = {#tag#}"
    using outstanding_cases [of ?ph "l_sys l" tag] inv(1) 1(3) by (simp add: alive_inv_def)
  have "l_matched l \<and> tag \<noteq> request_tag \<longrightarrow> False"
    using m aw inv(2) 1(3) by (auto simp: settled_def)
  then have "\<not> l_matched l'" using gets_keeps [OF assms(1)] by blast
  then have "live_ok l'" using new gets_keeps [OF assms(1)] assms(2) by (auto simp: live_ok_def)
  with ph''(1,2) eq aw 1(5) show ?thesis by (auto split: if_splits)
qed

lemma goes_phase:
  assumes "goes counting l l'" and "live_ok l"
  shows "live_ok l' \<and> phase_of (l_sys l) \<in> {Authenticating, InBody, InOther}"
proof -
  have "phase_of (l_sys l) \<in> {Authenticating, InBody, InOther}"
    using assms(1)
    by cases (use live_phase [OF assms(2) refl] in \<open>cases "phase_of (l_sys l)"; simp\<close>)+
  then show ?thesis
    using live_step [OF goes_step [OF assms(1)] assms(2)] goes_keeps [OF assms(1)] assms(2)
    by (auto simp: live_ok_def)
qed

text \<open>How much a task still does once the server stops; a call that was matched is still handled.\<close>

definition live_left :: "('req, 'resp) live_task \<Rightarrow> nat" where
  "live_left l = shut_left (phase_of (l_sys l)) (l_left l) (l_sys l) + (if l_matched l then 6 else 0)"

lemma shut_step_live:
  assumes "shut_step (tc_type (l_code l)) (tc_hooks (l_code l)) (tc_cleared (l_code l))
      (l_left l, l_sys l) (l_left l', l_sys l')" and "live_ok l"
  shows "shut_left (phase_of (l_sys l')) (l_left l') (l_sys l') < shut_left (phase_of (l_sys l)) (l_left l) (l_sys l)"
proof -
  obtain ph' where "alive_inv ph' (l_sys l')"
      "shut_left ph' (l_left l') (l_sys l') < shut_left (phase_of (l_sys l)) (l_left l) (l_sys l)"
    using shut_step_works [OF assms(1)] assms(2) unfolding live_ok_def by blast
  with alive_phase [OF this(1)] show ?thesis by simp
qed

text \<open>A body that returns or throws goes to its finish operation.\<close>

lemma ended_body:
  assumes "alive_inv InBody s" and "well_behaved hooks" and "ends_body act" and "body_step T hooks act (tsk s) = Some r"
  shows "alive_inv Finishing (absorb r s)"
proof -
  have l: "life_at InBody s" "counts_at InBody s" using assms(1) by (simp_all add: alive_inv_def)
  show ?thesis
  proof (cases act)
    case (CoReturn st)
    then show ?thesis using assms(4) finish_life [OF l] by (auto simp: return_value_def alive_inv_def)
  next
    case (Throw e)
    obtain st where "on_unhandled_exception hooks e = Inr st" using assms(2) by (auto simp: well_behaved_def)
    with Throw show ?thesis using assms(4) finish_life [OF l] by (auto simp: unhandled_exception_def alive_inv_def)
  qed (use assms(3) in simp_all)
qed

lemma ended_body_works:
  assumes "live_ok l" and "coro (tsk (l_sys l)) = Running" and "ends_body act"
    and r: "body_step (tc_type (l_code l)) (tc_hooks (l_code l)) act (tsk (l_sys l)) = Some r"
  shows "shut_left (phase_of (absorb r (l_sys l))) k (absorb r (l_sys l)) < shut_left (phase_of (l_sys l)) k (l_sys l)"
proof -
  have ph: "phase_of (l_sys l) = InBody" using live_phase(2) [OF assms(1) refl] assms(2) by (cases "phase_of (l_sys l)") simp_all
  have "alive_inv InBody (l_sys l)" "well_behaved (tc_hooks (l_code l))" using assms(1) ph by (simp_all add: live_ok_def)
  from alive_phase [OF ended_body [OF this assms(3) r]] show ?thesis
    by (simp add: ph shut_left_def notifications_absorb [OF no_done_body [OF r]])
qed

lemma goes_works:
  assumes "goes True l l'" and "live_ok l"
  shows "live_left l' < live_left l"
proof (cases "l_left l = 0 \<and> coro (tsk (l_sys l)) = Running")
  case True
  from assms(1) show ?thesis
  proof cases
    case (body act r)
    then show ?thesis using ended_body_works [OF assms(2) body(3) _ body(4), of 0] True by (simp add: live_left_def)
  qed (use True live_phase [OF assms(2) refl] in \<open>auto split: if_splits\<close>)
next
  case False
  have "shut_step (tc_type (l_code l)) (tc_hooks (l_code l)) (tc_cleared (l_code l)) (l_left l, l_sys l) (l_left l', l_sys l')"
    using assms(1)
  proof cases
    case (body act r)
    then obtain k where k: "l_left l = Suc k" using False by (cases "l_left l") auto
    have "shut_step (tc_type (l_code l)) (tc_hooks (l_code l)) (tc_cleared (l_code l)) (Suc k, l_sys l) (k, absorb r (l_sys l))"
      by (rule shut_step.shut_body [OF body(2,3,4)])
    then show ?thesis using body(1) k by simp
  qed (auto intro: shut_step.intros)
  from shut_step_live [OF this assms(2)] goes_keeps [OF assms(1)] show ?thesis by (simp add: live_left_def)
qed

lemma request_matched_works:
  assumes "gets request_tag l l'" and "live_ok l" and "l_matched l"
  shows "live_left l' < live_left l"
  using assms(1)
proof cases
  case (1 d)
  have ph: "phase_of (l_sys l) = Requesting" "\<not> l_matched l'"
    using assms(2,3) gets_keeps [OF assms(1)] by (simp_all add: live_ok_def)
  have l: "life_at Requesting (l_sys l)" and none: "done_tag \<notin># outstanding (l_sys l)"
    using assms(2) ph by (simp_all add: live_ok_def alive_inv_def settled_def)
  have "notifications (l_sys l') = size (filter_mset (\<lambda>t. t = done_tag) (outstanding (l_sys l) - {#request_tag#} + {#done_tag#}))"
    using 1 l assms(3) unfolding deliver_def
    by (simp add: notifications_absorb [OF no_done_handle_event] life_at_def) (simp add: notifications_def)
  also have "\<dots> = 1" using none by (auto simp: filter_mset_eq_mempty_iff dest: in_diffD)
  finally have "notifications (l_sys l') = 1" .
  moreover have "shut_stage (phase_of (l_sys l')) \<le> 5" by (cases "phase_of (l_sys l')") simp_all
  ultimately show ?thesis
    using ph assms(3) gets_keeps [OF assms(1)] by (simp add: live_left_def shut_left_def)
qed

lemma gets_works:
  assumes "gets tag l l'" and "live_ok l"
  shows "live_left l' < live_left l"
proof (cases "tag = request_tag \<and> l_matched l")
  case True
  with request_matched_works assms show ?thesis by blast
next
  case False
  have "shut_step (tc_type (l_code l)) (tc_hooks (l_code l)) (tc_cleared (l_code l)) (l_left l, l_sys l) (l_left l', l_sys l')"
    using assms(1) by cases (use False in \<open>auto intro: shut_step.shut_completion\<close>)
  from shut_step_live [OF this assms(2)] gets_keeps [OF assms(1)] show ?thesis
    using False by (auto simp: live_left_def)
qed

text \<open>A task whose call is over stays so, until its frame is gone.\<close>

lemma gets_over:
  assumes "gets tag l l'" and "live_ok l" and "task_over False l"
  shows "task_over False l'" and "l_queue l' = l_queue l" and "phase_of (l_sys l) \<noteq> Gone"
proof -
  have u: "\<not> l_matched l'" using gets_keeps [OF assms(1)] assms(3) by (simp add: task_over_def)
  show "task_over False l'"
    using gets_phase [OF assms(1,2)] assms(3) u
    by (cases "phase_of (l_sys l)") (auto simp: task_over_def split: if_splits)
  show "l_queue l' = l_queue l" using gets_keeps [OF assms(1)] by simp
  show "phase_of (l_sys l) \<noteq> Gone"
    using step_gone [OF gets_step [OF assms(1)]] assms(2) by (auto simp: live_ok_def settled_def)
qed

lemma goes_not_over: "goes counting l l' \<Longrightarrow> live_ok l \<Longrightarrow> \<not> task_over drained l"
  using goes_phase [of counting l l'] by (auto simp: task_over_def)

lemma over_weaker: "task_over drained l \<Longrightarrow> task_over False l"
  by (cases "phase_of (l_sys l)") (auto simp: task_over_def)

lemma idle_over_gone:
  assumes "live_ok l" and "task_over False l" and "outstanding (l_sys l) = {#}"
  shows "phase_of (l_sys l) = Gone"
proof (rule ccontr)
  assume "phase_of (l_sys l) \<noteq> Gone"
  then obtain tag where "awaited (phase_of (l_sys l)) = {#tag#}"
    using assms(2) by (cases "phase_of (l_sys l)") (auto simp: task_over_def)
  from awaited_outstanding [OF _ this, of "l_sys l"] assms(1) have "tag \<in># outstanding (l_sys l)"
    by (simp add: live_ok_def)
  with assms(3) show False by simp
qed

lemma gone_idle:
  assumes "live_ok l" and "phase_of (l_sys l) = Gone"
  shows "outstanding (l_sys l) = {#}"
proof (rule ccontr)
  have inv: "life_at Gone (l_sys l)" "done_tag \<notin># outstanding (l_sys l)"
    using assms by (simp_all add: live_ok_def alive_inv_def settled_def)
  assume "outstanding (l_sys l) \<noteq> {#}"
  then obtain t where t: "t \<in># outstanding (l_sys l)" by (meson multiset_nonemptyE)
  then have "t = done_tag" using outstanding_cases [OF inv(1) t] by simp
  with t inv(2) show False by simp
qed

text \<open>A task that waits for a completion can get one.\<close>

lemma gets_something:
  assumes "live_ok l" and "tag \<in># outstanding (l_sys l)"
  shows "\<exists>tag' l'. gets tag' l l'"
proof -
  have f: "failure (l_sys l) = None" using assms(1) by (simp add: live_ok_def alive_inv_def life_at_def)
  let ?d = "\<lparr>d_ok = l_matched l, d_cancelled = False, d_message = tc_cleared (l_code l)\<rparr>"
  let ?t = "if done_tag \<in># outstanding (l_sys l) then done_tag else tag"
  have t: "?t \<in># outstanding (l_sys l)" "done_first (outstanding (l_sys l)) ?t"
    using assms(2) by (simp_all add: done_first_def)
  show ?thesis by (intro exI, rule gets.intros [OF f t, of ?d]) simp
qed

section \<open>The invariant\<close>

text \<open>
  A task runs on the queue of the worker whose initializer started it. Queues are shut down after
  \<open>Shutdown\<close> returned, when every call is over, and a worker that has left its loop leaves no event.
\<close>

definition tasked_inv :: "('req, 'resp) task_code list \<Rightarrow> ('req, 'resp, 'fn, 'q) tasked \<Rightarrow> bool" where
  "tasked_inv codes s \<longleftrightarrow> whole_inv codes (y_whole s) \<and> list_all live_ok (y_tasks s) \<and>
     map (\<lambda>l. (l_queue l, l_code l)) (y_tasks s) = w_ran (h_start (y_whole s)) \<and>
     list_all (\<lambda>l. l_queue l < length (threads_of s)) (y_tasks s) \<and>
     (0 < v_shut (life_of s) \<longrightarrow> y_down s) \<and>
     (y_down s \<longrightarrow> v_stopping (life_of s) \<and> list_all (task_over False) (y_tasks s)) \<and>
     (\<forall>i < length (threads_of s). threads_of s ! i = Exited \<longrightarrow> queue_idle (y_tasks s) i)"

lemma exited_shut:
  assumes "whole_inv codes w" and "i < length (w_threads (h_start w))" and "w_threads (h_start w) ! i = Exited"
  shows "i < v_shut (h_life w)"
proof -
  have "coupled (w_threads (h_start w) ! i) (v_workers (h_life w) ! i)"
      "length (v_workers (h_life w)) = length (w_threads (h_start w))" "stop_places (h_life w)"
    using assms(1,2) by (simp_all add: whole_inv_def together_def)
  then show ?thesis using assms(2,3) left_worker [of "h_life w" i] by (simp add: coupled_def)
qed

lemma whole_step_keeps:
  assumes "whole_step emplace pop w w'" and "whole_inv codes w"
  shows "length (w_threads (h_start w')) = length (w_threads (h_start w))"
    and "v_stopping (h_life w) \<Longrightarrow> v_stopping (h_life w')"
proof -
  have f: "w_failure (h_start w) = None" and n: "length (v_workers (h_life w)) = length (w_threads (h_start w))"
    using assms(2) by (simp_all add: whole_inv_def workers_inv_def together_def)
  show "length (w_threads (h_start w')) = length (w_threads (h_start w))"
    using assms(1) f n by (cases rule: whole_parts) (simp_all add: worker_count)
  show "v_stopping (h_life w')" if st: "v_stopping (h_life w)"
    using assms(1) f n
  proof (cases rule: whole_parts)
    case life
    then show ?thesis using stopping_step_cases [OF life(2) st] by blast
  qed (use st in simp_all)
qed

text \<open>A worker that has an initializer to run still has the list.\<close>

lemma initializer_to_run:
  assumes "whole_inv codes w" and "i < length (w_threads (h_start w))"
    and "w_threads (h_start w) ! i = Initialising k n" and "k < n"
  shows "n = length codes" and "w_initializers (h_start w) = codes"
    and "w_threads (h_start (whole_initialises i k n w)) = (w_threads (h_start w))[i := Initialising (Suc k) n]"
    and "w_ran (h_start (whole_initialises i k n w)) = w_ran (h_start w) @ [(i, codes ! k)]"
    and "h_life (whole_initialises i k n w) = h_life w"
    and "take 1 (drop k (w_initializers (h_start w))) = [codes ! k]"
proof -
  have inv: "workers_inv codes (h_start w)" using assms(1) by (simp add: whole_inv_def)
  show n: "n = length codes"
    using workers_inv_ok [OF inv assms(2,3)] by (simp add: worker_ok_def)
  show l: "w_initializers (h_start w) = codes" using not_online(1) [OF inv assms(2)] assms(3) by simp
  show "w_threads (h_start (whole_initialises i k n w)) = (w_threads (h_start w))[i := Initialising (Suc k) n]"
      "w_ran (h_start (whole_initialises i k n w)) = w_ran (h_start w) @ [(i, codes ! k)]"
      "h_life (whole_initialises i k n w) = h_life w"
    using l n assms(4) by (simp_all add: whole_initialises_def on_start_def worker_initialise_def array_at_def)
  show "take 1 (drop k (w_initializers (h_start w))) = [codes ! k]"
    using l n assms(4) by (simp add: take_Suc_conv_app_nth)
qed

lemma tasked_inv_init: "tasked_inv codes (tasked_init n codes empty_q)"
  using whole_inv_init [of codes n empty_q True]
  by (simp add: tasked_inv_def tasked_init_def) (simp add: whole_init_def workers_init_def server_life_init_def)

lemma list_all_update: "list_all P xs \<Longrightarrow> P x \<Longrightarrow> list_all P (xs[j := x])"
  by (induction xs arbitrary: j) (auto split: nat.split)

lemma queue_idle_update: "queue_idle ts i \<Longrightarrow> l_queue l \<noteq> i \<Longrightarrow> queue_idle (ts[j := l]) i"
  by (simp add: queue_idle_def list_all_update)

lemma nth_list_all: "list_all P xs \<Longrightarrow> j < length xs \<Longrightarrow> P (xs ! j)"
  by (simp add: list_all_length)

lemma codes_update:
  "j < length ts \<Longrightarrow> l_queue l = l_queue (ts ! j) \<Longrightarrow> l_code l = l_code (ts ! j) \<Longrightarrow>
     map (\<lambda>l. (l_queue l, l_code l)) (ts[j := l]) = map (\<lambda>l. (l_queue l, l_code l)) ts"
  by (simp add: map_update list_update_same_conv)

lemma tasked_inv_step:
  assumes "tasked_step drained emplace pop s t" and "tasked_inv codes s"
    and wb: "list_all (\<lambda>c. well_behaved (tc_hooks c)) codes"
  shows "tasked_inv codes t"
proof -
  have w: "whole_inv codes (y_whole s)" and live: "list_all live_ok (y_tasks s)"
    and ran: "map (\<lambda>l. (l_queue l, l_code l)) (y_tasks s) = w_ran (h_start (y_whole s))"
    and qs: "list_all (\<lambda>l. l_queue l < length (threads_of s)) (y_tasks s)"
    and shut: "0 < v_shut (life_of s) \<longrightarrow> y_down s"
    and down: "y_down s \<longrightarrow> v_stopping (life_of s) \<and> list_all (task_over False) (y_tasks s)"
    and idle: "\<And>i. i < length (threads_of s) \<Longrightarrow> threads_of s ! i = Exited \<Longrightarrow> queue_idle (y_tasks s) i"
    using assms(2) by (simp_all add: tasked_inv_def)
  have running: "threads_of s ! i \<noteq> Exited" if "\<not> y_down s" "i < length (threads_of s)" for i
    using exited_shut [OF w that(2)] shut that(1) by fastforce
  show ?thesis
    using assms(1)
  proof cases
    case (serves w')
    have "whole_inv codes w'" by (rule whole_inv_step [OF serves(3) w])
    moreover have "y_down s \<longrightarrow> v_stopping (h_life w')"
      using whole_step_keeps(2) [OF serves(3) w] down by blast
    moreover have "0 < v_shut (h_life w') \<longrightarrow> y_down s" using serves(4) shut by (auto simp: serves_ok_def)
    moreover have "queue_idle (y_tasks s) i" if "i < length (threads_of s)" "w_threads (h_start w') ! i = Exited" for i
      using serves(4) that idle by (auto simp: serves_ok_def)
    ultimately show ?thesis
      using serves(1,4) live ran qs down whole_step_keeps(1) [OF serves(3) w]
      by (simp add: tasked_inv_def serves_ok_def)
  next
    case (spawns i k n)
    note run = initializer_to_run [OF w spawns(3,4,5)]
    have hooks: "well_behaved (tc_hooks (codes ! k))" using wb run(1) spawns(5) by (simp add: list_all_length)
    have over: "task_over False (begin_task i (codes ! k))"
      using begin_live [OF hooks, of i] by (simp add: task_over_def) (simp add: begin_task_def)
    have tasks: "y_tasks t = y_tasks s @ [begin_task i (codes ! k)]"
      unfolding spawns(1) runs_initializer_def run(6) by simp
    have "whole_inv codes (y_whole t)"
      using whole_inv_step [OF whole_step.initialises [OF spawns(3,4,5)] w] spawns(1) by (simp add: runs_initializer_def)
    moreover have "queue_idle (y_tasks t) j"
      if "j < length (threads_of s)" "((threads_of s)[i := Initialising (Suc k) n]) ! j = Exited" for j
    proof -
      have "j \<noteq> i" using that spawns(3) by auto
      then show ?thesis using idle [of j] that tasks by (simp add: queue_idle_def begin_task_def)
    qed
    ultimately show ?thesis
      using begin_live [OF hooks, of i] tasks live ran qs over shut down run(3,4,5) spawns(1,3)
      by (auto simp: tasked_inv_def runs_initializer_def) (simp_all add: begin_task_def)
  next
    case (matches j)
    then have nd: "\<not> y_down s" using down by blast
    have "live_ok ((y_tasks s ! j)\<lparr>l_matched := True\<rparr>)"
      using nth_list_all [OF live matches(4)] matches(5) by (simp add: live_ok_def)
    then show ?thesis
      using matches w live ran qs shut nd running [OF nd] nth_list_all [OF qs matches(4)]
      by (auto simp: tasked_inv_def codes_update list_all_update)
  next
    case downs
    then show ?thesis using assms(2) by (auto simp: tasked_inv_def list_all_iff intro: over_weaker)
  next
    case (completes j i tag l)
    note ok = nth_list_all [OF live completes(3)]
    have keeps: "l_queue l = i" "l_code l = l_code (y_tasks s ! j)" using gets_keeps [OF completes(7)] completes(4) by simp_all
    have "task_over False l" if "y_down s"
      using gets_over(1) [OF completes(7) ok] nth_list_all [OF _ completes(3)] down that by blast
    moreover have "queue_idle ((y_tasks s)[j := l]) m" if "m < length (threads_of s)" "threads_of s ! m = Exited" for m
      using queue_idle_update [OF idle [OF that]] keeps(1) completes(5) that(2) by (cases "m = i") auto
    ultimately show ?thesis
      using completes(1,3,4) w live ran qs shut down keeps gets_phase [OF completes(7) ok] nth_list_all [OF qs completes(3)]
      by (auto simp: tasked_inv_def codes_update list_all_update)
  next
    case (proceeds j l)
    note ok = nth_list_all [OF live proceeds(3)]
    have nd: "\<not> y_down s"
      using goes_not_over [OF proceeds(4) ok] nth_list_all [OF _ proceeds(3)] down by blast
    show ?thesis
      using proceeds(1,3) w live ran qs shut nd running [OF nd] goes_keeps [OF proceeds(4)] goes_phase [OF proceeds(4) ok]
        nth_list_all [OF qs proceeds(3)]
      by (auto simp: tasked_inv_def codes_update list_all_update)
  qed
qed

lemma tasked_reaches_inv:
  assumes "tasked_reaches drained n codes empty_q emplace pop s" and "list_all (\<lambda>c. well_behaved (tc_hooks c)) codes"
  shows "tasked_inv codes s"
  using assms(1) by (rule rtranclp_invariant) (use assms(2) in \<open>auto intro: tasked_inv_init tasked_inv_step\<close>)

end
