(* ===== verification/Server_Tasks_End.thy ===== *)
theory Server_Tasks_End
  imports Server_Tasks
begin

text \<open>
  What becomes of a server with its tasks (\<open>src/grpc/server.cpp\<close>, \<open>include/asyncpp/grpc/task.h\<close>): a measure
  that every step lowers once \<open>stop\<close> has begun, the step that is always possible until \<open>stop\<close> has returned,
  the parts as they are alone, and the requests that come too late.
\<close>

section \<open>The measure\<close>

text \<open>An initializer that still runs brings a task, so its step weighs more than all the task can do.\<close>

definition spawn_weight :: "('req, 'resp) task_code list \<Rightarrow> nat" where
  "spawn_weight codes = 2 * sum_list (map tc_budget codes) + 2"

definition tasked_left ::
  "('req, 'resp) task_code list \<Rightarrow> 'f dispatch \<Rightarrow> ('req, 'resp, 'fn, 'q) tasked \<Rightarrow> nat" where
  "tasked_left codes a s = stop_left a (life_of s) + spawn_weight codes * start_work codes (h_start (y_whole s)) +
     sum_list (map live_left (y_tasks s)) + (if y_down s then 0 else 1)"

lemma begin_live_left:
  assumes "c \<in> set codes" and "well_behaved (tc_hooks c)"
  shows "live_left (begin_task i c) < spawn_weight codes"
proof -
  have "tc_budget c \<le> sum_list (map tc_budget codes)" using assms(1) by (simp add: member_le_sum_list)
  moreover have "notifications (l_sys (begin_task i c)) = 0"
    using initial_settled [of "tc_type c" "tc_cleared c" "tc_frame c" "tc_request c" "tc_response c"]
    by (auto simp: settled_def begin_task_def notifications_def filter_mset_eq_mempty_iff)
  ultimately show ?thesis
    using begin_live [OF assms(2), of i] by (simp add: live_left_def shut_left_def spawn_weight_def) (simp add: begin_task_def)
qed

lemma weight_works: "(x :: nat) < y \<Longrightarrow> spawn_weight codes * x + spawn_weight codes \<le> spawn_weight codes * y"
  by (metis Suc_leI add.commute mult_Suc_right mult_le_mono2)

lemma spawn_weight_pos: "0 < spawn_weight codes"
  by (simp add: spawn_weight_def)

context function_queue
begin

lemma tasked_step_works:
  assumes "tasked_step drained emplace pop s t" and "tasked_inv codes s" and st: "v_stopping (life_of s)"
    and rel: "server_rel (length (v_workers (life_of s))) contents (v_dispatch (life_of s)) a"
    and wb: "list_all (\<lambda>c. well_behaved (tc_hooks c)) codes"
  shows "\<exists>b. server_rel (length (v_workers (life_of t))) contents (v_dispatch (life_of t)) b \<and>
     v_stopping (life_of t) \<and> tasked_left codes b t < tasked_left codes a s"
proof -
  have w: "whole_inv codes (y_whole s)" and live: "list_all live_ok (y_tasks s)"
    using assms(2) by (simp_all add: tasked_inv_def)
  have inv: "workers_inv codes (h_start (y_whole s))" "h_created (y_whole s) = length (threads_of s)"
    using w st by (simp_all add: whole_inv_def)
  have f: "w_failure (h_start (y_whole s)) = None" and n: "length (v_workers (life_of s)) = length (threads_of s)"
    using w by (simp_all add: whole_inv_def workers_inv_def together_def)
  show ?thesis
    using assms(1)
  proof cases
    case (serves w')
    show ?thesis
      using serves(3) f n
    proof (cases rule: whole_parts)
      case start
      with step_uses_work [OF start(1) inv(1)] spawn_weight_pos [of codes] serves(1) rel st
      show ?thesis by (intro exI [of _ a]) (simp add: tasked_left_def)
    next
      case life
      with stopping_step_works [OF life(2) st rel] serves(1) show ?thesis by (auto simp: tasked_left_def)
    next
      case both
      obtain b where "server_rel (length (v_workers (h_life w'))) contents (v_dispatch (h_life w')) b"
          "v_stopping (h_life w')" "stop_left b (h_life w') < stop_left a (life_of s)"
        using stopping_step_works [OF both(2) st rel] by blast
      with weight_works [OF step_uses_work [OF both(1) inv(1)], of codes] serves(1) show ?thesis
        by (intro exI [of _ b]) (simp add: tasked_left_def)
    qed (use inv(2) in simp)
  next
    case (spawns i k n)
    note run = initializer_to_run [OF w spawns(3,4,5)]
    have hooks: "well_behaved (tc_hooks (codes ! k))" "codes ! k \<in> set codes"
      using wb run(1) spawns(5) by (simp_all add: list_all_length)
    have "worker_step (h_start (y_whole s)) (h_start (y_whole t))"
      using worker_step.initialises [OF f spawns(3,4,5)] spawns(1)
      by (simp add: runs_initializer_def whole_initialises_def on_start_def)
    from weight_works [OF step_uses_work [OF this inv(1)], of codes] begin_live_left [OF hooks(2,1), of i] rel st
    show ?thesis
      unfolding spawns(1) runs_initializer_def run(6) by (intro exI [of _ a]) (simp add: tasked_left_def run(5))
  next
    case (completes j i tag l)
    have "live_left l < live_left (y_tasks s ! j)" by (rule gets_works [OF completes(7) nth_list_all [OF live completes(3)]])
    then show ?thesis
      using sum_list_update [OF completes(3), of live_left l] completes(1) rel st
      by (intro exI [of _ a]) (simp add: tasked_left_def)
  next
    case (proceeds j l)
    have "live_left l < live_left (y_tasks s ! j)"
      using goes_works [OF _ nth_list_all [OF live proceeds(3)]] proceeds(4) st by simp
    then show ?thesis
      using sum_list_update [OF proceeds(3), of live_left l] proceeds(1) rel st
      by (intro exI [of _ a]) (simp add: tasked_left_def)
  qed (use st rel in \<open>auto simp: tasked_left_def\<close>)
qed

lemma tasked_runs_bounded:
  "(tasked_step drained emplace pop ^^ k) s t \<Longrightarrow> tasked_inv codes s \<Longrightarrow> v_stopping (life_of s) \<Longrightarrow>
     server_rel (length (v_workers (life_of s))) contents (v_dispatch (life_of s)) a \<Longrightarrow>
     list_all (\<lambda>c. well_behaved (tc_hooks c)) codes \<Longrightarrow>
     \<exists>b. server_rel (length (v_workers (life_of t))) contents (v_dispatch (life_of t)) b \<and>
       tasked_inv codes t \<and> v_stopping (life_of t) \<and> tasked_left codes b t + k \<le> tasked_left codes a s"
proof (induction k arbitrary: t)
  case (Suc k)
  from Suc.prems(1) obtain u where u: "(tasked_step drained emplace pop ^^ k) s u" "tasked_step drained emplace pop u t" by auto
  obtain b where b: "server_rel (length (v_workers (life_of u))) contents (v_dispatch (life_of u)) b" "tasked_inv codes u"
      "v_stopping (life_of u)" "tasked_left codes b u + k \<le> tasked_left codes a s"
    using Suc.IH [OF u(1) Suc.prems(2,3,4,5)] by blast
  from tasked_step_works [OF u(2) b(2,3,1) Suc.prems(5)] b(4) tasked_inv_step [OF u(2) b(2) Suc.prems(5)] show ?case by fastforce
qed auto

end

section \<open>Progress\<close>

text \<open>A step of the loops and of \<open>stop\<close> that leaves the threads where they are in their start.\<close>

lemma life_serves:
  assumes "\<not> y_late s" and "server_life_step emplace pop (life_of s) l"
    and "in_loops (threads_of s) (v_workers (life_of s)) (v_workers l)"
    and "v_shut l = v_shut (life_of s)" and "h_created (y_whole s) = length (threads_of s)"
  shows "\<exists>t. tasked_step drained emplace pop s t"
proof -
  have "whole_step emplace pop (y_whole s) ((y_whole s)\<lparr>h_life := l\<rparr>)"
    by (rule whole_step.lives [OF assms(2,3)]) (simp add: assms(5))
  from tasked_step.serves [OF assms(1) this] assms(4) show ?thesis by (auto simp: serves_ok_def)
qed

text \<open>A worker in \<open>handle_event\<close> goes on.\<close>

lemma handler_goes_on:
  assumes "\<not> y_late s" and "whole_inv codes (y_whole s)" and "h_created (y_whole s) = length (threads_of s)"
    and "i < length (threads_of s)" and "threads_of s ! i = Looping" and "v_workers (life_of s) ! i \<noteq> AtNext"
  shows "\<exists>t. tasked_step drained emplace pop s t"
proof -
  let ?l = "life_of s"
  have n: "length (v_workers ?l) = length (threads_of s)" and places: "dispatch_places ?l"
    and "coupled (threads_of s ! i) (v_workers ?l ! i)"
    using assms(2,4) by (simp_all add: whole_inv_def together_def)
  then have ne: "v_workers ?l ! i \<noteq> LoopDone" using assms(5) by (simp add: coupled_def)
  have at: "0 < workers_at (v_workers ?l ! i) ?l"
    using assms(4) n by (auto simp: workers_at_def filter_empty_conv in_set_conv_nth)
  have moves: "in_loops (threads_of s) (v_workers ?l) ((v_workers ?l)[i := v])" if "v \<noteq> LoopDone" for v
    using that assms(4,5) n by (auto simp: in_loops_nth [OF refl] nth_list_update)
  have i: "i < length (v_workers ?l)" using assms(4) n by simp
  show ?thesis
  proof (cases "v_workers ?l ! i")
    case InDrain
    have "server_life_step emplace pop ?l (server_drains pop i ?l)"
      by (rule server_life_step.drains [OF i InDrain]) (use at InDrain places in \<open>simp add: dispatch_places_def\<close>)
    from life_serves [OF assms(1) this _ _ assms(3)] moves show ?thesis by (simp add: server_life_defs)
  next
    case AtStore
    have "server_life_step emplace pop ?l (server_stores i ?l)"
      by (rule server_life_step.stores [OF i AtStore]) (use at AtStore places in \<open>simp add: dispatch_places_def\<close>)
    from life_serves [OF assms(1) this _ _ assms(3)] moves show ?thesis by (simp add: server_life_defs)
  next
    case InPop
    have "server_life_step emplace pop ?l (server_pops pop i ?l)"
      by (rule server_life_step.pops [OF i InPop]) (use at InPop places in \<open>simp add: dispatch_places_def\<close>)
    from life_serves [OF assms(1) this _ _ assms(3)] moves show ?thesis by (simp add: server_life_defs)
  qed (use ne assms(6) in simp_all)
qed

text \<open>A worker that has not reached its loop goes on with its start.\<close>

lemma starting_goes_on:
  assumes "\<not> y_late s" and "whole_inv codes (y_whole s)" and "h_created (y_whole s) = length (threads_of s)"
    and i: "i < length (threads_of s)" and "threads_of s ! i \<notin> {Looping, Exited}"
  shows "\<exists>t. tasked_step drained emplace pop s t"
proof -
  have serves: "\<exists>t. tasked_step drained emplace pop s t"
    if "whole_step emplace pop (y_whole s) (on_start f (y_whole s))" "w_ran (f (h_start (y_whole s))) = w_ran (h_start (y_whole s))"
      "w_threads (f (h_start (y_whole s))) = (threads_of s)[i := v]" "v \<noteq> Exited" for f v
  proof -
    have "serves_ok s (on_start f (y_whole s))"
      using that(2-4) i by (auto simp: serves_ok_def on_start_def nth_list_update split: if_splits)
    from tasked_step.serves [OF assms(1) that(1) this] show ?thesis by blast
  qed
  show ?thesis
  proof (cases "threads_of s ! i")
    case Fresh
    show ?thesis
      by (rule serves [OF whole_step.begins [OF _ i Fresh],
            where v = "Initialising 0 (length (w_initializers (h_start (y_whole s))))"])
        (use assms(3) i in \<open>simp_all add: worker_begin_def\<close>)
  next
    case (Initialising k n)
    have "worker_ok codes (h_start (y_whole s)) i (threads_of s ! i)"
      using assms(2) i by (simp add: whole_inv_def workers_inv_def)
    then have "k \<le> n" using Initialising by (simp add: worker_ok_def)
    then consider "k < n" | "threads_of s ! i = Initialising n n" using Initialising by (cases "k = n") auto
    then show ?thesis
    proof cases
      case 1
      from tasked_step.spawns [OF assms(1) i Initialising 1] show ?thesis by blast
    next
      case 2
      show ?thesis
        by (rule serves [OF whole_step.comes_online [OF i 2],
              where v = "if w_online (h_start (y_whole s)) + 1 = length (threads_of s) then Clearing else Looping"])
          (simp_all add: worker_online_def Let_def)
    qed
  next
    case Clearing
    show ?thesis
      by (rule serves [OF whole_step.clears [OF i Clearing], where v = Looping]) (simp_all add: worker_clear_def)
  qed (use assms(5) in simp_all)
qed

text \<open>A task that waits is served: its worker is in \<open>Next\<close>, or on the way there.\<close>

lemma waiting_goes_on:
  assumes "\<not> y_late s" and "tasked_inv codes s" and "h_created (y_whole s) = length (threads_of s)"
    and all: "\<And>i. i < length (threads_of s) \<Longrightarrow> threads_of s ! i \<in> {Looping, Exited}"
    and j: "j < length (y_tasks s)" and "tag \<in># outstanding (l_sys (y_tasks s ! j))"
  shows "\<exists>t. tasked_step drained emplace pop s t"
proof -
  let ?i = "l_queue (y_tasks s ! j)"
  have w: "whole_inv codes (y_whole s)" and live: "live_ok (y_tasks s ! j)" and i: "?i < length (threads_of s)"
    and idle: "threads_of s ! ?i = Exited \<longrightarrow> queue_idle (y_tasks s) ?i"
    using assms(2) nth_list_all [OF _ j, of live_ok] nth_list_all [OF _ j, of "\<lambda>l. l_queue l < length (threads_of s)"]
    by (simp_all add: tasked_inv_def)
  have "\<not> queue_idle (y_tasks s) ?i" using j assms(6) by (auto simp: queue_idle_def list_all_length)
  then have loops: "threads_of s ! ?i = Looping" using idle all [OF i] by auto
  obtain tag' l where g: "gets tag' (y_tasks s ! j) l" using gets_something [OF live assms(6)] by blast
  show ?thesis
  proof (cases "v_workers (life_of s) ! ?i = AtNext")
    case True
    from tasked_step.completes [OF assms(1) j refl loops True g] show ?thesis by blast
  next
    case False
    from handler_goes_on [OF assms(1) w assms(3) i loops False] show ?thesis by blast
  qed
qed

text \<open>A task whose call is not over waits for a completion, or goes on itself.\<close>

lemma open_task_goes_on:
  assumes "live_ok l" and "\<not> task_over drained l" and "outstanding (l_sys l) = {#}"
  shows "\<exists>l'. goes True l l'"
proof -
  let ?ph = "phase_of (l_sys l)"
  note facts = live_phase [OF assms(1) refl]
  have "awaited ?ph = {#}" using assms(1,3) by (auto simp: live_ok_def alive_inv_def life_at_def)
  then consider "?ph = Authenticating" | "?ph = InBody" | "?ph = InOther" | "?ph = Gone"
    by (cases ?ph) auto
  then show ?thesis
  proof cases
    case 1
    then have "auth_pending (tsk (l_sys l))" using facts(3) by simp
    from goes.authenticated [OF facts(1) this] show ?thesis by blast
  next
    case 2
    then have "coro (tsk (l_sys l)) = Running" using facts(2) by simp
    from goes.body [OF facts(1) this body_step.simps(8), where counting = True] show ?thesis by simp blast
  next
    case 3
    then have "coro (tsk (l_sys l)) = SuspendedOther" using facts(2) by simp
    from goes.other_resumed [OF facts(1) this] show ?thesis by blast
  next
    case 4
    then show ?thesis using assms(1,2) by (simp add: task_over_def live_ok_def)
  qed
qed

lemma loops_serve:
  assumes "\<not> y_late s" and "y_down s" and "whole_inv codes (y_whole s)"
    and all: "\<And>i. i < length (threads_of s) \<Longrightarrow> threads_of s ! i \<in> {Looping, Exited}"
    and "\<And>i. queue_idle (y_tasks s) i" and "whole_step emplace pop (y_whole s) w"
  shows "tasked_step drained emplace pop s (s\<lparr>y_whole := w\<rparr>)"
proof -
  have "w_ran (h_start w) = w_ran (h_start (y_whole s))"
    using assms(6)
  proof (cases rule: whole_step.cases)
    case (initialises i k n)
    then show ?thesis using all [of i] by simp
  qed (simp_all add: whole_defs worker_begin_def worker_online_def worker_clear_def worker_exit_def Let_def)
  then show ?thesis
    by (intro tasked_step.serves [OF assms(1,6)]) (simp add: serves_ok_def assms(2,5))
qed

lemma tasked_goes_on:
  assumes inv: "tasked_inv codes s" and st: "v_stopping (life_of s)" and "\<not> v_stopped (life_of s)" and late: "\<not> y_late s"
  shows "\<exists>t. tasked_step drained emplace pop s t"
proof -
  have w: "whole_inv codes (y_whole s)" and live: "list_all live_ok (y_tasks s)" using inv by (simp_all add: tasked_inv_def)
  then have c: "h_created (y_whole s) = length (threads_of s)" using st by (simp add: whole_inv_def)
  consider (starting) i where "i < length (threads_of s)" "threads_of s ! i \<notin> {Looping, Exited}"
    | (waiting) j tag where "\<And>i. i < length (threads_of s) \<Longrightarrow> threads_of s ! i \<in> {Looping, Exited}"
        "j < length (y_tasks s)" "tag \<in># outstanding (l_sys (y_tasks s ! j))"
    | (idle) "\<And>i. i < length (threads_of s) \<Longrightarrow> threads_of s ! i \<in> {Looping, Exited}"
        "\<And>j. j < length (y_tasks s) \<Longrightarrow> outstanding (l_sys (y_tasks s ! j)) = {#}"
    by (metis multiset_nonemptyE)
  then show ?thesis
  proof cases
    case starting
    from starting_goes_on [OF late w c this] show ?thesis by blast
  next
    case waiting
    from waiting_goes_on [OF late inv c this] show ?thesis by blast
  next
    case idle
    consider "y_down s" | "\<not> y_down s" "list_all (task_over drained) (y_tasks s)"
      | j where "j < length (y_tasks s)" "\<not> task_over drained (y_tasks s ! j)"
      by (auto simp: list_all_length)
    then show ?thesis
    proof cases
      case 1
      have q: "queue_idle (y_tasks s) i" for i using idle(2) by (simp add: queue_idle_def list_all_length)
      obtain w' where "whole_step emplace pop (y_whole s) w'" using whole_goes_on [OF w st assms(3)] by blast
      from loops_serve [OF late 1 w idle(1) q this] show ?thesis by blast
    next
      case 2
      from tasked_step.downs [OF late st 2] show ?thesis by blast
    next
      case (3 j)
      obtain l' where "goes True (y_tasks s ! j) l'"
        using open_task_goes_on [OF nth_list_all [OF live 3(1)] 3(2) idle(2) [OF 3(1)]] by blast
      then have "goes (v_stopping (life_of s)) (y_tasks s ! j) l'" using st by simp
      from tasked_step.proceeds [OF late 3(1) this] show ?thesis by blast
    qed
  qed
qed

text \<open>When every worker has left its loop, every frame is gone.\<close>

lemma stopped_tasks:
  assumes "tasked_inv codes s" and "threads_of s = replicate n Exited" and "l \<in> set (y_tasks s)" and "0 < n"
  shows "failure (l_sys l) = None \<and> phase_of (l_sys l) = Gone \<and> outstanding (l_sys l) = {#} \<and> registered (l_sys l) = [] \<and>
    count is_destroy (trace (l_sys l)) = 1 \<and>
    count (\<lambda>e. e = RunHook OnAuthenticate) (trace (l_sys l)) = count is_finish_op (trace (l_sys l))"
proof -
  have ok: "live_ok l" and q: "l_queue l < n"
    using assms(1-3) by (auto simp: tasked_inv_def list_all_iff)
  have "0 < v_shut (life_of s)" using exited_shut [of codes "y_whole s" 0] assms by (simp add: tasked_inv_def)
  then have over: "task_over False l" using assms(1,3) by (auto simp: tasked_inv_def list_all_iff)
  have "queue_idle (y_tasks s) (l_queue l)" using assms(1,2) q by (auto simp: tasked_inv_def)
  then have out: "outstanding (l_sys l) = {#}" using assms(3) by (auto simp: queue_idle_def list_all_iff)
  have "phase_of (l_sys l) = Gone" by (rule idle_over_gone [OF ok over out])
  moreover from this have "life_at Gone (l_sys l)" "counts_at Gone (l_sys l)" using ok by (simp_all add: live_ok_def alive_inv_def)
  ultimately show ?thesis using out by (simp add: life_at_def counts_at_def)
qed

section \<open>The parts\<close>

lemma tasked_whole_reaches:
  assumes "tasked_reaches drained n codes empty_q emplace pop s"
  shows "whole_reaches n codes empty_q True emplace pop (y_whole s)"
  using assms
proof (induction rule: rtranclp_induct)
  case base
  show ?case by (simp add: tasked_init_def)
next
  case (step u v)
  have "v = u \<or> y_whole v = y_whole u \<or> whole_step emplace pop (y_whole u) (y_whole v)"
    using step(2)
    by cases (auto simp: runs_initializer_def intro: whole_step.initialises)
  with step(3) show ?case by (metis rtranclp.rtrancl_into_rtrancl)
qed

definition task_reached :: "('req, 'resp) live_task \<Rightarrow> bool" where
  "task_reached l \<longleftrightarrow> reaches (tc_type (l_code l)) (tc_hooks (l_code l)) (tc_cleared (l_code l)) done_first (l_sys l)"

lemma task_reached_step:
  "code_step (l_code l) (l_sys l) (l_sys l') \<Longrightarrow> l_code l' = l_code l \<Longrightarrow> task_reached l \<Longrightarrow> task_reached l'"
  unfolding task_reached_def by (auto intro: rtranclp.rtrancl_into_rtrancl)

lemma tasked_tasks_reached:
  assumes "tasked_reaches drained n codes empty_q emplace pop s"
  shows "list_all task_reached (y_tasks s)"
  using assms
proof (rule rtranclp_invariant)
  fix u v :: "('a, 'b, 'c, 'd) tasked"
  assume old: "list_all task_reached (y_tasks u)" and "tasked_step drained emplace pop u v"
  from this(2) show "list_all task_reached (y_tasks v)"
  proof cases
    case (spawns i k n)
    have "task_reached (begin_task i c)" for i and c :: "('a, 'b) task_code"
      unfolding task_reached_def begin_task_def by simp (blast intro: rtranclp.rtrancl_refl)
    with spawns old show ?thesis by (auto simp: runs_initializer_def list_all_iff dest: in_set_takeD)
  next
    case (matches j)
    then show ?thesis using old nth_list_all [OF old matches(4)] by (auto simp: list_all_update task_reached_def)
  next
    case (completes j i tag l)
    with task_reached_step [OF gets_step [OF completes(7)] _ nth_list_all [OF old completes(3)]] gets_keeps [OF completes(7)] old
    show ?thesis by (simp add: list_all_update)
  next
    case (proceeds j l)
    with task_reached_step [OF goes_step [OF proceeds(4)] _ nth_list_all [OF old proceeds(3)]] goes_keeps [OF proceeds(4)] old
    show ?thesis by (simp add: list_all_update)
  qed (use old in simp_all)
qed (simp add: tasked_init_def)

section \<open>Requests on queues that were shut down\<close>

lemma gets_drained:
  assumes "gets tag l l'" and "live_ok l" and "task_over True l"
  shows "task_over True l' \<and> \<not> asks l l'"
proof -
  have ok: "live_ok l'" using gets_phase [OF assms(1,2)] by blast
  have "outstanding (l_sys l') \<subseteq># outstanding (l_sys l)"
  proof (cases "tag = done_tag")
    case True
    have "phase_of (l_sys l) \<noteq> Gone"
      using step_gone [OF gets_step [OF assms(1)]] assms(2) by (auto simp: live_ok_def settled_def)
    with assms(1,2) True show ?thesis
      by (auto simp: live_ok_def deliver_done_outstanding elim!: gets.cases)
  next
    case False
    have "phase_of (l_sys l') = Gone"
      using gets_phase [OF assms(1,2)] assms(3) False
      by (cases "phase_of (l_sys l)") (auto simp: task_over_def split: if_splits)
    from gone_idle [OF ok this] show ?thesis by simp
  qed
  then have "\<not> asks l l'" unfolding asks_def by (metis Diff_eq_empty_iff_mset)
  moreover have u: "\<not> l_matched l'" using gets_keeps [OF assms(1)] assms(3) by (simp add: task_over_def)
  from gets_phase [OF assms(1,2)] assms(3) u have "task_over True l'"
    by (cases "phase_of (l_sys l)") (auto simp: task_over_def split: if_splits)
  ultimately show ?thesis by blast
qed

definition drained_inv :: "('req, 'resp, 'fn, 'q) tasked \<Rightarrow> bool" where
  "drained_inv s \<longleftrightarrow> (y_down s \<longrightarrow> list_all (task_over True) (y_tasks s))"

lemma drained_step:
  assumes "tasked_step True emplace pop s t" and "tasked_inv codes s" and "drained_inv s"
    and wb: "list_all (\<lambda>c. well_behaved (tc_hooks c)) codes"
  shows "drained_inv t"
  using assms(1)
proof cases
  case (spawns i k n)
  have w: "whole_inv codes (y_whole s)" using assms(2) by (simp add: tasked_inv_def)
  note run = initializer_to_run [OF w spawns(3,4,5)]
  have "well_behaved (tc_hooks (codes ! k))" using wb run(1) spawns(5) by (simp add: list_all_length)
  then have "task_over True (begin_task i (codes ! k))"
    using begin_live [of "codes ! k" i] by (simp add: task_over_def) (simp add: begin_task_def)
  then show ?thesis using assms(3) unfolding spawns(1) runs_initializer_def run(6) drained_inv_def by simp
next
  case (matches j)
  then show ?thesis using assms(2) by (auto simp: drained_inv_def tasked_inv_def)
next
  case (completes j i tag l)
  have "live_ok (y_tasks s ! j)" using assms(2) completes(3) by (simp add: tasked_inv_def nth_list_all)
  with gets_drained [OF completes(7)] completes(1,3) assms(3) show ?thesis
    by (auto simp: drained_inv_def list_all_update nth_list_all)
next
  case (proceeds j l)
  have "live_ok (y_tasks s ! j)" using assms(2) proceeds(3) by (simp add: tasked_inv_def nth_list_all)
  with goes_not_over [OF proceeds(4)] proceeds(1,3) assms(3) show ?thesis
    by (auto simp: drained_inv_def dest: nth_list_all)
qed (use assms(3) in \<open>simp_all add: drained_inv_def\<close>)

lemma drained_reached:
  assumes "tasked_reaches True n codes empty_q emplace pop s" and "list_all (\<lambda>c. well_behaved (tc_hooks c)) codes"
  shows "tasked_inv codes s \<and> drained_inv s"
  using assms(1)
proof (rule rtranclp_invariant)
  show "tasked_inv codes (tasked_init n codes empty_q) \<and> drained_inv (tasked_init n codes empty_q)"
    by (simp add: tasked_inv_init) (simp add: drained_inv_def tasked_init_def)
qed (use assms(2) tasked_inv_step drained_step in blast)

lemma online_keeps_in_time:
  assumes "tasked_step True emplace pop s t" and "tasked_inv codes s" and "drained_inv s"
    and on: "list_all online (threads_of s)" and "\<not> y_late s"
  shows "list_all online (threads_of t) \<and> \<not> y_late t"
  using assms(1)
proof cases
  case (serves w)
  then show ?thesis
    using online_no_more_late [OF serves(3) on] assms(5) by simp
next
  case (spawns i k n)
  then show ?thesis using nth_list_all [OF on spawns(3)] by simp
next
  case (completes j i tag l)
  have "live_ok (y_tasks s ! j)" using assms(2) completes(3) by (simp add: tasked_inv_def nth_list_all)
  then have "\<not> (asks (y_tasks s ! j) l \<and> y_down s)"
    using gets_drained [OF completes(7)] nth_list_all [OF _ completes(3)] assms(3) by (auto simp: drained_inv_def)
  then show ?thesis using completes(1) on assms(2) by (auto simp: tasked_inv_def)
next
  case (proceeds j l)
  have "live_ok (y_tasks s ! j)" using assms(2) proceeds(3) by (simp add: tasked_inv_def nth_list_all)
  then have "\<not> y_down s"
    using goes_not_over [OF proceeds(4)] nth_list_all [OF _ proceeds(3)] assms(3) by (auto simp: drained_inv_def)
  then show ?thesis using proceeds(1) on assms(2) by (auto simp: tasked_inv_def)
qed (use on assms(5) in simp_all)

lemma drained_keeps_in_time:
  assumes "(tasked_step True emplace pop)\<^sup>*\<^sup>* s t" and "tasked_reaches True n codes empty_q emplace pop s"
    and wb: "list_all (\<lambda>c. well_behaved (tc_hooks c)) codes" and "list_all online (threads_of s)" and "\<not> y_late s"
  shows "tasked_inv codes t \<and> \<not> y_late t"
proof -
  have start: "(tasked_inv codes s \<and> drained_inv s) \<and> list_all online (threads_of s) \<and> \<not> y_late s"
    using drained_reached [OF assms(2) wb] assms(4,5) by blast
  from assms(1) start have "(tasked_inv codes t \<and> drained_inv t) \<and> list_all online (threads_of t) \<and> \<not> y_late t"
    by (rule rtranclp_invariant) (use wb tasked_inv_step drained_step online_keeps_in_time in blast)
  then show ?thesis by blast
qed

lemma stopping_continues:
  assumes "(tasked_step drained emplace pop)\<^sup>*\<^sup>* s t" and "tasked_inv codes s" and "v_stopping (life_of s)"
    and wb: "list_all (\<lambda>c. well_behaved (tc_hooks c)) codes"
  shows "tasked_inv codes t \<and> v_stopping (life_of t)"
  using assms(1)
proof (rule rtranclp_invariant)
  fix u v assume u: "tasked_inv codes u \<and> v_stopping (life_of u)" and "tasked_step drained emplace pop u v"
  from this(2) have "v_stopping (life_of v)"
  proof cases
    case (serves w)
    then show ?thesis using whole_step_keeps(2) [OF serves(3)] u by (auto simp: tasked_inv_def)
  next
    case (spawns i k n)
    then show ?thesis using initializer_to_run(5) [OF _ spawns(3,4,5)] u
      by (auto simp: tasked_inv_def runs_initializer_def)
  qed (use u in simp_all)
  then show "tasked_inv codes v \<and> v_stopping (life_of v)"
    using tasked_inv_step [OF _ _ wb] u \<open>tasked_step drained emplace pop u v\<close> by blast
qed (use assms(2,3) in blast)

lemma drained_stops:
  assumes "tasked_reaches True n codes empty_q emplace pop s" and wb: "list_all (\<lambda>c. well_behaved (tc_hooks c)) codes"
    and "list_all online (threads_of s)" and "\<not> y_late s" and "v_stopping (life_of s)"
    and "(tasked_step True emplace pop)\<^sup>*\<^sup>* s t" and "\<forall>u. \<not> tasked_step True emplace pop t u"
  shows "v_stopped (life_of t) \<and> \<not> y_late t"
proof -
  have t: "tasked_inv codes t" "\<not> y_late t" using drained_keeps_in_time [OF assms(6,1,2,3,4)] by simp_all
  have "tasked_inv codes s" using drained_reached [OF assms(1) wb] by blast
  from stopping_continues [OF assms(6) this assms(5) wb] have "v_stopping (life_of t)" by blast
  with tasked_goes_on [OF t(1) _ _ t(2)] assms(7) t(2) show ?thesis by blast
qed

section \<open>Properties\<close>

text \<open>One worker, one initializer, whose task rejects its first call; all workers are online.\<close>

definition ex_code :: "(nat, nat) task_code" where
  "ex_code = \<lparr>tc_type = Unary, tc_hooks = reject_first, tc_cleared = 0, tc_frame = 7, tc_request = 0,
     tc_response = 0, tc_budget = 0\<rparr>"

definition ex_up ::
  "(nat, nat option list) server_life \<Rightarrow> (nat, nat) live_task \<Rightarrow> bool \<Rightarrow> bool \<Rightarrow> (nat, nat, nat, nat option list) tasked" where
  "ex_up v l down late =
     \<lparr>y_whole = \<lparr>h_start = \<lparr>w_initializers = [], w_threads = [Looping], w_online = 1, w_ran = [(0, ex_code)], w_failure = None\<rparr>,
        h_life = v, h_server = True, h_created = 1, h_late = []\<rparr>,
      y_tasks = [l], y_down = down, y_late = late\<rparr>"

abbreviation ex_idle :: "(nat, nat option list) server_life" where
  "ex_idle \<equiv> server_life_init (Suc 0) []"

lemma ex_well_behaved: "list_all (\<lambda>c. well_behaved (tc_hooks c)) [ex_code]"
  using noop_well_behaved [of True] by (simp add: ex_code_def reject_first_def well_behaved_def)

lemma ex_up_reached:
  "tasked_reaches drained (Suc 0) [ex_code] [] list_emplace list_pop (ex_up ex_idle (begin_task 0 ex_code) False False)"
proof -
  let ?step = "tasked_step drained list_emplace list_pop :: (nat, nat, nat, nat option list) tasked \<Rightarrow> _"
  define s0 :: "(nat, nat, nat, nat option list) tasked" where "s0 = tasked_init (Suc 0) [ex_code] []"
  define s1 where "s1 = s0\<lparr>y_whole := create_thread (y_whole s0)\<rparr>"
  define s2 where "s2 = s1\<lparr>y_whole := on_start (worker_begin 0) (y_whole s1)\<rparr>"
  define s3 where "s3 = runs_initializer 0 0 1 s2"
  define s4 where "s4 = s3\<lparr>y_whole := on_start (worker_online 0) (y_whole s3)\<rparr>"
  define s5 where "s5 = s4\<lparr>y_whole := on_start (worker_clear 0) (y_whole s4)\<rparr>"
  note defs = whole_defs whole_init_def workers_init_def server_life_init_def server_init_def server_constructor_def
    worker_begin_def worker_initialise_def worker_online_def worker_clear_def array_at_def tasked_init_def
    serves_ok_def runs_initializer_def s0_def s1_def s2_def s3_def s4_def s5_def
  have st1: "?step s0 s1" unfolding s1_def
    by (rule tasked_step.serves [OF _ whole_step.creates]) (simp_all add: defs)
  have st2: "?step s1 s2" unfolding s2_def
    by (rule tasked_step.serves [OF _ whole_step.begins]) (simp_all add: defs)
  have st3: "?step s2 s3" unfolding s3_def
    by (rule tasked_step.spawns) (simp_all add: defs)
  have st4: "?step s3 s4" unfolding s4_def
    by (rule tasked_step.serves [OF _ whole_step.comes_online [where n = 1]]) (simp_all add: defs)
  have st5: "?step s4 s5" unfolding s5_def
    by (rule tasked_step.serves [OF _ whole_step.clears]) (simp_all add: defs)
  have eq: "s5 = ex_up ex_idle (begin_task 0 ex_code) False False" by (simp add: defs ex_up_def)
  have "(?step)\<^sup>*\<^sup>* s0 s5"
    using st1 st2 st3 st4 st5 by (auto intro: converse_rtranclp_into_rtranclp)
  then show ?thesis unfolding eq s0_def .
qed

lemma ex_stop_begins:
  "tasked_step drained list_emplace list_pop (ex_up ex_idle l False False) (ex_up (stop_begins ex_idle) l False False)"
proof -
  let ?s = "ex_up ex_idle l False False"
  have "whole_step list_emplace list_pop (y_whole ?s) ((y_whole ?s)\<lparr>h_life := stop_begins ex_idle\<rparr>)"
    by (rule whole_step.lives, simp add: ex_up_def, rule server_life_step.begins)
       (simp_all add: ex_up_def in_loops_def server_life_init_def server_init_def stop_begins_def)
  from tasked_step.serves [OF _ this] show ?thesis
    by (simp add: ex_up_def serves_ok_def stop_begins_def)
qed

text \<open>
C3: \<open>stop\<close> returns, with nothing left behind, if the runtime's \<open>Shutdown\<close> has waited for the completion of
rejected calls (\<open>drained\<close>) and \<open>stop\<close> was called when all workers were online and nothing had been issued too
late: every run that cannot go on has \<open>stop\<close> returned. Without these two conditions a run that cannot go
on may instead have ended the program, because an operation was issued on a queue that was shut down.
In either case every run is bounded once \<open>stop\<close> has begun, whatever the outcomes of the operations, also of
calls that were accepted just before, provided that the body of a task takes no more than \<open>tc_budget\<close>
actions before it returns or throws, and that the queue returns the notification of a call before the
completion of its finish operation. When \<open>stop\<close> has returned, every initializer has started its task on
every queue, every frame was destroyed, exactly once, with all its calls finished and nothing outstanding,
every worker has finished, and every function pushed was taken out of the queue.
\<close>

theorem server_tasks_end:
  assumes "function_queue empty_q emplace pop contents" and "list_all (\<lambda>c. well_behaved (tc_hooks c)) codes"
    and "tasked_reaches drained (Suc n) codes empty_q emplace pop s" and "v_stopping (life_of s)"
  shows "(drained \<and> list_all online (threads_of s) \<and> \<not> y_late s \<longrightarrow>
       (\<forall>t. (tasked_step drained emplace pop)\<^sup>*\<^sup>* s t \<and> (\<forall>u. \<not> tasked_step drained emplace pop t u) \<longrightarrow>
          v_stopped (life_of t) \<and> \<not> y_late t)) \<and>
    ((\<forall>u. \<not> tasked_step drained emplace pop s u) \<longrightarrow> v_stopped (life_of s) \<or> y_late s) \<and>
    runs_bounded (tasked_step drained emplace pop) s \<and>
    (v_stopped (life_of s) \<longrightarrow>
       (\<forall>i < Suc n. map l_code (filter (\<lambda>l. l_queue l = i) (y_tasks s)) = codes) \<and>
       (\<forall>l \<in> set (y_tasks s). failure (l_sys l) = None \<and> phase_of (l_sys l) = Gone \<and> outstanding (l_sys l) = {#} \<and>
          registered (l_sys l) = [] \<and> count is_destroy (trace (l_sys l)) = 1 \<and>
          count (\<lambda>e. e = RunHook OnAuthenticate) (trace (l_sys l)) = count is_finish_op (trace (l_sys l))) \<and>
       threads_of s = replicate (Suc n) Exited \<and> contents (s_queue (v_dispatch (life_of s))) = [] \<and>
       executed (s_popped (v_dispatch (life_of s))) = executed (s_pushed (v_dispatch (life_of s))))"
proof (intro conjI impI)
  have inv: "tasked_inv codes s" by (rule tasked_reaches_inv [OF assms(3,2)])
  have whole: "whole_reaches (Suc n) codes empty_q True emplace pop (y_whole s)" by (rule tasked_whole_reaches [OF assms(3)])
  have n: "length (v_workers (life_of s)) = Suc n" and r: "server_reaches (Suc n) empty_q emplace pop (v_dispatch (life_of s))"
    using server_life_reached [OF whole_reaches_parts [OF whole, THEN conjunct2]] by simp_all
  obtain a where a: "server_rel (length (v_workers (life_of s))) contents (v_dispatch (life_of s)) a"
    using function_queue.server_facts(1) [OF assms(1) r] n by auto
  show "runs_bounded (tasked_step drained emplace pop) s"
    unfolding runs_bounded_def
    using function_queue.tasked_runs_bounded [OF assms(1) _ inv assms(4) a assms(2)]
    by (intro exI [of _ "tasked_left codes a s"]) fastforce
  show "v_stopped (life_of s) \<or> y_late s" if "\<forall>u. \<not> tasked_step drained emplace pop s u"
    using tasked_goes_on [OF inv assms(4)] that by blast
  show "\<forall>t. (tasked_step drained emplace pop)\<^sup>*\<^sup>* s t \<and> (\<forall>u. \<not> tasked_step drained emplace pop t u) \<longrightarrow>
      v_stopped (life_of t) \<and> \<not> y_late t"
    if "drained \<and> list_all online (threads_of s) \<and> \<not> y_late s"
  proof (intro allI impI)
    fix t assume t: "(tasked_step drained emplace pop)\<^sup>*\<^sup>* s t \<and> (\<forall>u. \<not> tasked_step drained emplace pop t u)"
    have "drained" using that by simp
    with t assms(3) have *: "(tasked_step True emplace pop)\<^sup>*\<^sup>* s t" "\<forall>u. \<not> tasked_step True emplace pop t u"
        "tasked_reaches True (Suc n) codes empty_q emplace pop s" by simp_all
    show "v_stopped (life_of t) \<and> \<not> y_late t"
      by (rule drained_stops [OF *(3) assms(2) _ _ assms(4) *(1,2)]) (use that in simp_all)
  qed
  assume stopped: "v_stopped (life_of s)"
  note ended = whole_server_ends [OF assms(1) whole assms(4), THEN conjunct2, THEN conjunct2, rule_format, OF stopped]
  show "threads_of s = replicate (Suc n) Exited" "contents (s_queue (v_dispatch (life_of s))) = []"
      "executed (s_popped (v_dispatch (life_of s))) = executed (s_pushed (v_dispatch (life_of s)))"
    using ended by blast+
  have ran: "map (\<lambda>l. (l_queue l, l_code l)) (y_tasks s) = w_ran (h_start (y_whole s))"
    using inv by (simp add: tasked_inv_def)
  show "\<forall>i < Suc n. map l_code (filter (\<lambda>l. l_queue l = i) (y_tasks s)) = codes"
  proof (intro allI impI)
    fix i assume "i < Suc n"
    then have "ran_on i (h_start (y_whole s)) = codes" using ended by blast
    moreover have "ran_on i (h_start (y_whole s)) = map l_code (filter (\<lambda>l. l_queue l = i) (y_tasks s))"
      by (simp add: ran_on_def ran [symmetric] filter_map comp_def)
    ultimately show "map l_code (filter (\<lambda>l. l_queue l = i) (y_tasks s)) = codes" by simp
  qed
  show "\<forall>l \<in> set (y_tasks s). failure (l_sys l) = None \<and> phase_of (l_sys l) = Gone \<and> outstanding (l_sys l) = {#} \<and>
          registered (l_sys l) = [] \<and> count is_destroy (trace (l_sys l)) = 1 \<and>
          count (\<lambda>e. e = RunHook OnAuthenticate) (trace (l_sys l)) = count is_finish_op (trace (l_sys l))"
    using stopped_tasks [OF inv conjunct1 [OF ended]] by blast
qed

theorem server_tasks_end_witness:
  "let s = ex_up (stop_begins ex_idle) (begin_task 0 ex_code) False False in
     runs_bounded (tasked_step True list_emplace list_pop) s \<and>
     (\<forall>t. (tasked_step True list_emplace list_pop)\<^sup>*\<^sup>* s t \<and> (\<forall>u. \<not> tasked_step True list_emplace list_pop t u) \<longrightarrow>
        v_stopped (life_of t))"
proof -
  let ?s = "ex_up (stop_begins ex_idle) (begin_task 0 ex_code) False False"
  have "v_stopping (life_of ?s)" "list_all online (threads_of ?s)" "\<not> y_late ?s"
    by (simp_all add: ex_up_def stop_begins_def)
  with server_tasks_end [OF list_functions_queue ex_well_behaved
      rtranclp.rtrancl_into_rtrancl [OF ex_up_reached [of True] ex_stop_begins]]
  show ?thesis by (simp add: Let_def)
qed

text \<open>
C9: a server with its tasks is what its parts are alone: its start and its life are runs of their models, every
task is in a state that it can reach by itself, with the notification of a call before the completion of
its finish operation, on the queue of the worker that ran its initializer, tasks
and initializers that ran correspond one to one, and once the first queue is shut down \<open>Shutdown\<close> has
returned and no task's call is still being authenticated or served.
\<close>

theorem server_with_tasks_refines_parts:
  assumes "tasked_reaches drained n codes empty_q emplace pop s" and "list_all (\<lambda>c. well_behaved (tc_hooks c)) codes"
  shows "workers_reach n codes (h_start (y_whole s)) \<and> server_life_reaches n empty_q emplace pop (life_of s) \<and>
    (\<forall>l \<in> set (y_tasks s). l_queue l < n \<and>
       reaches (tc_type (l_code l)) (tc_hooks (l_code l)) (tc_cleared (l_code l)) done_first (l_sys l)) \<and>
    map (\<lambda>l. (l_queue l, l_code l)) (y_tasks s) = w_ran (h_start (y_whole s)) \<and>
    (0 < v_shut (life_of s) \<longrightarrow> y_down s \<and>
       (\<forall>l \<in> set (y_tasks s). phase_of (l_sys l) \<in> {Requesting, Rejecting, Finishing, Gone}))"
proof -
  have parts: "workers_reach n codes (h_start (y_whole s))" "server_life_reaches n empty_q emplace pop (life_of s)"
    using whole_reaches_parts [OF tasked_whole_reaches [OF assms(1)]] by blast+
  have inv: "tasked_inv codes s" by (rule tasked_reaches_inv [OF assms])
  have over: "phase_of (l_sys l) \<in> {Requesting, Rejecting, Finishing, Gone}" if "task_over False l" for l :: "('a, 'b) live_task"
    using that by (cases "phase_of (l_sys l)") (auto simp: task_over_def)
  have "y_down s \<and> (\<forall>l \<in> set (y_tasks s). phase_of (l_sys l) \<in> {Requesting, Rejecting, Finishing, Gone})"
    if "0 < v_shut (life_of s)"
  proof -
    have "y_down s" "list_all (task_over False) (y_tasks s)" using inv that by (simp_all add: tasked_inv_def)
    then show ?thesis using over unfolding list_all_iff by blast
  qed
  moreover have "\<forall>l \<in> set (y_tasks s). l_queue l < n"
    using inv workers_reach_count [OF parts(1)] by (auto simp: tasked_inv_def list_all_iff)
  moreover have "\<forall>l \<in> set (y_tasks s). reaches (tc_type (l_code l)) (tc_hooks (l_code l)) (tc_cleared (l_code l)) done_first (l_sys l)"
    using tasked_tasks_reached [OF assms(1)] unfolding list_all_iff task_reached_def .
  moreover have "map (\<lambda>l. (l_queue l, l_code l)) (y_tasks s) = w_ran (h_start (y_whole s))"
    using inv by (simp add: tasked_inv_def)
  ultimately show ?thesis using parts by blast
qed

theorem server_with_tasks_refines_parts_witness:
  "workers_reach (Suc 0) [ex_code] (h_start (y_whole (ex_up ex_idle (begin_task 0 ex_code) False False)))"
  by (rule server_with_tasks_refines_parts [OF ex_up_reached [of True] ex_well_behaved, THEN conjunct1])

text \<open>A task whose first call is rejected, from the request to the next one.\<close>

lemma ex_rejected:
  obtains l2 l3 l4 where "gets request_tag ((begin_task 0 ex_code)\<lparr>l_matched := True\<rparr>) l2" "gets done_tag l2 l3"
    "gets reject_tag l3 l4" "\<not> asks l2 l3" "asks l3 l4" "task_over False l2" "l_queue l2 = 0" "l_queue l3 = 0"
proof -
  let ?l1 = "(begin_task 0 ex_code)\<lparr>l_matched := True\<rparr>" and ?d = "ok_delivery (0 :: nat)"
  define s1 where "s1 = l_sys (begin_task 0 ex_code)"
  define s2 where "s2 = deliver Unary reject_first 0 request_tag ?d s1"
  define s3 where "s3 = deliver Unary reject_first 0 done_tag ?d s2"
  have s1: "alive_inv Requesting s1" by (simp add: s1_def begin_task_def alive_initial)
  have c0: "m_context (ctx_of (tsk s1)) = 0" "outstanding s1 = {#request_tag#}"
    by (simp_all add: s1_def begin_task_def initial_sys_def initial_await_suspend_def start_grpc_call_def
        promise_type_def Let_def tag_defs)
  have "on_authenticate reject_first (runtime_writes Unary request_tag ?d (tsk s1)) = Some (Status STATUS_UNAUTHENTICATED '''')"
    by (simp add: reject_first_def c0)
  from rejected_request [OF s1 this]
  have s2: "alive_inv Rejecting s2" "outstanding s2 = {#done_tag, reject_tag#}" using c0 by (simp_all add: s2_def)
  have s3: "alive_inv Rejecting s3" "outstanding s3 = {#reject_tag#}"
    using notified [OF s2(1), of Unary reject_first 0 ?d] s2(2) by (simp_all add: s3_def)
  have f: "failure s = None" if "alive_inv ph s" for ph and s :: "(nat, nat) sys"
    using that by (simp add: alive_inv_def life_at_def)
  have c: "l_code (begin_task 0 ex_code) = ex_code" "l_sys ?l1 = s1" "tc_type ex_code = Unary" "tc_hooks ex_code = reject_first" "tc_cleared ex_code = 0"
    by (simp_all add: begin_task_def ex_code_def s1_def)
  have ne: "request_tag \<noteq> reject_tag" "request_tag \<noteq> final_tag" by (simp_all add: tag_defs)
  define l2 where "l2 = ?l1\<lparr>l_matched := False, l_sys := s2\<rparr>"
  define l3 where "l3 = l2\<lparr>l_sys := s3\<rparr>"
  have g2: "gets request_tag ?l1 l2"
    using gets.intros [of ?l1 request_tag ?d] f [OF s1] c0(2)
    by (simp add: c ne l2_def s2_def [symmetric] done_first_def)
  have g3: "gets done_tag l2 l3"
    using gets.intros [of l2 done_tag ?d] f [OF s2(1)] s2(2)
    by (simp add: c ne l2_def l3_def s3_def [symmetric] done_first_def)
  define s4 where "s4 = deliver Unary reject_first 0 reject_tag ?d s3"
  have s4: "outstanding s4 = {#request_tag#}"
    using next_request(2) [OF s3(1), of Unary reject_first 0 ?d] s3(2) by (simp add: s4_def)
  define l4 where "l4 = l3\<lparr>l_sys := s4\<rparr>"
  have g4: "gets reject_tag l3 l4"
    using gets.intros [of l3 reject_tag ?d] f [OF s3(1)] s3(2)
    by (simp add: c l2_def l3_def l4_def s4_def [symmetric] done_first_def)
  have "\<not> asks l2 l3" "asks l3 l4" using s2(2) s3(2) s4 by (simp_all add: asks_def l2_def l3_def l4_def)
  moreover have "task_over False l2" using alive_phase [OF s2(1)] by (simp add: task_over_def l2_def)
  moreover have "l_queue l2 = 0" "l_queue l3 = 0" by (simp_all add: l2_def l3_def begin_task_def)
  ultimately show ?thesis using that g2 g3 g4 by blast
qed

lemma ex_late_reached:
  obtains u :: "(nat, nat, nat, nat option list) tasked"
  where "tasked_reaches False (Suc 0) [ex_code] [] list_emplace list_pop u" "y_late u"
    "list_all online (threads_of u)" "h_late (y_whole u) = []"
proof -
  let ?step = "tasked_step False list_emplace list_pop :: (nat, nat, nat, nat option list) tasked \<Rightarrow> _"
  let ?l1 = "(begin_task 0 ex_code)\<lparr>l_matched := True\<rparr>" and ?v = "stop_begins ex_idle"
  obtain l2 l3 l4 where g: "gets request_tag ?l1 l2" "gets done_tag l2 l3" "gets reject_tag l3 l4"
      and l2: "task_over False l2" "l_queue l2 = 0" "l_queue l3 = 0" and asked: "\<not> asks l2 l3" "asks l3 l4"
    using ex_rejected by blast
  let ?up = "ex_up :: _ \<Rightarrow> (nat, nat) live_task \<Rightarrow> _"
  have st1: "?step (?up ex_idle (begin_task 0 ex_code) False False) (?up ex_idle ?l1 False False)"
  proof -
    have "?step (?up ex_idle (begin_task 0 ex_code) False False)
        ((?up ex_idle (begin_task 0 ex_code) False False)\<lparr>y_tasks := [begin_task 0 ex_code][0 := ?l1]\<rparr>)"
      using tasked_step.matches [where j = 0 and s = "?up ex_idle (begin_task 0 ex_code) False False"]
        begin_live [of ex_code 0] ex_well_behaved
      by (simp add: ex_up_def server_life_init_def)
    then show ?thesis by (simp add: ex_up_def)
  qed
  have received: "?step (?up v l d False) (?up v l' d (asks l l' \<and> 0 < v_shut v))"
    if "gets tag l l'" "l_queue l = 0" "v_workers v ! 0 = AtNext" for tag l l' d v
    using tasked_step.completes [where j = 0 and i = 0 and s = "?up v l d False"] that by (simp add: ex_up_def)
  from received [OF g(1), of ex_idle False] have st2: "?step (?up ex_idle ?l1 False False) (?up ex_idle l2 False False)"
    by (simp add: begin_task_def server_life_init_def)
  have st3: "?step (?up ex_idle l2 False False) (?up ?v l2 False False)" by (rule ex_stop_begins)
  have st4: "?step (?up ?v l2 False False) (?up ?v l2 True False)"
    using tasked_step.downs [where s = "?up ?v l2 False False" and drained = False] l2(1)
    by (simp add: ex_up_def stop_begins_def)
  have st5: "?step (?up ?v l2 True False) (?up (stop_shuts ?v) l2 True False)"
  proof -
    have "whole_step list_emplace list_pop (y_whole (?up ?v l2 True False))
        ((y_whole (?up ?v l2 True False))\<lparr>h_life := stop_shuts ?v\<rparr>)"
      by (rule whole_step.lives, simp add: ex_up_def, rule server_life_step.shuts)
         (simp_all add: ex_up_def in_loops_def server_life_init_def stop_begins_def stop_shuts_def)
    from tasked_step.serves [OF _ this] show ?thesis by (simp add: ex_up_def serves_ok_def)
  qed
  from received [OF g(2) l2(2), of "stop_shuts ?v" True]
  have st6: "?step (?up (stop_shuts ?v) l2 True False) (?up (stop_shuts ?v) l3 True False)"
    by (simp add: asked server_life_init_def stop_begins_def stop_shuts_def)
  from received [OF g(3) l2(3), of "stop_shuts ?v" True]
  have st7: "?step (?up (stop_shuts ?v) l3 True False) (?up (stop_shuts ?v) l4 True True)"
    by (simp add: asked server_life_init_def stop_begins_def stop_shuts_def)
  note run = rtranclp.rtrancl_into_rtrancl
  have "tasked_reaches False (Suc 0) [ex_code] [] list_emplace list_pop (?up (stop_shuts ?v) l4 True True)"
    by (rule run [OF run [OF run [OF run [OF run [OF run [OF run [OF ex_up_reached st1] st2] st3] st4] st5] st6] st7])
  then show ?thesis by (rule that) (simp_all add: ex_up_def)
qed

text \<open>
C29: a task may request its next call on a queue that was shut down, which the runtime answers by ending the
program: a rejected call is followed by a new request when its finish operation completes, without regard
to \<open>stop\<close>, which may have shut down the queue since. There is a run in which this happens although all
workers were online, so that no initializer was late, when \<open>Shutdown\<close> does not wait for that completion. If
it does, then from every state in which all workers are online and nothing was issued too late, nothing is
issued too late afterwards.
\<close>

theorem rejected_call_requests_late:
  "(tasked_reaches True n codes empty_q emplace pop s \<and> list_all (\<lambda>c. well_behaved (tc_hooks c)) codes \<and>
     list_all online (threads_of s) \<and> \<not> y_late s \<and> (tasked_step True emplace pop)\<^sup>*\<^sup>* s t \<longrightarrow> \<not> y_late t) \<and>
   (\<exists>u :: (nat, nat, nat, nat option list) tasked. tasked_reaches False (Suc 0) [ex_code] [] list_emplace list_pop u \<and>
      y_late u \<and> list_all online (threads_of u) \<and> h_late (y_whole u) = [])"
proof (intro conjI impI, elim conjE)
  assume reached: "tasked_reaches True n codes empty_q emplace pop s" and wb: "list_all (\<lambda>c. well_behaved (tc_hooks c)) codes"
    and on: "list_all online (threads_of s)" "\<not> y_late s" and run: "(tasked_step True emplace pop)\<^sup>*\<^sup>* s t"
  show "\<not> y_late t" by (rule drained_keeps_in_time [OF run reached wb on, THEN conjunct2])
next
  show "\<exists>u :: (nat, nat, nat, nat option list) tasked. tasked_reaches False (Suc 0) [ex_code] [] list_emplace list_pop u \<and>
      y_late u \<and> list_all online (threads_of u) \<and> h_late (y_whole u) = []"
    using ex_late_reached by blast
qed

theorem rejected_call_requests_late_witness:
  "\<exists>u :: (nat, nat, nat, nat option list) tasked. tasked_reaches False (Suc 0) [ex_code] [] list_emplace list_pop u \<and>
      y_late u \<and> list_all online (threads_of u) \<and> h_late (y_whole u) = []"
  by (rule rejected_call_requests_late [THEN conjunct2])

end
