(* ===== verification/Object_World.thy ===== *)
theory Object_World
  imports Dispatch_Loop
begin

text \<open>
  Many objects behind one event loop. Tasks, calls and dispatchers give the runtime tagged pointers to
  themselves, and the loop turns a pointer back into a call of \<open>handle_event\<close>. What such an object
  promises is an interface; from it follows, for any number of objects that come and go in storage
  that is used again, that every completion reaches the object that asked for it.
\<close>

section \<open>Objects that receive completions\<close>

text \<open>
  One kind of object: how it starts at an address, what it does by itself, which of its parts (of type
  \<open>'o\<close>, each with a \<open>handle_event\<close>) exist, which tags of theirs the runtime still has to return, which
  of them it may return now, and what a completion does. \<open>'d\<close> is what the runtime writes before that.
\<close>

record ('s, 'o, 'd) behaviour =
  b_objects :: "'o list"
  b_start :: "nat \<Rightarrow> 's \<Rightarrow> bool"
  b_local :: "'s \<Rightarrow> 's \<Rightarrow> bool"
  b_alive :: "'s \<Rightarrow> 'o \<Rightarrow> bool"
  b_gone :: "'s \<Rightarrow> bool"
  b_failed :: "'s \<Rightarrow> bool"
  b_outstanding :: "'s \<Rightarrow> (nat \<times> 'o) multiset"
  b_may :: "'s \<Rightarrow> nat \<times> 'o \<Rightarrow> bool"
  b_complete :: "nat \<times> 'o \<Rightarrow> bool \<Rightarrow> 'd \<Rightarrow> 's \<Rightarrow> 's"

text \<open>The states an object reaches on its own, among nothing but its own completions.\<close>

inductive object_reaches :: "('s, 'o, 'd) behaviour \<Rightarrow> nat \<Rightarrow> 's \<Rightarrow> bool" for B f where
  starts: "b_start B f s \<Longrightarrow> object_reaches B f s"
| moves: "object_reaches B f s \<Longrightarrow> b_local B s t \<Longrightarrow> object_reaches B f t"
| completes: "object_reaches B f s \<Longrightarrow> x \<in># b_outstanding B s \<Longrightarrow> b_may B s x \<Longrightarrow>
     object_reaches B f (b_complete B x ok d s)"

text \<open>
  The contract of a kind of object: it does nothing undefined, leaves nothing outstanding when it is
  gone, and what is outstanding belongs to a part that exists, with an index that fits into a pointer;
  it only adds to what is outstanding, and a completion takes away just the tag it is for.
\<close>

locale served =
  fixes B :: "('s, 'o, 'd) behaviour"
  assumes objects_all: "set (b_objects B) = UNIV"
    and start_present: "b_start B f s \<Longrightarrow> \<not> b_gone B s"
    and reach_safe: "object_reaches B f s \<Longrightarrow> \<not> b_failed B s"
    and gone_quiet: "object_reaches B f s \<Longrightarrow> b_gone B s \<Longrightarrow> b_outstanding B s = {#}"
    and outstanding_alive: "object_reaches B f s \<Longrightarrow> x \<in># b_outstanding B s \<Longrightarrow>
      b_alive B s (snd x) \<and> fst x < 2"
    and local_issues: "object_reaches B f s \<Longrightarrow> b_local B s t \<Longrightarrow>
      b_outstanding B s \<subseteq># b_outstanding B t"
    and complete_issues: "object_reaches B f s \<Longrightarrow> x \<in># b_outstanding B s \<Longrightarrow> b_may B s x \<Longrightarrow>
      b_outstanding B s - {#x#} \<subseteq># b_outstanding B (b_complete B x ok d s)"

section \<open>The world of a queue\<close>

text \<open>
  The objects that exist, by the number that determines their addresses, the tagged pointers the
  runtime holds, and whether one of them was ever called on anything but its own object.
\<close>

record ('s, 'tag) world =
  frames :: "(nat \<times> 's) list"
  in_flight :: "'tag multiset"
  misdelivered :: bool

definition world_init :: "('s, 'tag) world" where
  "world_init = \<lparr>frames = [], in_flight = {#}, misdelivered = False\<rparr>"

definition pointers :: "(nat \<Rightarrow> 'p \<Rightarrow> 'tag) \<Rightarrow> (nat \<Rightarrow> 'o \<Rightarrow> 'p) \<Rightarrow> nat \<Rightarrow> (nat \<times> 'o) multiset \<Rightarrow> 'tag multiset" where
  "pointers ptr_tag addr f M = image_mset (\<lambda>(i, a). ptr_tag i (addr f a)) M"

text \<open>The part that exists at an address.\<close>

fun owner :: "(nat \<Rightarrow> 'o \<Rightarrow> 'p) \<Rightarrow> ('s, 'o, 'd) behaviour \<Rightarrow> 'p \<Rightarrow> (nat \<times> 's) list \<Rightarrow> (nat \<times> 's \<times> 'o) option" where
  "owner addr B p [] = None"
| "owner addr B p ((f, s) # fs) =
     (case find (\<lambda>a. b_alive B s a \<and> addr f a = p) (b_objects B) of
        Some a \<Rightarrow> Some (f, s, a)
      | None \<Rightarrow> owner addr B p fs)"

fun put :: "nat \<Rightarrow> 's list \<Rightarrow> (nat \<times> 's) list \<Rightarrow> (nat \<times> 's) list" where
  "put f r [] = []"
| "put f r ((g, s) # fs) = (if g = f then map (Pair f) r @ fs else (g, s) # put f r fs)"

text \<open>An object changes to \<open>t\<close>; of its tags those in \<open>M\<close> are with the runtime already.\<close>

definition become ::
  "(nat \<Rightarrow> 'p \<Rightarrow> 'tag) \<Rightarrow> (nat \<Rightarrow> 'o \<Rightarrow> 'p) \<Rightarrow> ('s, 'o, 'd) behaviour \<Rightarrow> nat \<Rightarrow> (nat \<times> 'o) multiset \<Rightarrow> 's \<Rightarrow>
     ('s, 'tag) world \<Rightarrow> ('s, 'tag) world" where
  "become ptr_tag addr B f M t W =
     W\<lparr>frames := put f (if b_gone B t then [] else [t]) (frames W),
       in_flight := in_flight W + pointers ptr_tag addr f (b_outstanding B t - M)\<rparr>"

text \<open>\<open>i->handle_event(t, ok)\<close> through the pointer the loop untagged.\<close>

definition serve ::
  "(nat \<Rightarrow> 'p \<Rightarrow> 'tag) \<Rightarrow> (nat \<Rightarrow> 'o \<Rightarrow> 'p) \<Rightarrow> ('s, 'o, 'd) behaviour \<Rightarrow> 'd \<Rightarrow> ('p, ('s, 'tag) world) handlers" where
  "serve ptr_tag addr B d p i ok W =
     (case owner addr B p (frames W) of
        None \<Rightarrow> W\<lparr>misdelivered := True\<rparr>
      | Some (f, s, a) \<Rightarrow>
          if (i, a) \<in># b_outstanding B s then
            become ptr_tag addr B f (b_outstanding B s - {#(i, a)#}) (b_complete B (i, a) ok d s) W
          else W\<lparr>misdelivered := True\<rparr>)"

definition permitted ::
  "('tag \<Rightarrow> 'p option \<times> nat) \<Rightarrow> (nat \<Rightarrow> 'o \<Rightarrow> 'p) \<Rightarrow> ('s, 'o, 'd) behaviour \<Rightarrow> 'tag \<Rightarrow> ('s, 'tag) world \<Rightarrow> bool" where
  "permitted ptr_untag addr B w W =
     (case ptr_untag w of
        (Some p, i) \<Rightarrow> (case owner addr B p (frames W) of Some (f, s, a) \<Rightarrow> b_may B s (i, a) | None \<Rightarrow> True)
      | (None, i) \<Rightarrow> True)"

text \<open>Storage for object \<open>f\<close> does not overlap that of an object that exists.\<close>

definition apart :: "(nat \<Rightarrow> 'o \<Rightarrow> 'p) \<Rightarrow> 'o list \<Rightarrow> nat \<Rightarrow> nat \<Rightarrow> bool" where
  "apart addr parts f g \<longleftrightarrow> (\<forall>a \<in> set parts. \<forall>b \<in> set parts. addr f a \<noteq> addr g b)"

text \<open>
  Objects are made and act in any order; the loop takes what the queue returns, one iteration at a
  time.
\<close>

inductive world_step ::
  "(nat \<Rightarrow> 'p \<Rightarrow> 'tag) \<Rightarrow> ('tag \<Rightarrow> 'p option \<times> nat) \<Rightarrow> (nat \<Rightarrow> 'o \<Rightarrow> 'p) \<Rightarrow> ('s, 'o, 'd) behaviour \<Rightarrow>
     ('s, 'tag) world \<Rightarrow> ('s, 'tag) world \<Rightarrow> bool"
  for ptr_tag ptr_untag addr B where
  spawn: "b_start B f s \<Longrightarrow> list_all (apart addr (b_objects B) f) (map fst (frames W)) \<Longrightarrow>
     world_step ptr_tag ptr_untag addr B W
       (W\<lparr>frames := (f, s) # frames W,
          in_flight := in_flight W + pointers ptr_tag addr f (b_outstanding B s)\<rparr>)"
| acts: "(f, s) \<in> set (frames W) \<Longrightarrow> b_local B s t \<Longrightarrow>
     world_step ptr_tag ptr_untag addr B W (become ptr_tag addr B f (b_outstanding B s) t W)"
| dispatch: "w \<in># in_flight W \<Longrightarrow> permitted ptr_untag addr B w W \<Longrightarrow>
     world_step ptr_tag ptr_untag addr B W
       (server_event_loop ptr_untag (serve ptr_tag addr B d) [(w, ok)]
          (W\<lparr>in_flight := in_flight W - {#w#}\<rparr>))"

abbreviation "world_reaches ptr_tag ptr_untag addr B W \<equiv>
  (world_step ptr_tag ptr_untag addr B)\<^sup>*\<^sup>* world_init W"

text \<open>What the objects that exist are waiting for.\<close>

definition awaited_pointers ::
  "(nat \<Rightarrow> 'p \<Rightarrow> 'tag) \<Rightarrow> (nat \<Rightarrow> 'o \<Rightarrow> 'p) \<Rightarrow> ('s, 'o, 'd) behaviour \<Rightarrow> (nat \<times> 's) list \<Rightarrow> 'tag multiset" where
  "awaited_pointers ptr_tag addr B fs =
     sum_list (map (\<lambda>(f, s). pointers ptr_tag addr f (b_outstanding B s)) fs)"

section \<open>Lists of objects\<close>

lemma split_frame:
  "(f, s) \<in> set fs \<Longrightarrow> distinct (map fst fs) \<Longrightarrow>
     \<exists>xs ys. fs = xs @ (f, s) # ys \<and> f \<notin> fst ` set xs \<and> f \<notin> fst ` set ys"
  by (auto dest!: split_list simp: image_def) blast

lemma put_split: "f \<notin> fst ` set xs \<Longrightarrow> put f r (xs @ (f, s) # ys) = xs @ map (Pair f) r @ ys"
  by (induction xs) auto

lemma owner_SomeD:
  "owner addr B p fs = Some (f, s, a) \<Longrightarrow> (f, s) \<in> set fs \<and> b_alive B s a \<and> addr f a = p"
  by (induction addr B p fs rule: owner.induct)
     (auto simp: find_Some_iff split: option.splits)

lemma owner_NoneD:
  "owner addr B p fs = None \<Longrightarrow> (f, s) \<in> set fs \<Longrightarrow> a \<in> set (b_objects B) \<Longrightarrow> b_alive B s a \<Longrightarrow> addr f a \<noteq> p"
  by (induction addr B p fs rule: owner.induct)
     (auto simp: find_None_iff split: option.splits)

lemma pointers_simps [simp]:
  "pointers ptr_tag addr f {#} = {#}"
  "pointers ptr_tag addr f (M + N) = pointers ptr_tag addr f M + pointers ptr_tag addr f N"
  by (simp_all add: pointers_def)

lemma awaited_simps [simp]:
  "awaited_pointers ptr_tag addr B [] = {#}"
  "awaited_pointers ptr_tag addr B ((f, s) # fs) =
     pointers ptr_tag addr f (b_outstanding B s) + awaited_pointers ptr_tag addr B fs"
  "awaited_pointers ptr_tag addr B (xs @ ys) = awaited_pointers ptr_tag addr B xs + awaited_pointers ptr_tag addr B ys"
  by (simp_all add: awaited_pointers_def)

lemma awaited_member:
  "w \<in># awaited_pointers ptr_tag addr B fs \<Longrightarrow>
     \<exists>f s i a. (f, s) \<in> set fs \<and> (i, a) \<in># b_outstanding B s \<and> w = ptr_tag i (addr f a)"
  by (induction fs) (auto simp: pointers_def, blast+)

lemma pointers_diff:
  "M \<subseteq># N \<Longrightarrow> pointers ptr_tag addr f (N - M) + pointers ptr_tag addr f M = pointers ptr_tag addr f N"
  by (metis pointers_simps(2) subset_mset.diff_add)

section \<open>Objects in a world\<close>

text \<open>
  The addresses of the parts: each can be tagged, and two parts of one object that exist at the same
  time have different addresses. Parts that never exist together may share storage.
\<close>

locale served_world = served B + tagged_pointers ptr_tag as_void ptr_untag taggable n_tags
  for B :: "('s, 'o, 'd) behaviour"
    and ptr_tag :: "nat \<Rightarrow> 'p \<Rightarrow> 'tag" and as_void ptr_untag taggable n_tags +
  fixes addr :: "nat \<Rightarrow> 'o \<Rightarrow> 'p"
  assumes addr_taggable: "taggable (addr f a)"
    and addr_distinct: "object_reaches B f s \<Longrightarrow> b_alive B s a \<Longrightarrow> b_alive B s b \<Longrightarrow>
      addr f a = addr f b \<Longrightarrow> a = b"
begin

definition disjoint_frames :: "(nat \<times> 's) list \<Rightarrow> bool" where
  "disjoint_frames fs \<longleftrightarrow> distinct (map fst fs) \<and>
     (\<forall>f \<in> fst ` set fs. \<forall>g \<in> fst ` set fs. f \<noteq> g \<longrightarrow> apart addr (b_objects B) f g)"

definition world_inv :: "('s, 'tag) world \<Rightarrow> bool" where
  "world_inv W \<longleftrightarrow> \<not> misdelivered W \<and> disjoint_frames (frames W) \<and>
     in_flight W = awaited_pointers ptr_tag addr B (frames W) \<and>
     (\<forall>(f, s) \<in> set (frames W). object_reaches B f s \<and> \<not> b_gone B s)"

lemma apart_sym: "apart addr parts f g \<Longrightarrow> apart addr parts g f"
  by (auto simp: apart_def) metis

lemma apart_irrefl: "\<not> apart addr (b_objects B) f f"
proof -
  obtain a where "a \<in> set (b_objects B)" using objects_all by blast
  then show ?thesis by (auto simp: apart_def)
qed

lemma owner_unique:
  assumes "disjoint_frames fs" and "(f, s) \<in> set fs" and "b_alive B s a" and "object_reaches B f s"
  shows "owner addr B (addr f a) fs = Some (f, s, a)"
proof (cases "owner addr B (addr f a) fs")
  case None
  then have "addr f a \<noteq> addr f a"
    by (rule owner_NoneD [OF _ assms(2) _ assms(3)]) (simp add: objects_all)
  then show ?thesis by simp
next
  case (Some r)
  moreover obtain g t b where r: "r = (g, t, b)" by (cases r)
  ultimately have g: "(g, t) \<in> set fs" "b_alive B t b" "addr g b = addr f a" using owner_SomeD [of addr B "addr f a" fs g t b] by simp_all
  have "g = f"
  proof (rule ccontr)
    assume "g \<noteq> f"
    moreover have "g \<in> fst ` set fs" "f \<in> fst ` set fs" using g(1) assms(2) by force+
    ultimately have "apart addr (b_objects B) g f" using assms(1) unfolding disjoint_frames_def by blast
    then show False using g(3) objects_all by (auto simp: apart_def)
  qed
  moreover have "t = s"
    using g(1) assms(1,2) \<open>g = f\<close> by (auto simp: disjoint_frames_def dest: eq_key_imp_eq_value)
  ultimately have "b = a" using addr_distinct [OF assms(4) _ assms(3)] g(2,3) by blast
  with Some r \<open>g = f\<close> \<open>t = s\<close> show ?thesis by simp
qed

text \<open>An object that changes, given the tags that are with the runtime already.\<close>

lemma become_keeps_inv:
  assumes W: "disjoint_frames (frames W)" "\<not> misdelivered W"
      "\<forall>(g, t) \<in> set (frames W). object_reaches B g t \<and> \<not> b_gone B t"
    and fs: "frames W = xs @ (f, s) # ys"
    and fl: "in_flight W = awaited_pointers ptr_tag addr B xs + pointers ptr_tag addr f M +
      awaited_pointers ptr_tag addr B ys"
    and t: "object_reaches B f t" "M \<subseteq># b_outstanding B t"
  shows "world_inv (become ptr_tag addr B f M t W)"
proof -
  have nin: "f \<notin> fst ` set xs" using W(1) fs by (auto simp: disjoint_frames_def)
  have fr: "frames (become ptr_tag addr B f M t W) = xs @ (if b_gone B t then [] else [(f, t)]) @ ys"
    by (simp add: become_def fs put_split [OF nin])
  have quiet: "b_outstanding B t = {#}" if "b_gone B t" using gone_quiet [OF t(1) that] .
  have "disjoint_frames (xs @ (if b_gone B t then [] else [(f, t)]) @ ys)"
    using W(1) unfolding disjoint_frames_def fs by auto
  moreover have "in_flight (become ptr_tag addr B f M t W) =
      awaited_pointers ptr_tag addr B (xs @ (if b_gone B t then [] else [(f, t)]) @ ys)"
    using pointers_diff [OF t(2), of ptr_tag addr f] quiet
    by (simp add: become_def fl ac_simps)
  moreover have "misdelivered (become ptr_tag addr B f M t W) = misdelivered W"
    by (simp add: become_def)
  moreover have "\<forall>(g, u) \<in> set (xs @ (if b_gone B t then [] else [(f, t)]) @ ys).
      object_reaches B g u \<and> \<not> b_gone B u"
    using W(3) t(1) by (auto simp: fs)
  ultimately show ?thesis using W(2) unfolding world_inv_def fr by simp
qed

text \<open>Every pointer the runtime holds leads to a part that exists and issued the operation.\<close>

lemma in_flight_has_owner:
  assumes "world_inv W" and "w \<in># in_flight W"
  obtains f s i a where "(f, s) \<in> set (frames W)" "(i, a) \<in># b_outstanding B s" "w = ptr_tag i (addr f a)"
    "object_reaches B f s" "ptr_untag w = (Some (addr f a), i)"
    "owner addr B (addr f a) (frames W) = Some (f, s, a)"
proof -
  have "w \<in># awaited_pointers ptr_tag addr B (frames W)" using assms by (simp add: world_inv_def)
  from awaited_member [OF this] obtain f s i a
    where f: "(f, s) \<in> set (frames W)" "(i, a) \<in># b_outstanding B s" "w = ptr_tag i (addr f a)" by blast
  have r: "object_reaches B f s" using assms(1) f(1) by (auto simp: world_inv_def)
  have al: "b_alive B s a" "i < 2" using outstanding_alive [OF r f(2)] by simp_all
  have "ptr_untag w = (Some (addr f a), i)"
    using f(3) al(2) two_tags by (simp add: untag_tag addr_taggable)
  moreover have "owner addr B (addr f a) (frames W) = Some (f, s, a)"
    using assms(1) f(1) al(1) r by (intro owner_unique) (simp_all add: world_inv_def)
  ultimately show ?thesis using that f r by blast
qed

lemma loop_iteration:
  assumes "ptr_untag w = (Some p, i)"
  shows "server_event_loop ptr_untag h [(w, ok)] W = h p i ok W"
  by (simp add: assms)

lemma step_keeps_inv:
  assumes "world_step ptr_tag ptr_untag addr B W V" and "world_inv W"
  shows "world_inv V"
  using assms(1)
proof cases
  case (spawn f s)
  have "f \<notin> fst ` set (frames W)"
    using spawn(3) apart_irrefl [of f] by (auto simp: list_all_iff)
  moreover have "object_reaches B f s" using spawn(2) by (rule object_reaches.starts)
  ultimately show ?thesis
    using assms(2) spawn start_present [OF spawn(2)] apart_sym
    by (auto simp: world_inv_def disjoint_frames_def list_all_iff add.commute)
next
  case (acts f s t)
  have r: "object_reaches B f s" using assms(2) acts(2) by (auto simp: world_inv_def)
  have d: "distinct (map fst (frames W))" using assms(2) by (simp add: world_inv_def disjoint_frames_def)
  obtain xs ys where fs: "frames W = xs @ (f, s) # ys" using split_frame [OF acts(2) d] by blast
  show ?thesis unfolding acts(1)
  proof (rule become_keeps_inv [OF _ _ _ fs])
    show "object_reaches B f t" using r acts(3) by (rule object_reaches.moves)
    show "b_outstanding B s \<subseteq># b_outstanding B t" using local_issues [OF r acts(3)] .
  qed (use assms(2) fs in \<open>auto simp: world_inv_def\<close>)
next
  case (dispatch w d ok)
  obtain f s i a where f: "(f, s) \<in> set (frames W)" "(i, a) \<in># b_outstanding B s" "w = ptr_tag i (addr f a)"
      and r: "object_reaches B f s" and u: "ptr_untag w = (Some (addr f a), i)"
      and o: "owner addr B (addr f a) (frames W) = Some (f, s, a)"
    by (rule in_flight_has_owner [OF assms(2) dispatch(2)])
  have may: "b_may B s (i, a)" using dispatch(3) u o by (simp add: permitted_def)
  have dist: "distinct (map fst (frames W))" using assms(2) by (simp add: world_inv_def disjoint_frames_def)
  obtain xs ys where fs: "frames W = xs @ (f, s) # ys" using split_frame [OF f(1) dist] by blast
  let ?W = "W\<lparr>in_flight := in_flight W - {#w#}\<rparr>"
  have V: "V = become ptr_tag addr B f (b_outstanding B s - {#(i, a)#}) (b_complete B (i, a) ok d s) ?W"
    unfolding dispatch(1) loop_iteration [OF u] by (simp add: serve_def o f(2))
  show ?thesis unfolding V
  proof (rule become_keeps_inv)
    show "frames ?W = xs @ (f, s) # ys" using fs by simp
    have "pointers ptr_tag addr f (b_outstanding B s) =
        add_mset w (pointers ptr_tag addr f (b_outstanding B s - {#(i, a)#}))"
      using pointers_simps(2) [of ptr_tag addr f "b_outstanding B s - {#(i, a)#}" "{#(i, a)#}"] f(2,3)
      by (simp add: pointers_def)
    then show "in_flight ?W = awaited_pointers ptr_tag addr B xs +
        pointers ptr_tag addr f (b_outstanding B s - {#(i, a)#}) + awaited_pointers ptr_tag addr B ys"
      using assms(2) fs by (simp add: world_inv_def)
    show "object_reaches B f (b_complete B (i, a) ok d s)"
      using r f(2) may by (rule object_reaches.completes)
    show "b_outstanding B s - {#(i, a)#} \<subseteq># b_outstanding B (b_complete B (i, a) ok d s)"
      using complete_issues [OF r f(2) may] .
  qed (use assms(2) in \<open>auto simp: world_inv_def\<close>)
qed

lemma world_reaches_inv: "world_reaches ptr_tag ptr_untag addr B W \<Longrightarrow> world_inv W"
proof (erule rtranclp_invariant)
  show "world_inv world_init" by (simp add: world_inv_def world_init_def disjoint_frames_def)
qed (rule step_keeps_inv)

end

section \<open>Two kinds of objects\<close>

text \<open>Objects of two kinds behind the same loop; what the runtime writes is meant for one of them.\<close>

fun inject :: "('o \<Rightarrow> 'u) \<Rightarrow> nat \<times> 'o \<Rightarrow> nat \<times> 'u" where
  "inject g (i, a) = (i, g a)"

definition both :: "('s, 'o, 'd) behaviour \<Rightarrow> ('t, 'u, 'e) behaviour \<Rightarrow> ('s + 't, 'o + 'u, 'd \<times> 'e) behaviour" where
  "both B C = \<lparr>
     b_objects = map Inl (b_objects B) @ map Inr (b_objects C),
     b_start = (\<lambda>f x. case x of Inl s \<Rightarrow> b_start B f s | Inr t \<Rightarrow> b_start C f t),
     b_local = (\<lambda>x y. case (x, y) of (Inl s, Inl s') \<Rightarrow> b_local B s s'
       | (Inr t, Inr t') \<Rightarrow> b_local C t t' | _ \<Rightarrow> False),
     b_alive = (\<lambda>x a. case (x, a) of (Inl s, Inl a) \<Rightarrow> b_alive B s a | (Inr t, Inr a) \<Rightarrow> b_alive C t a
       | _ \<Rightarrow> False),
     b_gone = (\<lambda>x. case x of Inl s \<Rightarrow> b_gone B s | Inr t \<Rightarrow> b_gone C t),
     b_failed = (\<lambda>x. case x of Inl s \<Rightarrow> b_failed B s | Inr t \<Rightarrow> b_failed C t),
     b_outstanding = (\<lambda>x. case x of Inl s \<Rightarrow> image_mset (inject Inl) (b_outstanding B s)
       | Inr t \<Rightarrow> image_mset (inject Inr) (b_outstanding C t)),
     b_may = (\<lambda>x y. case (x, y) of (Inl s, (i, Inl a)) \<Rightarrow> b_may B s (i, a)
       | (Inr t, (i, Inr a)) \<Rightarrow> b_may C t (i, a) | _ \<Rightarrow> False),
     b_complete = (\<lambda>y ok d x. case (x, y) of (Inl s, (i, Inl a)) \<Rightarrow> Inl (b_complete B (i, a) ok (fst d) s)
       | (Inr t, (i, Inr a)) \<Rightarrow> Inr (b_complete C (i, a) ok (snd d) t) | _ \<Rightarrow> x)\<rparr>"

lemma both_simps [simp]:
  "b_start (both B C) f (Inl s) = b_start B f s" "b_start (both B C) f (Inr t) = b_start C f t"
  "b_local (both B C) (Inl s) y = (\<exists>s'. y = Inl s' \<and> b_local B s s')"
  "b_local (both B C) (Inr t) y = (\<exists>t'. y = Inr t' \<and> b_local C t t')"
  "b_alive (both B C) (Inl s) x = (\<exists>a. x = Inl a \<and> b_alive B s a)"
  "b_alive (both B C) (Inr t) x = (\<exists>a. x = Inr a \<and> b_alive C t a)"
  "b_gone (both B C) (Inl s) = b_gone B s" "b_gone (both B C) (Inr t) = b_gone C t"
  "b_failed (both B C) (Inl s) = b_failed B s" "b_failed (both B C) (Inr t) = b_failed C t"
  "b_outstanding (both B C) (Inl s) = image_mset (inject Inl) (b_outstanding B s)"
  "b_outstanding (both B C) (Inr t) = image_mset (inject Inr) (b_outstanding C t)"
  "b_may (both B C) (Inl s) (i, Inl a) = b_may B s (i, a)"
  "b_may (both B C) (Inr t) (i, Inr a') = b_may C t (i, a')"
  "b_complete (both B C) (i, Inl a) ok d (Inl s) = Inl (b_complete B (i, a) ok (fst d) s)"
  "b_complete (both B C) (i, Inr a') ok d (Inr t) = Inr (b_complete C (i, a') ok (snd d) t)"
  "b_objects (both B C) = map Inl (b_objects B) @ map Inr (b_objects C)"
  by (auto simp: both_def split: sum.splits)

lemma reaches_both:
  assumes "object_reaches (both B C) f x"
  shows "case x of Inl s \<Rightarrow> object_reaches B f s | Inr t \<Rightarrow> object_reaches C f t"
  using assms
proof (induction rule: object_reaches.induct)
  case (starts x)
  then show ?case by (cases x) (auto intro: object_reaches.starts)
next
  case (moves x y)
  then show ?case by (cases x) (auto intro: object_reaches.moves)
next
  case (completes x z ok d)
  then show ?case by (cases x) (auto intro: object_reaches.completes)
qed

lemma image_diff_single:
  "z \<in># M \<Longrightarrow> image_mset g M - {#g z#} = image_mset g (M - {#z#})"
  by (metis image_mset_Diff image_mset_single mset_subset_eq_single)

lemma inject_diff:
  "(i, a) \<in># M \<Longrightarrow> image_mset (inject g) M - {#(i, g a)#} = image_mset (inject g) (M - {#(i, a)#})"
  using image_diff_single [of "(i, a)" M "inject g"] by simp

lemma served_both:
  assumes "served B" and "served C"
  shows "served (both B C)"
proof unfold_locales
  show "set (b_objects (both B C)) = UNIV"
    using served.objects_all [OF assms(1)] served.objects_all [OF assms(2)]
    by (simp add: UNIV_sum)
next
  fix f x assume "b_start (both B C) f x"
  then show "\<not> b_gone (both B C) x"
    using served.start_present [OF assms(1)] served.start_present [OF assms(2)] by (cases x) auto
next
  fix f x assume r: "object_reaches (both B C) f x"
  show "\<not> b_failed (both B C) x"
    using reaches_both [OF r] served.reach_safe [OF assms(1)] served.reach_safe [OF assms(2)] by (cases x) auto
  show "b_outstanding (both B C) x = {#}" if "b_gone (both B C) x"
    using that reaches_both [OF r] served.gone_quiet [OF assms(1)] served.gone_quiet [OF assms(2)] by (cases x) auto
  show "b_alive (both B C) x (snd z) \<and> fst z < 2" if "z \<in># b_outstanding (both B C) x" for z
    using that reaches_both [OF r] served.outstanding_alive [OF assms(1)] served.outstanding_alive [OF assms(2)]
    by (cases x) auto
  show "b_outstanding (both B C) x \<subseteq># b_outstanding (both B C) y" if "b_local (both B C) x y" for y
    using that reaches_both [OF r]
    by (cases x) (auto intro!: image_mset_subseteq_mono served.local_issues [OF assms(1)] served.local_issues [OF assms(2)])
  show "b_outstanding (both B C) x - {#z#} \<subseteq># b_outstanding (both B C) (b_complete (both B C) z ok d x)"
    if "z \<in># b_outstanding (both B C) x" "b_may (both B C) x z" for z ok d
    using that reaches_both [OF r]
    by (cases x) (auto simp: inject_diff intro!: image_mset_subseteq_mono
        served.complete_issues [OF assms(1)] served.complete_issues [OF assms(2)])
qed

end
