(* ===== verification/Awaiter_World.thy ===== *)
theory Awaiter_World
  imports Object_World Awaiters Unary_Call
begin

text \<open>
  Awaiters that stand on their own among the objects of an event loop: one \<open>co_await\<close> of an object that
  waits for a single completion, as an interface, and the two awaiters of the library that are used
  without an object behind them, that of a unary call (\<open>call.h\<close>) and the generic one
  (\<open>generic_method_awaiter.h\<close>).
\<close>

section \<open>One co_await\<close>

text \<open>
  The awaiter is made, \<open>await_suspend\<close> is called on it, its completion arrives, \<open>await_resume\<close> is called
  in the resumed coroutine, and at the end of the expression the awaiter is destroyed.
\<close>

datatype co_place = CoCreated | CoWaiting coro_handle | CoResumed | CoEnded

record 'a co_await =
  co_place :: co_place
  co_awaiter :: 'a
  co_tags :: "nat multiset"       \<comment> \<open>the indices of its tags with the runtime\<close>
  co_failure :: "ub option"

definition co_start :: "'a \<Rightarrow> 'a co_await" where
  "co_start a = \<lparr>co_place = CoCreated, co_awaiter = a, co_tags = {#}, co_failure = None\<rparr>"

definition tags_issued :: "('op \<Rightarrow> nat list) \<Rightarrow> ('op, 'hook) eff list \<Rightarrow> nat multiset" where
  "tags_issued tags_of es = mset (concat (map tags_of (issued es)))"

definition co_suspend ::
  "(coro_handle \<Rightarrow> 'a \<Rightarrow> ub + 'a \<times> ('op, 'hook) eff list) \<Rightarrow> ('op \<Rightarrow> nat list) \<Rightarrow> coro_handle \<Rightarrow>
     'a co_await \<Rightarrow> 'a co_await" where
  "co_suspend await_suspend tags_of h s =
     (case await_suspend h (co_awaiter s) of
        Inl u \<Rightarrow> s\<lparr>co_failure := Some u\<rparr>
      | Inr (a, es) \<Rightarrow> s\<lparr>co_place := CoWaiting h, co_awaiter := a, co_tags := co_tags s + tags_issued tags_of es\<rparr>)"

definition co_complete ::
  "('m \<Rightarrow> 'a \<Rightarrow> 'a) \<Rightarrow> (nat \<Rightarrow> bool \<Rightarrow> 'a \<Rightarrow> ub + 'a \<times> ('op, 'hook) eff list) \<Rightarrow> ('op \<Rightarrow> nat list) \<Rightarrow>
     nat \<Rightarrow> bool \<Rightarrow> 'm \<Rightarrow> 'a co_await \<Rightarrow> 'a co_await" where
  "co_complete store handle_event tags_of i ok m s =
     (case handle_event i ok (store m (co_awaiter s)) of
        Inl u \<Rightarrow> s\<lparr>co_failure := Some u\<rparr>
      | Inr (a, es) \<Rightarrow> s\<lparr>co_place := CoResumed, co_awaiter := a,
          co_tags := co_tags s - {#i#} + tags_issued tags_of es\<rparr>)"

definition co_end :: "'a co_await \<Rightarrow> 'a co_await" where
  "co_end s = s\<lparr>co_place := CoEnded\<rparr>"

text \<open>An awaiter that is never awaited is destroyed as it is.\<close>

definition co_local ::
  "(coro_handle \<Rightarrow> 'a \<Rightarrow> ub + 'a \<times> ('op, 'hook) eff list) \<Rightarrow> ('op \<Rightarrow> nat list) \<Rightarrow>
     'a co_await \<Rightarrow> 'a co_await \<Rightarrow> bool" where
  "co_local await_suspend tags_of s t \<longleftrightarrow>
     (co_place s = CoCreated \<and> (\<exists>h. t = co_suspend await_suspend tags_of h s)) \<or>
     (co_place s \<in> {CoCreated, CoResumed} \<and> t = co_end s)"

definition co_await_behaviour ::
  "('a \<Rightarrow> bool) \<Rightarrow> (coro_handle \<Rightarrow> 'a \<Rightarrow> ub + 'a \<times> ('op, 'hook) eff list) \<Rightarrow> ('m \<Rightarrow> 'a \<Rightarrow> 'a) \<Rightarrow>
     (nat \<Rightarrow> bool \<Rightarrow> 'a \<Rightarrow> ub + 'a \<times> ('op, 'hook) eff list) \<Rightarrow> ('op \<Rightarrow> nat list) \<Rightarrow>
     ('a co_await, unit, 'm) behaviour" where
  "co_await_behaviour can_issue await_suspend store handle_event tags_of = \<lparr>
     b_objects = [()],
     b_start = (\<lambda>f s. \<exists>a. can_issue a \<and> s = co_start a),
     b_local = co_local await_suspend tags_of,
     b_alive = (\<lambda>s a. co_place s \<noteq> CoEnded),
     b_gone = (\<lambda>s. co_place s = CoEnded),
     b_failed = (\<lambda>s. co_failure s \<noteq> None),
     b_outstanding = (\<lambda>s. image_mset (\<lambda>i. (i, ())) (co_tags s)),
     b_may = (\<lambda>s x. True),
     b_complete = (\<lambda>x ok m s. co_complete store handle_event tags_of (fst x) ok m s)\<rparr>"

section \<open>The interface\<close>

text \<open>
  An awaiter for one completion: the only tag it gives away is a plain pointer to itself, with the last
  operation it issues; its completion, with index 0, issues nothing and resumes the coroutine.
\<close>

locale one_completion =
  fixes can_issue :: "'a \<Rightarrow> bool"
    and await_suspend :: "coro_handle \<Rightarrow> 'a \<Rightarrow> ub + 'a \<times> ('op, 'hook) eff list"
    and store :: "'m \<Rightarrow> 'a \<Rightarrow> 'a"
    and handle_event :: "nat \<Rightarrow> bool \<Rightarrow> 'a \<Rightarrow> ub + 'a \<times> ('op, 'hook) eff list"
    and tags_of :: "'op \<Rightarrow> nat list"
    and armed :: "coro_handle \<Rightarrow> 'a \<Rightarrow> bool"
  assumes suspends: "can_issue a \<Longrightarrow> \<exists>a' es op. await_suspend h a = Inr (a', es @ [Issue op]) \<and>
      tags_issued tags_of es = {#} \<and> tags_of op = [0] \<and> armed h a'"
    and store_armed: "armed h a \<Longrightarrow> armed h (store m a)"
    and event_resumes: "armed h a \<Longrightarrow> \<exists>a' es. handle_event 0 ok a = Inr (a', es @ [ResumeCoro h]) \<and> issued es = []"
begin

definition co_inv :: "'a co_await \<Rightarrow> bool" where
  "co_inv s \<longleftrightarrow> co_failure s = None \<and>
     (case co_place s of
        CoCreated \<Rightarrow> can_issue (co_awaiter s) \<and> co_tags s = {#}
      | CoWaiting h \<Rightarrow> armed h (co_awaiter s) \<and> co_tags s = {#0#}
      | _ \<Rightarrow> co_tags s = {#})"

lemma suspend_keeps: "co_inv s \<Longrightarrow> co_place s = CoCreated \<Longrightarrow> co_inv (co_suspend await_suspend tags_of h s)"
  using suspends [of "co_awaiter s" h] by (auto simp: co_inv_def co_suspend_def tags_issued_def)

lemma complete_keeps:
  assumes "co_inv s" and "i \<in># co_tags s"
  shows "co_inv (co_complete store handle_event tags_of i ok m s) \<and> i = 0"
proof -
  obtain h where "co_place s = CoWaiting h" "armed h (co_awaiter s)" "co_tags s = {#0#}"
    using assms by (cases "co_place s") (auto simp: co_inv_def)
  then show ?thesis
    using assms event_resumes [OF store_armed [of h "co_awaiter s" m], of ok]
    by (auto simp: co_inv_def co_complete_def tags_issued_def)
qed

abbreviation "awaiting \<equiv> co_await_behaviour can_issue await_suspend store handle_event tags_of"

lemma co_reaches_inv: "object_reaches awaiting f s \<Longrightarrow> co_inv s"
proof (induction rule: object_reaches.induct)
  case (starts s)
  then show ?case by (auto simp: co_await_behaviour_def co_start_def co_inv_def)
next
  case (moves s t)
  then show ?case
    using suspend_keeps [of s] by (auto simp: co_await_behaviour_def co_local_def co_end_def co_inv_def)
next
  case (completes s x ok m)
  then have "fst x \<in># co_tags s" by (auto simp: co_await_behaviour_def)
  from complete_keeps [OF completes.IH this, of ok m, THEN conjunct1] show ?case by (simp add: co_await_behaviour_def)
qed

lemma suspend_more_tags: "co_tags s \<subseteq># co_tags (co_suspend await_suspend tags_of h s)"
  by (auto simp: co_suspend_def split: sum.splits)

lemma local_more_tags: "co_local await_suspend tags_of s t \<Longrightarrow> co_tags s \<subseteq># co_tags t"
  using suspend_more_tags by (auto simp: co_local_def co_end_def)

lemma complete_more_tags: "co_tags s - {#i#} \<subseteq># co_tags (co_complete store handle_event tags_of i ok m s)"
  by (auto simp: co_complete_def split: sum.splits)

lemma awaiting_served: "served awaiting"
proof unfold_locales
  fix f s assume r: "object_reaches awaiting f s"
  note inv = co_reaches_inv [OF r]
  show "\<not> b_failed awaiting s" using inv by (simp add: co_await_behaviour_def co_inv_def)
  show "b_outstanding awaiting s = {#}" if "b_gone awaiting s"
    using that inv by (simp add: co_await_behaviour_def co_inv_def)
  show "b_alive awaiting s (snd x) \<and> fst x < 2" if "x \<in># b_outstanding awaiting s" for x
    using that inv by (cases "co_place s") (auto simp: co_await_behaviour_def co_inv_def)
  show "b_outstanding awaiting s \<subseteq># b_outstanding awaiting t" if "b_local awaiting s t" for t
    using that local_more_tags by (auto simp: co_await_behaviour_def intro: image_mset_subseteq_mono)
  show "b_outstanding awaiting s - {#x#} \<subseteq># b_outstanding awaiting (b_complete awaiting x ok m s)"
    if x: "x \<in># b_outstanding awaiting s" for x ok m
  proof -
    obtain i where i: "x = (i, ())" "i \<in># co_tags s" using x by (auto simp: co_await_behaviour_def)
    show ?thesis
      using image_mset_subseteq_mono [OF complete_more_tags, of "\<lambda>i. (i, ())" s i ok m]
        image_diff_single [OF i(2), of "\<lambda>i. (i, ())"]
      by (simp add: co_await_behaviour_def i(1))
  qed
qed (auto simp: co_await_behaviour_def co_start_def)

end

sublocale one_completion \<subseteq> served awaiting
  by (rule awaiting_served)

section \<open>The awaiters of the library\<close>

text \<open>The reader the stub returns to a unary call is chosen with the awaiter.\<close>

fun unary_tags :: "'req unary_op \<Rightarrow> nat list" where
  "unary_tags (UnaryStart x req cq) = []"
| "unary_tags (UnaryFinish x tag) = [fst tag]"

definition unary_behaviour :: "((reader_id \<times> ('req, 'resp) unary_awaiter) co_await, unit, 'resp \<times> status) behaviour" where
  "unary_behaviour = co_await_behaviour (\<lambda>xa. True)
     (\<lambda>h (x, a). case unary_await_suspend x h a of (a, es) \<Rightarrow> Inr ((x, a), es))
     (\<lambda>(resp, st) (x, a). (x, receive_response resp st a))
     (\<lambda>i ok (x, a). case unary_handle_event i ok a of Inl u \<Rightarrow> Inl u | Inr (a, es) \<Rightarrow> Inr ((x, a), es))
     unary_tags"

interpretation unary: one_completion
  "\<lambda>xa. True"
  "\<lambda>h (x, a). case unary_await_suspend x h a of (a, es) \<Rightarrow> Inr ((x, a), es)"
  "\<lambda>(resp, st) (x, a). (x, receive_response resp st a)"
  "\<lambda>i ok (x, a). case unary_handle_event i ok a of Inl u \<Rightarrow> Inl u | Inr (a, es) \<Rightarrow> Inr ((x, a), es)"
  unary_tags "\<lambda>h xa. u_handle (snd xa) = Some h"
  rewrites "co_await_behaviour (\<lambda>xa. True)
     (\<lambda>h (x, a). case unary_await_suspend x h a of (a, es) \<Rightarrow> Inr ((x, a), es))
     (\<lambda>(resp, st) (x, a). (x, receive_response resp st a))
     (\<lambda>i ok (x, a). case unary_handle_event i ok a of Inl u \<Rightarrow> Inl u | Inr (a, es) \<Rightarrow> Inr ((x, a), es))
     unary_tags = unary_behaviour"
  by unfold_locales
     (auto simp: unary_await_suspend_def unary_handle_event_def receive_response_def tags_issued_def
       unary_behaviour_def Let_def intro!: exI [of _ "[]"])

text \<open>
  The generic awaiter passes its own address, \<open>None\<close>, as the last argument; the arguments it was given
  are other values.
\<close>

fun generic_tags :: "('fn, 'arg option) generic_op \<Rightarrow> nat list" where
  "generic_tags (Apply f args) = map (\<lambda>_. 0) (filter (\<lambda>arg. arg = None) args)"

abbreviation foreign_args :: "('fn, 'arg option) generic_awaiter \<Rightarrow> bool" where
  "foreign_args a \<equiv> list_all (\<lambda>arg. arg \<noteq> None) (m_args a)"

type_synonym ('fn, 'arg) generic_result =
  "ub + ('fn, 'arg option) generic_awaiter \<times> (('fn, 'arg option) generic_op, unit) eff list"

definition generic_behaviour :: "(('fn, 'arg option) generic_awaiter co_await, unit, unit) behaviour" where
  "generic_behaviour = co_await_behaviour foreign_args
     (\<lambda>h a. Inr (generic_await_suspend None h a) :: ('fn, 'arg) generic_result) (\<lambda>m. id) generic_handle_event
     generic_tags"

lemma no_foreign_tags: "foreign_args a \<Longrightarrow> filter (\<lambda>arg. arg = None) (m_args a) = []"
  by (induction "m_args a") (auto simp: list_all_iff filter_empty_conv)

interpretation generic: one_completion
  foreign_args "\<lambda>h a. Inr (generic_await_suspend None h a) :: ('fn, 'arg) generic_result" "\<lambda>_ :: unit. id"
  generic_handle_event generic_tags "\<lambda>h a. m_handle a = Some h"
  rewrites "co_await_behaviour foreign_args
     (\<lambda>h a. Inr (generic_await_suspend None h a) :: ('fn, 'arg) generic_result) (\<lambda>_ :: unit. id)
     generic_handle_event generic_tags = generic_behaviour"
  by unfold_locales
     (auto simp: generic_await_suspend_def generic_handle_event_def tags_issued_def no_foreign_tags
       generic_behaviour_def Let_def intro!: exI [of _ "[]"])

end
