(* ===== verification/Program_World.thy ===== *)
theory Program_World
  imports Awaiter_World Task_Correct Streaming_Inv Dispatchers
begin

text \<open>
  The program's own objects behind one event loop: server tasks of any method, streaming calls, both
  dispatchers, unary calls and generic awaiters keep the contract of served objects, so that any number
  of them can share a completion queue. What is proved of one object alone holds of each of them there.
\<close>

section \<open>Server tasks\<close>

text \<open>Nothing but the frame's own steps: no completion may be delivered.\<close>

definition no_completion :: queue_order where
  "no_completion out tag \<longleftrightarrow> False"

text \<open>A task of method kind \<open>T\<close> on a queue that keeps to an order of tags; its frame is at its handle.\<close>

definition task_behaviour ::
  "queue_order \<Rightarrow> ('req, 'resp) task_hooks \<Rightarrow> 'req \<Rightarrow> (rpc_method_type \<times> ('req, 'resp) sys, calldata, bool \<times> 'req) behaviour" where
  "task_behaviour order hooks cleared = \<lparr>
     b_objects = [PromiseObj, InitialAwaiter, OpAwaiter, FinalAwaiter],
     b_start = (\<lambda>f (T, s). \<exists>req resp. s = initial_sys T cleared f req resp),
     b_local = (\<lambda>(T, s) (T', t). T' = T \<and> task_step T hooks cleared no_completion s t),
     b_alive = (\<lambda>(T, s). object_alive (coro (tsk s))),
     b_gone = (\<lambda>(T, s). coro (tsk s) = Destroyed),
     b_failed = (\<lambda>(T, s). failure s \<noteq> None),
     b_outstanding = (\<lambda>(T, s). outstanding s),
     b_may = (\<lambda>(T, s). order (outstanding s)),
     b_complete = (\<lambda>tag ok (cancelled, msg) (T, s).
       (T, deliver T hooks cleared tag \<lparr>d_ok = ok, d_cancelled = cancelled, d_message = msg\<rparr> s))\<rparr>"

lemma local_task_step:
  "task_step T hooks cleared no_completion s t \<Longrightarrow> task_step T hooks cleared order s t"
  by (erule task_step.cases) (auto simp: no_completion_def intro: task_step.intros)

lemma task_local_issues:
  "task_step T hooks cleared no_completion s t \<Longrightarrow> outstanding s \<subseteq># outstanding t"
  by (erule task_step.cases) (auto simp: no_completion_def absorb_def split: sum.splits)

lemma deliver_issues: "outstanding s - {#tag#} \<subseteq># outstanding (deliver T hooks cleared tag d s)"
  by (auto simp: deliver_def absorb_def split: sum.splits)

lemma task_object_reaches:
  assumes "object_reaches (task_behaviour order hooks cleared) f x" and "well_behaved hooks"
    and ord: "\<And>out tag. order out tag \<Longrightarrow> done_first out tag"
  shows "reaches (fst x) hooks cleared done_first (snd x)"
  using assms(1)
proof (induction rule: object_reaches.induct)
  case (starts x)
  then obtain T req resp where "x = (T, initial_sys T cleared f req resp)"
    by (cases x) (auto simp: task_behaviour_def)
  then show ?case by (simp only: fst_conv snd_conv) (rule reaches_initial)
next
  case (moves x y)
  obtain T s t where x: "x = (T, s)" "y = (T, t)" and st: "task_step T hooks cleared no_completion s t"
    using moves.hyps(2) by (cases x; cases y) (auto simp: task_behaviour_def)
  have "reaches T hooks cleared done_first s" using moves.IH by (simp only: x fst_conv snd_conv)
  from reaches_step [OF this local_task_step [OF st]] show ?case by (simp only: x fst_conv snd_conv)
next
  case (completes x tag ok d)
  obtain T s where x: "x = (T, s)" by (cases x)
  obtain cancelled msg where d: "d = (cancelled, msg)" by (cases d)
  have r: "reaches T hooks cleared done_first s" using completes.IH x by simp
  obtain ph where "alive_inv ph s" using reaches_settled [OF r assms(2)] by blast
  then have "failure s = None" by (simp add: alive_inv_def life_at_def)
  with completes.hyps have "task_step T hooks cleared done_first s
      (deliver T hooks cleared tag \<lparr>d_ok = ok, d_cancelled = cancelled, d_message = msg\<rparr> s)"
    by (intro task_step.completion) (simp_all add: task_behaviour_def x ord)
  from reaches_step [OF r this] show ?case by (simp add: task_behaviour_def x d)
qed

lemma task_outstanding_alive:
  assumes "alive_inv ph s" and "settled ph s" and "x \<in># outstanding s"
  shows "object_alive (coro (tsk s)) (snd x) \<and> fst x < 2"
proof -
  have l: "life_at ph s" using assms(1) by (simp add: alive_inv_def)
  from outstanding_cases [OF l assms(3)] show ?thesis
  proof
    assume x: "x = done_tag"
    then have "ph \<noteq> Gone" using assms(2,3) by (auto simp: settled_def)
    then show ?thesis using l x by (cases ph) (simp_all add: life_at_def done_tag_def)
  next
    assume "awaited ph = {#x#}"
    then show ?thesis using l by (cases ph) (auto simp: life_at_def tag_defs)
  qed
qed

lemma task_served:
  assumes "well_behaved hooks" and ord: "\<And>out tag. order out tag \<Longrightarrow> done_first out tag"
  shows "served (task_behaviour order hooks cleared)"
proof unfold_locales
  show "set (b_objects (task_behaviour order hooks cleared)) = UNIV"
    by (auto simp: task_behaviour_def) (metis calldata.exhaust)
next
  fix f x assume "b_start (task_behaviour order hooks cleared) f x"
  then obtain T req resp where x: "x = (T, initial_sys T cleared f req resp)"
    by (cases x) (auto simp: task_behaviour_def)
  show "\<not> b_gone (task_behaviour order hooks cleared) x"
    using life_initial(1) [of T cleared f req resp] by (simp add: task_behaviour_def x life_at_def)
next
  fix f x assume r: "object_reaches (task_behaviour order hooks cleared) f x"
  obtain T s where x: "x = (T, s)" by (cases x)
  have "reaches T hooks cleared done_first s"
    using task_object_reaches [OF r assms] by (simp only: x fst_conv snd_conv)
  from reaches_settled [OF this assms(1)] obtain ph where ph: "alive_inv ph s" "settled ph s" by blast
  show "\<not> b_failed (task_behaviour order hooks cleared) x"
    using ph(1) by (simp add: task_behaviour_def x alive_inv_def life_at_def)
  show al: "b_alive (task_behaviour order hooks cleared) x (snd z) \<and> fst z < 2"
    if "z \<in># b_outstanding (task_behaviour order hooks cleared) x" for z
    using that task_outstanding_alive [OF ph] by (simp add: task_behaviour_def x)
  show "b_outstanding (task_behaviour order hooks cleared) x = {#}" if "b_gone (task_behaviour order hooks cleared) x"
  proof (rule multiset_eqI, rule ccontr)
    fix z assume "Multiset.count (b_outstanding (task_behaviour order hooks cleared) x) z \<noteq> Multiset.count {#} z"
    then have "z \<in># b_outstanding (task_behaviour order hooks cleared) x"
      by (metis count_empty not_in_iff)
    from al [OF this] that show False by (cases "snd z") (simp_all add: task_behaviour_def x)
  qed
  show "b_outstanding (task_behaviour order hooks cleared) x \<subseteq># b_outstanding (task_behaviour order hooks cleared) y"
    if "b_local (task_behaviour order hooks cleared) x y" for y
    using that task_local_issues by (cases y) (auto simp: task_behaviour_def x)
  show "b_outstanding (task_behaviour order hooks cleared) x - {#z#} \<subseteq>#
      b_outstanding (task_behaviour order hooks cleared) (b_complete (task_behaviour order hooks cleared) z ok d x)" for z ok d
    using deliver_issues by (cases d) (simp add: task_behaviour_def x)
qed

interpretation noop_tasks: served "task_behaviour done_first (noop_task_hook ndebug) cleared"
  by (rule task_served [OF noop_well_behaved])

section \<open>Streaming calls\<close>

text \<open>
  What a call does between completions, and a call under the assumptions \<open>env\<close>; all of its steps together
  are those of \<open>call_step\<close>.
\<close>

inductive call_internal :: "rpc_method_type \<Rightarrow> assumptions \<Rightarrow> 'req call_sys \<Rightarrow> 'req call_sys \<Rightarrow> bool" for T env where
  "call_failure s = None \<Longrightarrow> user_of s = Running \<Longrightarrow> (uses_properly env \<Longrightarrow> proper a s) \<Longrightarrow>
     perform T dcq h a (s\<lparr>assigning := map_option (\<lambda>(x, b). (x, False)) (assigning s)\<rparr>) = Some t \<Longrightarrow>
     call_internal T env s t"
| "call_failure s = None \<Longrightarrow> assigning s = Some (x, b) \<Longrightarrow> call_internal T env s (store_stream x b s)"
| "call_failure s = None \<Longrightarrow> user_of s = Dropped \<Longrightarrow> (response_outlives env \<Longrightarrow> \<not> state_alive s) \<Longrightarrow>
     call_internal T env s (s\<lparr>response_alive := False\<rparr>)"

definition call_behaviour :: "assumptions \<Rightarrow> (rpc_method_type \<times> 'req call_sys, call_object, unit) behaviour" where
  "call_behaviour env = \<lparr>
     b_objects = [StateObj, AwaiterObj],
     b_start = (\<lambda>f (T, s). s = initial_call),
     b_local = (\<lambda>(T, s) (T', t). T' = T \<and> call_internal T env s t),
     b_alive = (\<lambda>(T, s) a. case a of StateObj \<Rightarrow> state_alive s | AwaiterObj \<Rightarrow> user_of s = Awaiting),
     b_gone = (\<lambda>(T, s). \<not> state_alive s),
     b_failed = (\<lambda>(T, s). call_failure s \<noteq> None),
     b_outstanding = (\<lambda>(T, s). pending s),
     b_may = (\<lambda>(T, s) tag. stores_first env \<longrightarrow> assigning s = None),
     b_complete = (\<lambda>tag ok d (T, s). (T, complete T tag ok s))\<rparr>"

lemma internal_call_step: "call_internal T env s t \<Longrightarrow> call_step T env s t"
  by (erule call_internal.cases) (auto intro: call_step.intros)

lemma all_of_them: "stores_first env \<Longrightarrow> uses_properly env \<Longrightarrow> response_outlives env \<Longrightarrow> env = all_assumed"
  by (cases env) (simp add: all_assumed_def)

lemma await_op_pending: "pending s \<subseteq># pending (await_op r s)"
  by (auto simp: await_op_def emit_def fail_def split: sum.splits)

lemma perform_pending: "perform T dcq h a s = Some t \<Longrightarrow> pending s \<subseteq># pending t"
  by (cases "(T, dcq, h, a, s)" rule: perform.cases)
     (auto simp: await_op_pending start_call_def emit_def fail_def split: if_splits sum.splits)

lemma internal_pending: "call_internal T env s t \<Longrightarrow> pending s \<subseteq># pending t"
proof (erule call_internal.cases, goal_cases)
  case (1 s a dcq h t)
  then show ?case using perform_pending [OF 1(6)] by simp
next
  case (2 s x b)
  then show ?case by (simp add: store_stream_def assign_stream_def fail_def emit_def)
next
  case (3 s)
  then show ?case by simp
qed

lemma complete_pending: "pending s - {#tag#} \<subseteq># pending (complete T tag ok s)"
  by (auto simp: complete_def fail_def emit_def Let_def
      split: call_object.splits option.splits sum.splits)

lemma call_object_reaches:
  assumes "object_reaches (call_behaviour env) f x"
    and "stores_first env" and "uses_properly env" and "response_outlives env"
  shows "call_reaches (fst x) all_assumed (snd x)"
  using assms(1)
proof (induction rule: object_reaches.induct)
  case (starts x)
  then show ?case by (auto simp: call_behaviour_def)
next
  case (moves x y)
  then show ?case
    by (cases x; cases y) (auto simp: call_behaviour_def all_of_them [OF assms(2-4)] dest!: internal_call_step
      intro: rtranclp.rtrancl_into_rtrancl)
next
  case (completes x tag ok d)
  obtain T s where x: "x = (T, s)" by (cases x)
  have r: "call_reaches T all_assumed s" using completes.IH x by simp
  obtain ph where "call_inv T ph s" using call_reaches_inv [OF r] by blast
  then have "call_failure s = None" by (simp add: call_inv_defs)
  with completes.hyps have "call_step T all_assumed s (complete T tag ok s)"
    by (intro call_step.completed) (simp_all add: call_behaviour_def x assms)
  with r show ?case by (simp add: call_behaviour_def x rtranclp.rtrancl_into_rtrancl)
qed

lemma call_outstanding_alive:
  assumes "call_inv T ph s" and "z \<in># pending s"
  shows "(case snd z of StateObj \<Rightarrow> state_alive s | AwaiterObj \<Rightarrow> user_of s = Awaiting) \<and> fst z < 2"
  using assms by (cases ph) (auto simp: call_inv_defs)

lemma call_served:
  assumes "stores_first env" and "uses_properly env" and "response_outlives env"
  shows "served (call_behaviour env)"
proof unfold_locales
  show "set (b_objects (call_behaviour env)) = UNIV"
    by (auto simp: call_behaviour_def) (metis call_object.exhaust)
next
  fix f and x :: "rpc_method_type \<times> 'a call_sys" assume "b_start (call_behaviour env) f x"
  then show "\<not> b_gone (call_behaviour env) x" by (cases x) (simp add: call_behaviour_def initial_call_def)
next
  fix f and x :: "rpc_method_type \<times> 'a call_sys" assume r: "object_reaches (call_behaviour env) f x"
  obtain T s where x: "x = (T, s)" by (cases x)
  obtain ph where ph: "call_inv T ph s" using call_object_reaches [OF r assms] call_reaches_inv x by fastforce
  show "\<not> b_failed (call_behaviour env) x" using ph by (simp add: call_behaviour_def x call_inv_defs)
  show "b_outstanding (call_behaviour env) x = {#}" if "b_gone (call_behaviour env) x"
    using that ph by (cases ph) (simp_all add: call_behaviour_def x call_inv_defs)
  show "b_alive (call_behaviour env) x (snd z) \<and> fst z < 2" if "z \<in># b_outstanding (call_behaviour env) x" for z
    using that call_outstanding_alive [OF ph] by (simp add: call_behaviour_def x)
  show "b_outstanding (call_behaviour env) x \<subseteq># b_outstanding (call_behaviour env) y" if "b_local (call_behaviour env) x y" for y
    using that internal_pending by (cases y) (auto simp: call_behaviour_def x)
  show "b_outstanding (call_behaviour env) x - {#z#} \<subseteq># b_outstanding (call_behaviour env) (b_complete (call_behaviour env) z ok d x)"
    for z ok and d :: unit
    using complete_pending by (simp add: call_behaviour_def x)
qed

interpretation calls: served "call_behaviour all_assumed"
  by (rule call_served) (simp_all add: all_assumed_def)

section \<open>Dispatchers\<close>

text \<open>
  A dispatcher gives the runtime its own address with an alarm; the event of the alarm starts
  \<open>handle_event\<close>. It would fail if the alarm were set while it is still pending or handled.
\<close>

definition server_dispatch_behaviour ::
  "nat \<Rightarrow> (('fn, 'fn option list) server_dispatch, unit, unit) behaviour" where
  "server_dispatch_behaviour n = \<lparr>
     b_objects = [()],
     b_start = (\<lambda>f s. s = server_init []),
     b_local = (\<lambda>s t. pushes_and_steps (server_emplace list_emplace) (server_step (Suc n) list_pop) s t \<and>
       s_alarms s \<le> s_alarms t),
     b_alive = (\<lambda>s a. True),
     b_gone = (\<lambda>s. False),
     b_failed = (\<lambda>s. 1 < s_setting s + s_alarms s + s_draining s + s_storing s),
     b_outstanding = (\<lambda>s. replicate_mset (s_alarms s) (0, ())),
     b_may = (\<lambda>s x. True),
     b_complete = (\<lambda>x ok d s. server_deliver s)\<rparr>"

definition client_dispatch_behaviour ::
  "(('fn, 'fn option list) client_dispatch, unit, unit) behaviour" where
  "client_dispatch_behaviour = \<lparr>
     b_objects = [()],
     b_start = (\<lambda>f s. s = client_init []),
     b_local = (\<lambda>s t. pushes_and_steps (client_emplace list_emplace) (client_step list_pop) s t \<and>
       c_alarms s \<le> c_alarms t),
     b_alive = (\<lambda>s a. True),
     b_gone = (\<lambda>s. False),
     b_failed = (\<lambda>s. 1 < c_setting s + c_alarms s + c_entered s),
     b_outstanding = (\<lambda>s. replicate_mset (c_alarms s) (0, ())),
     b_may = (\<lambda>s x. True),
     b_complete = (\<lambda>x ok d s. client_deliver s)\<rparr>"

lemma replicate_mset_mono: "m \<le> n \<Longrightarrow> replicate_mset m x \<subseteq># replicate_mset n x"
  by (simp add: subseteq_mset_def)

lemma list_functions_queue': "function_queue [] list_emplace list_pop (id :: 'fn option list \<Rightarrow> _)"
  by unfold_locales

lemma server_object_reaches:
  "object_reaches (server_dispatch_behaviour n) f s \<Longrightarrow> server_reaches (Suc n) [] list_emplace list_pop s"
proof (induction rule: object_reaches.induct)
  case (completes s x ok d)
  then have "0 < s_alarms s" by (cases "s_alarms s") (simp_all add: server_dispatch_behaviour_def)
  then have "server_step (Suc n) list_pop s (server_deliver s)" by (rule server_step.intros)
  with completes.IH show ?case
    by (simp add: server_dispatch_behaviour_def pushes_and_steps_def rtranclp.rtrancl_into_rtrancl)
qed (auto simp: server_dispatch_behaviour_def intro: rtranclp.rtrancl_into_rtrancl)

lemma client_object_reaches:
  "object_reaches client_dispatch_behaviour f s \<Longrightarrow> client_reaches [] list_emplace list_pop s"
proof (induction rule: object_reaches.induct)
  case (completes s x ok d)
  then have "0 < c_alarms s" by (cases "c_alarms s") (simp_all add: client_dispatch_behaviour_def)
  then have "client_step list_pop s (client_deliver s)" by (rule client_step.intros)
  with completes.IH show ?case
    by (simp add: client_dispatch_behaviour_def pushes_and_steps_def rtranclp.rtrancl_into_rtrancl)
qed (auto simp: client_dispatch_behaviour_def intro: rtranclp.rtrancl_into_rtrancl)

lemma replicate_remove: "replicate_mset n x - {#x#} \<subseteq># replicate_mset (n - Suc 0) x"
  by (cases n) simp_all

interpretation server_dispatcher: served "server_dispatch_behaviour n"
proof unfold_locales
  fix f and s :: "('a, 'a option list) server_dispatch"
  assume "object_reaches (server_dispatch_behaviour n) f s"
  then have "server_reaches (Suc n) [] list_emplace list_pop s" by (rule server_object_reaches)
  then obtain a where "server_rel (Suc n) id s a"
    using function_queue.server_facts(1) [OF list_functions_queue'] by blast
  then show "\<not> b_failed (server_dispatch_behaviour n) s"
    by (cases "d_token a") (simp_all add: server_dispatch_behaviour_def server_rel_def)
qed (auto simp: server_dispatch_behaviour_def server_deliver_def replicate_mset_mono replicate_remove
    split: if_splits)

interpretation client_dispatcher: served client_dispatch_behaviour
proof unfold_locales
  fix f and s :: "('a, 'a option list) client_dispatch"
  assume "object_reaches client_dispatch_behaviour f s"
  then have "client_reaches [] list_emplace list_pop s" by (rule client_object_reaches)
  then obtain a where "client_rel id s a"
    using function_queue.client_facts(1) [OF list_functions_queue'] by blast
  then show "\<not> b_failed client_dispatch_behaviour s"
    by (cases "d_token a") (simp_all add: client_dispatch_behaviour_def client_rel_def)
qed (auto simp: client_dispatch_behaviour_def client_deliver_def replicate_mset_mono replicate_remove
    split: if_splits)

section \<open>All of them behind one loop\<close>

type_synonym program_part = "calldata + call_object + unit + unit + unit + unit"

text \<open>
  The order in which the queue returns the completions of a task, and what the calls rely on, are
  parameters: nothing in the code enforces either.
\<close>

definition program_behaviour where
  "program_behaviour order env hooks cleared n =
     both (task_behaviour order hooks cleared) (both (call_behaviour env)
       (both (server_dispatch_behaviour n) (both client_dispatch_behaviour
         (both unary_behaviour generic_behaviour))))"

lemma program_served:
  "well_behaved hooks \<Longrightarrow> (\<And>out tag. order out tag \<Longrightarrow> done_first out tag) \<Longrightarrow> stores_first env \<Longrightarrow> uses_properly env \<Longrightarrow>
     response_outlives env \<Longrightarrow> served (program_behaviour order env hooks cleared n)"
  unfolding program_behaviour_def
  by (intro served_both task_served call_served server_dispatcher.served_axioms
      client_dispatcher.served_axioms unary.served_axioms generic.served_axioms)

text \<open>
  Where the parts of an object are. The promise of a frame is not where an awaiter is, and the state of
  a call, which is on the heap, is not where its awaiter is; awaiters of one frame may share storage.
\<close>

definition well_placed :: "(nat \<Rightarrow> program_part \<Rightarrow> 'p) \<Rightarrow> bool" where
  "well_placed addr \<longleftrightarrow> (\<forall>f.
     (\<forall>a \<in> {InitialAwaiter, OpAwaiter, FinalAwaiter}. addr f (Inl PromiseObj) \<noteq> addr f (Inl a)) \<and>
     addr f (Inr (Inl StateObj)) \<noteq> addr f (Inr (Inl AwaiterObj)))"

lemma task_parts_apart:
  assumes "object_alive c a" and "object_alive c b" and "a \<noteq> b"
  shows "(a = PromiseObj \<and> b \<in> {InitialAwaiter, OpAwaiter, FinalAwaiter}) \<or>
         (b = PromiseObj \<and> a \<in> {InitialAwaiter, OpAwaiter, FinalAwaiter})"
  using assms by (cases a; cases b) auto

text \<open>Parts of one object that exist together are at different addresses.\<close>

definition separated :: "('s, 'o, 'd) behaviour \<Rightarrow> ('o \<Rightarrow> 'p) \<Rightarrow> bool" where
  "separated B at_addr \<longleftrightarrow>
     (\<forall>s a b. b_alive B s a \<longrightarrow> b_alive B s b \<longrightarrow> at_addr a = at_addr b \<longrightarrow> a = b)"

lemma separated_both:
  "separated B (\<lambda>a. at_addr (Inl a)) \<Longrightarrow> separated C (\<lambda>a. at_addr (Inr a)) \<Longrightarrow> separated (both B C) at_addr"
  unfolding separated_def by (intro allI impI, case_tac s) auto

lemma separated_unit: "separated (B :: ('s, unit, 'd) behaviour) at_addr"
  by (simp add: separated_def)

lemma program_addresses:
  assumes "well_placed addr"
  shows "separated (program_behaviour order env hooks cleared n) (addr f)"
  unfolding program_behaviour_def
proof (intro separated_both separated_unit)
  show "separated (task_behaviour order hooks cleared) (\<lambda>a. addr f (Inl a))"
    unfolding separated_def
  proof (intro allI impI)
    fix x a b
    assume "b_alive (task_behaviour order hooks cleared) x a" "b_alive (task_behaviour order hooks cleared) x b"
      and eq: "addr f (Inl a) = addr f (Inl b)"
    then have "object_alive (coro (tsk (snd x))) a" "object_alive (coro (tsk (snd x))) b"
      by (simp_all add: task_behaviour_def split: prod.splits)
    from task_parts_apart [OF this] eq assms show "a = b" unfolding well_placed_def by metis
  qed
  show "separated (call_behaviour env) (\<lambda>a. addr f (Inr (Inl a)))"
    using assms by (auto simp: separated_def well_placed_def) (metis call_object.exhaust)
qed

abbreviation "program_reaches ptr_tag ptr_untag addr order env hooks cleared n W \<equiv>
  world_reaches ptr_tag ptr_untag addr (program_behaviour order env hooks cleared n) W"

lemma program_world:
  assumes "tagged_pointers ptr_tag as_void ptr_untag taggable n_tags"
    and "\<And>f a. taggable (addr f a)" and "well_placed addr" and "well_behaved hooks"
    and "\<And>out tag. order out tag \<Longrightarrow> done_first out tag"
    and "stores_first env" and "uses_properly env" and "response_outlives env"
  shows "served_world (program_behaviour order env hooks cleared n) ptr_tag as_void ptr_untag taggable n_tags addr"
  by (intro served_world.intro served_world_axioms.intro program_served assms)
     (use program_addresses [OF assms(3), of order env hooks cleared n] in \<open>auto simp: separated_def\<close>)

end
