(* ===== verification/Program_Correct.thy ===== *)
theory Program_Correct
  imports Program_World
begin

text \<open>
  The properties of the whole program behind an event loop, and a concrete layout of its objects in a
  64-bit address space for which they hold.
\<close>

section \<open>A layout\<close>

text \<open>
  Objects are 64 bytes apart; the promise of a frame and the state of a call come first, the awaiters of
  one object share the place behind it.
\<close>

fun part_offset :: "program_part \<Rightarrow> nat" where
  "part_offset (Inl PromiseObj) = 0"
| "part_offset (Inl _) = 8"
| "part_offset (Inr (Inl StateObj)) = 0"
| "part_offset (Inr (Inl AwaiterObj)) = 8"
| "part_offset (Inr (Inr _)) = 0"

definition part_address :: "nat \<Rightarrow> program_part \<Rightarrow> 64 word" where
  "part_address f a = word_of_nat (64 * (f mod 2 ^ 50 + 1) + part_offset a)"

lemma part_offset_le: "part_offset a \<le> 8" "part_offset a mod 8 = 0"
  by (cases a rule: part_offset.cases; simp)+

lemma unat_part_address: "unat (part_address f a) = 64 * (f mod 2 ^ 50 + 1) + part_offset a"
proof -
  have "f mod 2 ^ 50 < 2 ^ 50" by simp
  then have "64 * (f mod 2 ^ 50 + 1) + part_offset a < 2 ^ 64" using part_offset_le(1) [of a] by simp
  then show ?thesis unfolding part_address_def unat_of_nat by simp
qed

lemma part_address_taggable: "word_taggable (part_address f a)"
proof -
  have "unat (part_address f a) \<noteq> 0" by (simp add: unat_part_address)
  moreover have "(64 * k + part_offset a) mod 8 = 0" for k
    using part_offset_le(2) [of a] by presburger
  then have "unat (part_address f a) mod 8 = 0" by (simp only: unat_part_address)
  then have "unat (part_address f a mod 8) = 0" by (simp add: unat_mod)
  ultimately show ?thesis unfolding word_taggable_def by (metis unat_0 unat_eq_zero)
qed

lemma part_address_eq:
  "part_address f a = part_address g b \<longleftrightarrow>
     64 * (f mod 2 ^ 50 + 1) + part_offset a = 64 * (g mod 2 ^ 50 + 1) + part_offset b"
  by (metis unat_part_address word_unat_eq_iff)

lemma part_address_placed: "well_placed part_address"
  by (simp add: well_placed_def part_address_eq)

section \<open>A run\<close>

text \<open>A unary task is started and its request arrives; a call is made.\<close>

definition ex_behaviour where
  "ex_behaviour = program_behaviour done_first all_assumed (noop_task_hook True) (0::nat) 1"

type_synonym ex_state = "rpc_method_type \<times> (nat, nat) sys + rpc_method_type \<times> nat call_sys +
  (nat, nat option list) server_dispatch + (nat, nat option list) client_dispatch +
  (reader_id \<times> (nat, nat) unary_awaiter) co_await + (string, nat option) generic_awaiter co_await"

definition ex_spawned :: "(ex_state, 64 word) world" where
  "ex_spawned = \<lparr>frames = [(1, Inl (Unary, example_start))],
     in_flight = {#word_tag 0 (part_address 1 (Inl InitialAwaiter))#}, misdelivered = False\<rparr>"

definition ex_served :: "(ex_state, 64 word) world" where
  "ex_served = server_event_loop word_untag
     (serve word_tag part_address ex_behaviour ((False, 42), (), (), (), (0, Status STATUS_OK ''''), ()))
     [(word_tag 0 (part_address 1 (Inl InitialAwaiter)), True)] (ex_spawned\<lparr>in_flight := {#}\<rparr>)"

abbreviation ex_reaches :: "(ex_state, 64 word) world \<Rightarrow> bool" where
  "ex_reaches W \<equiv> program_reaches word_tag word_untag part_address done_first all_assumed (noop_task_hook True) 0 1 W"

lemma ex_spawned_reached: "ex_reaches ex_spawned"
proof -
  let ?B = "program_behaviour done_first all_assumed (noop_task_hook True) (0::nat) 1"
    and ?x = "Inl (Unary, example_start) :: ex_state"
  have "b_start ?B 1 ?x" by (auto simp: program_behaviour_def task_behaviour_def example_start_def)
  then have "world_step word_tag word_untag part_address ?B world_init
      (world_init\<lparr>frames := (1, ?x) # frames world_init,
         in_flight := in_flight world_init + pointers word_tag part_address 1 (b_outstanding ?B ?x)\<rparr>)"
    using world_step.spawn [where B = ?B and f = 1 and s = ?x and W = world_init and addr = part_address
      and ptr_tag = word_tag and ptr_untag = word_untag]
    by (simp add: world_init_def)
  then show ?thesis
    by (simp add: ex_spawned_def world_init_def program_behaviour_def task_behaviour_def
        example_start_simps pointers_def request_tag_def r_into_rtranclp)
qed

lemma ex_served_reached: "ex_reaches ex_served"
proof -
  let ?B = "program_behaviour done_first all_assumed (noop_task_hook True) (0::nat) 1" and ?w = "word_tag 0 (part_address 1 (Inl InitialAwaiter))"
  have "word_untag ?w = (Some (part_address 1 (Inl InitialAwaiter)), 0)"
    by (rule word_untag_tag [OF part_address_taggable]) simp
  moreover have "coro (tsk example_start) = SuspendedInitial"
    using life_initial(1) [of Unary "0::nat" 1 "7::nat" "8::nat"] by (simp add: example_start_def life_at_def)
  ultimately have "permitted word_untag part_address ?B ?w ex_spawned"
    by (simp add: permitted_def ex_spawned_def program_behaviour_def task_behaviour_def done_first_def tag_defs
        part_address_eq)
  then have "world_step word_tag word_untag part_address ?B ex_spawned
      (server_event_loop word_untag (serve word_tag part_address ?B ((False, 42), (), (), (), (0, Status STATUS_OK ''''), ()))
        [(?w, True)] (ex_spawned\<lparr>in_flight := in_flight ex_spawned - {#?w#}\<rparr>))"
    by (intro world_step.dispatch) (simp add: ex_spawned_def)
  with ex_spawned_reached show ?thesis
    unfolding ex_served_def ex_behaviour_def by (simp add: ex_spawned_def rtranclp.rtrancl_into_rtrancl)
qed

lemma ex_served_facts:
  "tagged_pointers word_tag (word_tag 0) word_untag word_taggable 8"
  "\<And>f a. word_taggable (part_address f a)"
  by (rule word_tags.tagged_pointers_axioms part_address_taggable)+

lemma ex_assumptions:
  "stores_first all_assumed" "uses_properly all_assumed" "response_outlives all_assumed"
  by (simp_all add: all_assumed_def)

section \<open>Properties\<close>

text \<open>
C2: a completion finds the object that asked for it, as long as four conditions hold that the code relies
on and does not enforce: the queue returns the notification of a task's call before the completion of
its finish operation; the stream of a call is stored before the completion of its start is returned; the
calls are used properly (started once, read and finished only while active, nothing written after their
side is closed), with responses that outlive them; and the hooks of the tasks behave. Then, with any
number of tasks of any methods, streaming and unary calls, generic awaiters and dispatchers on a queue,
which come and go in storage that is used again, every pointer the runtime holds is untagged to the
address of a part that exists, of the object that issued just this operation; no handler was called on
anything else, and no object did anything undefined. Without the conditions on the queue, the streams and
the responses this is false: the runs that show it are in \<open>Task_Ends\<close> and \<open>Streaming_Correct\<close>.
\<close>

theorem program_dispatches:
  fixes addr :: "nat \<Rightarrow> program_part \<Rightarrow> 'p"
  assumes "tagged_pointers ptr_tag as_void ptr_untag taggable n_tags"
    and "\<And>f a. taggable (addr f a)" and "well_placed addr" and "well_behaved hooks"
    and "\<And>out tag. order out tag \<Longrightarrow> done_first out tag"
    and "stores_first env" and "uses_properly env" and "response_outlives env"
    and "program_reaches ptr_tag ptr_untag addr order env hooks cleared n W"
  shows "\<not> misdelivered W \<and>
    (\<forall>(f, x) \<in> set (frames W). \<not> b_failed (program_behaviour order env hooks cleared n) x) \<and>
    (\<forall>w \<in># in_flight W. \<exists>f x i a. ptr_untag w = (Some (addr f a), i) \<and>
       owner addr (program_behaviour order env hooks cleared n) (addr f a) (frames W) = Some (f, x, a) \<and>
       b_alive (program_behaviour order env hooks cleared n) x a \<and>
       (i, a) \<in># b_outstanding (program_behaviour order env hooks cleared n) x)"
proof -
  let ?B = "program_behaviour order env hooks cleared n"
  have sw: "served_world ?B ptr_tag as_void ptr_untag taggable n_tags addr"
    by (rule program_world [OF assms(1-8)])
  have inv: "served_world.world_inv ?B ptr_tag addr W"
    by (rule served_world.world_reaches_inv [OF sw assms(9)])
  have "\<exists>f x i a. ptr_untag w = (Some (addr f a), i) \<and> owner addr ?B (addr f a) (frames W) = Some (f, x, a) \<and>
      b_alive ?B x a \<and> (i, a) \<in># b_outstanding ?B x" if "w \<in># in_flight W" for w
  proof (rule served_world.in_flight_has_owner [OF sw inv that])
    fix f x i a
    assume "ptr_untag w = (Some (addr f a), i)" "(i, a) \<in># b_outstanding ?B x"
      and o: "owner addr ?B (addr f a) (frames W) = Some (f, x, a)"
    moreover have "b_alive ?B x a" using owner_SomeD [OF o] by simp
    ultimately show ?thesis by (intro exI [of _ f] exI [of _ x] exI [of _ i] exI [of _ a] conjI)
  qed
  note own = this
  have srv: "served ?B" by (rule program_served [OF assms(4-8)])
  have frame: "object_reaches ?B f x" if "(f, x) \<in> set (frames W)" for f x
    using inv that unfolding served_world.world_inv_def [OF sw] by auto
  show ?thesis
  proof (intro conjI ballI)
    show "\<not> misdelivered W" using inv unfolding served_world.world_inv_def [OF sw] by blast
    show "case z of (f, x) \<Rightarrow> \<not> b_failed ?B x" if "z \<in> set (frames W)" for z
      using served.reach_safe [OF srv frame [of "fst z" "snd z"]] that by (simp add: case_prod_beta)
  qed (rule own)
qed

theorem program_dispatches_witness: "\<not> misdelivered ex_served"
  using program_dispatches [where order = done_first and env = all_assumed and addr = part_address,
    OF ex_served_facts part_address_placed noop_well_behaved _ ex_assumptions ex_served_reached]
  by blast

text \<open>
C11: under the same conditions (the notification of a task's call is returned before the completion of
its finish operation, streams are stored before the completion of their start is returned, calls are
used properly with responses that outlive them, and hooks behave), what the runtime holds is exactly
what the objects that exist are waiting for, no more and no less: nothing is lost or left behind, the
address of an object that is gone is not held by anybody, so that its storage can be given to another
one, and once all objects are gone nothing is in flight.
\<close>

theorem program_accounts_for_pointers:
  fixes addr :: "nat \<Rightarrow> program_part \<Rightarrow> 'p"
  assumes "tagged_pointers ptr_tag as_void ptr_untag taggable n_tags"
    and "\<And>f a. taggable (addr f a)" and "well_placed addr" and "well_behaved hooks"
    and "\<And>out tag. order out tag \<Longrightarrow> done_first out tag"
    and "stores_first env" and "uses_properly env" and "response_outlives env"
    and "program_reaches ptr_tag ptr_untag addr order env hooks cleared n W"
  shows "in_flight W = awaited_pointers ptr_tag addr (program_behaviour order env hooks cleared n) (frames W) \<and>
    (\<forall>p i. owner addr (program_behaviour order env hooks cleared n) p (frames W) = None \<longrightarrow>
       (\<forall>w \<in># in_flight W. ptr_untag w \<noteq> (Some p, i))) \<and>
    (frames W = [] \<longrightarrow> in_flight W = {#})"
proof -
  let ?B = "program_behaviour order env hooks cleared n"
  have sw: "served_world ?B ptr_tag as_void ptr_untag taggable n_tags addr"
    by (rule program_world [OF assms(1-8)])
  have inv: "served_world.world_inv ?B ptr_tag addr W"
    by (rule served_world.world_reaches_inv [OF sw assms(9)])
  have "ptr_untag w \<noteq> (Some p, i)" if "w \<in># in_flight W" "owner addr ?B p (frames W) = None" for w p i
    by (rule served_world.in_flight_has_owner [OF sw inv that(1)]) (use that(2) in auto)
  then show ?thesis
    using inv unfolding served_world.world_inv_def [OF sw] by auto
qed

theorem program_accounts_for_pointers_witness:
  "in_flight ex_served =
     awaited_pointers word_tag part_address (program_behaviour done_first all_assumed (noop_task_hook True) 0 1) (frames ex_served)"
  using program_accounts_for_pointers [where order = done_first and env = all_assumed and addr = part_address,
    OF ex_served_facts part_address_placed noop_well_behaved _ ex_assumptions ex_served_reached]
  by blast

end
