(* ===== verification/Spec2Isabelle.thy ===== *)
theory Spec2Isabelle
  imports Prelude Exceptions Traits Dispatch_Loop Current_Dispatcher Awaiters
    Task_Context Task Task_Life Task_Correct Task_Ends Task_Shutdown Task_Effects Task_Auth
    Task_Members Call_Typing
    Streaming_Call Streaming_Ops Streaming_Life Streaming_Inv Streaming_Correct Unary_Call
    Co_Await Call_Objects Dispatch_Spec Dispatchers Handler_Runs Client_Queue Client_Life Client_Calls Default_Queue
    Server_Workers Worker_Startup Server_Life Late_Push Server Server_Whole Server_Construction Service_Builder
    Server_Tasks Server_Tasks_End
    Object_World Awaiter_World Program_World Program_Correct
begin

text \<open>
  A verification library for asyncpp-grpc, a C++20 library that lets coroutines serve and call gRPC
  methods. It models the library's own code, all of \<open>include/asyncpp/grpc\<close> and \<open>src/grpc\<close>; the gRPC
  runtime, the C++ runtime and the \<open>asyncpp\<close> base library are its environment.

  The program. A user registers server coroutines with a \<open>server_builder\<close> (\<open>server.h\<close>, \<open>server.cpp\<close>);
  the \<open>server\<close> it builds has one completion queue and one worker thread each, and every worker starts
  the coroutines on its queue and then dispatches completions. A server coroutine is a \<open>task\<close>
  (\<open>task.h\<close>): its promise requests a call, authenticates it by a hook, runs the body, whose awaiters
  issue the operations of the call, and finishes it. A client coroutine awaits a \<open>unary_call\<close> or a
  \<open>streaming_call\<close> (\<open>call.h\<close>), on a queue of its own or on the default \<open>client_cq\<close> (\<open>client_cq.cpp\<close>).
  Every operation is issued with a tagged pointer to an object with a virtual \<open>handle_event\<close>
  (\<open>calldata_interface.h\<close>), which the queue's worker calls with the outcome. Both kinds of queues are
  also dispatchers: functions pushed from any thread run on a worker, woken by an alarm. The traits
  (\<open>traits.h\<close>) recover the kind and the types of a method from its C++ type; exceptions and statuses
  are translated into each other by \<open>grpc_exception.h\<close> and \<open>util.cpp\<close>.

  Conventions. An object is a record with the members of the class, a member function a definition of
  nearly the same name on it. What a function does to the outside, the operations it issues, the hooks
  it calls, the frames it resumes or destroys, is the list of effects it returns, in program order.
  Undefined behaviour, failing assertions included, is a value of \<open>ub\<close>, an exception a value of a type
  of the component; both are the left side of a sum. Messages, services and hooks are parameters.
  Concurrency is a step relation: the steps of the threads, and the completions of the environment,
  interleave in any order; what the order may be is a parameter where the code depends on it.

  The theories, in the order of import, and what their lemmas show:

  \<^item> Prelude: undefined behaviour, statuses, effects and the lemmas on lists and multisets all share.
  \<^item> Exceptions (\<open>grpc_exception.h\<close>, \<open>util.cpp\<close>): the message table is never read out of bounds, for
    any 32-bit code, since a negative one converts to a large \<open>size_t\<close>; statuses survive being thrown;
    an exception is never reported as success unless it was thrown as such.
  \<^item> Traits (\<open>traits.h\<close>, \<open>call\<close> of \<open>call.h\<close>): the twelve specialisations as patterns, template argument
    deduction as first-order matching; they are unambiguous, defined for exactly the signatures the code
    generator is documented to make, which are written out as literal types, and consistent in the flags
    and types written out by hand.
  \<^item> Dispatch_Loop (\<open>calldata_interface.h\<close>, the loops in \<open>server.cpp\<close> and \<open>client_cq.cpp\<close>): tagged
    pointers as an interface, interpreted on 64-bit addresses; every completion reaches the object
    that issued it.
  \<^item> Current_Dispatcher (\<open>server.cpp\<close>, \<open>client_cq.cpp\<close>): the dispatcher registered for the thread of a
    worker: the server is for everything that runs on its workers, a client queue is not.
  \<^item> Awaiters (\<open>generic_method_awaiter.h\<close>): the protocol of an awaiter for one operation as an
    interface, interpreted here, for the three operations of a task context and for the four
    operations of a streaming call.
  \<^item> Task_Context, Task (\<open>task.h\<close>, \<open>rw_tag.h\<close>): the code of the server task, definition by definition.
  \<^item> Task_Members (\<open>task.h\<close>): what the type system selects, the constructor of the promise by the
    parameters of the coroutine and the accessors of the context by the kind of the method.
  \<^item> Call_Typing (\<open>task.h\<close>, \<open>call.h\<close>): the assertions and \<open>requires\<close> clauses of the wrappers and the types in
    every call through a method pointer; a wrapper compiles for exactly the methods it is meant for.
  \<^item> Task_Life, Task_Correct, Task_Ends, Task_Shutdown, Task_Effects, Task_Auth: the task among its environment. The life cycle
    (\<open>phase\<close>, \<open>phase_step\<close>) is the abstract specification; \<open>alive_inv\<close> is the invariant, kept by every
    step. Under the contract \<open>done_first\<close> on the order of tags the task is memory safe, accounts for
    every call and can always end, and every run of it ends once the server is shut down and requests
    fail; without the contract, and across a rejected call, two runs are exhibited that show what the
    code does not guard against, and a hook that calls its authentication callback again is followed
    through every phase.
  \<^item> Streaming_Call, Streaming_Ops, Streaming_Life, Streaming_Inv, Streaming_Correct (\<open>call.h\<close>): the
    members of a streaming call, the user that awaits them one after the other, and the state object
    that outlives the wrapper. The life cycle is again an automaton. What the code takes for granted
    is a record of assumptions; with all of them the call is safe, closes and finishes what it
    started exactly once and cleans up after itself, and for each of them there is a run without it
    that fails.
  \<^item> Co_Await (\<open>task.h\<close>, \<open>call.h\<close>, \<open>generic_method_awaiter.h\<close>): the expression \<open>co_await\<close> as a function of the
    members of an awaiter, and every class of awaiters of the library as these members: what bodies of
    tasks and users of calls do in the other theories is what the expression does with the class the code
    selects. From there the expression is followed to its value: the operation, written out once more on its
    own, is issued, its completion resumes this coroutine, and \<open>await_resume\<close> returns the outcome.
  \<^item> Unary_Call, Call_Objects (\<open>call.h\<close>): the one awaiter of a unary call; the objects \<open>unary_call\<close> and
    \<open>streaming_call\<close> with their constructors and destructors, and the raw pointers of the awaiters to the
    context and the stub: with three rules for the program nothing fails in any order, and without each
    of them there is a program that fails.
  \<^item> Dispatch_Spec, Dispatchers (\<open>client_cq.cpp\<close>, \<open>server.cpp\<close>): a small machine with one wake-up token
    as specification, the queue of the \<open>asyncpp\<close> library and the dispatcher as interfaces, and both
    implementations, line by line and thread by thread, as its refinements: no function is lost,
    repeated or reordered, no wake-up is lost and no alarm set twice.
  \<^item> Handler_Runs (\<open>client_cq.cpp\<close>, \<open>server.cpp\<close>): both \<open>handle_event\<close> from the call to the return, with
    functions that push, throw or never let the loop end, as a loop that may not return. The
    reference is a recursion of its own on a plain list; both do what it says, the server also with what
    other threads push between its two loops, and leave an alarm for what was pushed. A run of them is a
    run of the interleaved steps, they return if what the functions push is bounded, and two kinds of
    functions hold up the queue.
  \<^item> Client_Queue, Client_Life (\<open>client_cq.cpp\<close>): construction, destruction and the default instance, and
    the worker, the pushing threads and the destructor step by step: once the destructor has joined the
    worker, every function ever pushed has run, and the destructor always gets there.
  \<^item> Client_Calls (\<open>client_cq.cpp\<close>, \<open>call.h\<close>): a client queue with the streaming calls that were given it
    explicitly, their users and the runtime that completes their operations, up to the end of the queue:
    after its shutdown every run ends, at the join every call is over, and an operation comes too late
    only for a call that was dropped or was finishing just before. An action of a coroutine is a step of
    its own, whichever thread resumed it.
  \<^item> Default_Queue (\<open>client_cq.cpp\<close>, \<open>call.h\<close>): the references to the default queue, of the static instance
    and of the calls, and the exit of the program: the queue outlives its users, and how it ends depends
    on the thread that drops the last reference.
  \<^item> Server_Workers, Worker_Startup (\<open>server.cpp\<close>): the unsynchronised list of initializers is safe in
    every interleaving of the workers; workers only move forward, their start ends, and then the
    list has been run on every queue and released.
  \<^item> Server_Life, Late_Push (\<open>server.cpp\<close>, \<open>client_cq.cpp\<close>): the workers, the pushing threads and the thread
    in \<open>stop\<close> step by step: \<open>stop\<close> ends and loses no function, on whichever queue the alarm is; and the
    run, with a function that pushes another, in which an alarm is set on a queue that was shut down.
  \<^item> Server_Whole (\<open>server.cpp\<close>): start-up, loops and stop as one system, in which \<open>stop\<close> may begin while
    workers start: each part behaves as it does alone, and the whole ends, with every initializer and
    every function run; and the run in which an initializer runs on a queue that was shut down.
  \<^item> Server_Tasks, Server_Tasks_End (\<open>server.cpp\<close>, \<open>task.h\<close>): the whole server with its tasks: every initializer
    starts a task on the queue of its worker, workers deliver completions between the other events of
    their loops, \<open>Next\<close> returns false only when no task on the queue waits, and the queues are shut down
    only after the runtime's \<open>Shutdown\<close>, which waits for the calls that were accepted. Once
    \<open>stop\<close> has begun every run is bounded, and it ends with \<open>stop\<close> returned and no frame, no worker and no
    function behind, unless an operation was issued on a queue that was shut down; that cannot happen if
    all workers were online and the runtime waits for the last completions of rejected calls. Each part is
    in a state it reaches alone; and the run in which a task whose call was rejected requests the next one on a
    queue that was shut down. The contract of \<open>Shutdown\<close> is a parameter (\<open>drained\<close>), since it is documented
    to wait for the processing of calls, not for the delivery of their last completion.
  \<^item> Server_Construction (\<open>server.cpp\<close>, \<open>server.h\<close>): the constructor when a thread cannot be started.
  \<^item> Server, Service_Builder (\<open>server.cpp\<close>, \<open>server.h\<close>): construction, \<open>stop\<close> and its order; the builder, and
    the chains of calls on it and on the service builders it hands out: what compiles is equal to the
    direct calls, and every task serves a registered service.
  \<^item> Object_World, Awaiter_World, Program_World, Program_Correct: the composition. What an object that
    receives completions promises is an interface, \<open>served\<close>; tasks, streaming calls, unary calls, generic
    awaiters and both dispatchers are shown to keep it, and so any number of them can share an event
    loop and storage: every completion reaches the object that issued it, and the runtime holds exactly what
    the objects wait for. The order of a task's completions and what the calls rely on are parameters of
    the composition; the two theorems name what they assume of them: \<open>done_first\<close>, that streams are stored
    first, that calls are used properly and that responses outlive them.

  Bounds and fuel. No definition uses fuel: recursion is structural, but for the loop of a handler, which
  is a partial function that is \<open>None\<close> where the loop does not end, and runs are reflexive transitive
  closures. That runs end is proved by a measure (\<open>work_left\<close>, \<open>life_left\<close>, \<open>start_work\<close>, \<open>stop_left\<close>,
  \<open>whole_left\<close>, \<open>tasked_left\<close>, \<open>called_left\<close>, \<open>load\<close>, \<open>shut_left\<close>, \<open>steps_to_end\<close>) or by giving the
  completions that lead to the end. Status codes and tagged pointers are machine words; counters of threads
  and contexts are natural numbers, since the code never wraps them.

  The body of a task is user code: the number of actions it takes after \<open>stop\<close> began before it returns or
  throws (\<open>tc_budget\<close>) is arbitrary but finite, and bounds only that. That the queue returns the notification
  of a call before the completion of its finish operation (\<open>done_first\<close>) is an assumption about the runtime
  which its documentation does not state; every property that needs it says so.

  Not modelled: the transport and the contents of messages; the allocator of coroutine frames
  (\<open>promise_allocator_base\<close>), propagation options and thread names; \<open>hooks()\<close>, \<open>raw_builder()\<close>, \<open>cq()\<close> and the
  other accessors that return a member nothing else reads; what a call does with its context besides
  using and owning it; an initializer that throws, which ends the program on its worker, or that starts
  more than one frame; the error details of a status beside its code and message; the tests and the build
  files. A hook is taken to return from its other calls, and a total function of the state. The
  memory order of the atomics is taken to be the sequentially consistent default the code uses.
\<close>

end
